(* ===== verification/Prelude.thy ===== *)
theory Prelude
  imports Main "HOL-Library.Word" "HOL-Library.Monad_Syntax"
begin

text \<open>
  Shared ground of the development: names for the machine types of the Rust sources, the
  integer operations of the Rust standard library that the sources call
  (\<open>checked_add\<close>, \<open>saturating_mul\<close>, \<open>count_ones\<close>, \<open>trailing_zeros\<close>,
  \<open>div_ceil\<close>), the lemma collections that the component proofs use, and generic facts on
  lists, options and words.

  \<open>usize\<close> is the 64-bit platform word. It is modelled by \<open>nat\<close>, with the 64-bit bound
  \<open>usize_max\<close> written out wherever the source checks, saturates or wraps.
\<close>

unbundle bit_operations_syntax

type_synonym u8 = "8 word"
type_synonym u16 = "16 word"
type_synonym u32 = "32 word"
type_synonym u64 = "64 word"
type_synonym usize = nat

named_theorems abs_simps \<open>what an operation does to the abstraction of its state\<close>
named_theorems inv_intros \<open>operations preserve the invariant of their component\<close>

definition usize_max :: usize where
  "usize_max = 2 ^ 64 - 1"

definition u32_max :: nat where
  "u32_max = 2 ^ 32 - 1"

definition checked_add :: "usize \<Rightarrow> usize \<Rightarrow> usize option" where
  "checked_add a b = (if a + b \<le> usize_max then Some (a + b) else None)"

definition saturating_add :: "usize \<Rightarrow> usize \<Rightarrow> usize" where
  "saturating_add a b = min (a + b) usize_max"

definition saturating_mul :: "usize \<Rightarrow> usize \<Rightarrow> usize" where
  "saturating_mul a b = min (a * b) usize_max"

definition div_ceil :: "usize \<Rightarrow> usize \<Rightarrow> usize" where
  "div_ceil a b = (if a mod b = 0 then a div b else a div b + 1)"

definition count_ones :: "'a::len word \<Rightarrow> nat" where
  "count_ones w = length (filter (bit w) [0..<LENGTH('a)])"

definition trailing_zeros :: "'a::len word \<Rightarrow> nat" where
  "trailing_zeros w = length (takeWhile (\<lambda>i. \<not> bit w i) [0..<LENGTH('a)])"

fun nat_trailing_zeros :: "nat \<Rightarrow> nat" where
  "nat_trailing_zeros n = (if n = 0 \<or> odd n then 0 else Suc (nat_trailing_zeros (n div 2)))"

declare nat_trailing_zeros.simps [simp del]

definition is_power_of_two :: "nat \<Rightarrow> bool" where
  "is_power_of_two n \<longleftrightarrow> n = 2 ^ nat_trailing_zeros n"

text \<open>
  Draining an iterator: \<open>next\<close> gives an optional item and the advanced iterator, and
  the loop ends at the first \<open>None\<close>. An iterator that never ends has the value
  \<open>None\<close>.
\<close>

partial_function (option) iter_collect :: "('it \<Rightarrow> 'a option \<times> 'it) \<Rightarrow> 'it \<Rightarrow> 'a list option" where
  "iter_collect next it =
     (case next it of
        (None, _) \<Rightarrow> Some []
      | (Some x, it') \<Rightarrow> Option.bind (iter_collect next it') (\<lambda>xs. Some (x # xs)))"

text \<open>The least element of a set from a given index on: the specification of every index scan.\<close>

definition least_from :: "nat set \<Rightarrow> nat \<Rightarrow> nat option" where
  "least_from S n = (if \<exists>j \<in> S. n \<le> j then Some (LEAST j. j \<in> S \<and> n \<le> j) else None)"


subsection \<open>Generic facts\<close>

lemma checked_add_Some_iff [simp]:
  "checked_add a b = Some c \<longleftrightarrow> c = a + b \<and> a + b \<le> usize_max"
  by (auto simp: checked_add_def)

lemma checked_add_None_iff [simp]:
  "checked_add a b = None \<longleftrightarrow> usize_max < a + b"
  by (auto simp: checked_add_def)

lemma trailing_zeros_pow2 [simp]: "nat_trailing_zeros (2 ^ k) = k"
  by (induction k) (simp_all add: nat_trailing_zeros.simps [of "Suc 0"] nat_trailing_zeros.simps [of "2 * 2 ^ _"])

lemma power_of_two_iff: "is_power_of_two n \<longleftrightarrow> (\<exists>k. n = 2 ^ k)"
  by (auto simp: is_power_of_two_def)

lemma takeWhile_upt_length:
  assumes "\<exists>i < n. P i"
  shows "length (takeWhile (\<lambda>i. \<not> P i) [0..<n]) = (LEAST i. P i)"
proof -
  define m where "m = (LEAST i. P i)"
  from assms obtain j where j: "j < n" "P j" by blast
  have Pm: "P m" unfolding m_def by (rule LeastI, rule j(2))
  have mn: "m < n" using Least_le [of P j] j by (simp add: m_def)
  have below: "\<not> P i" if "i < m" for i using that not_less_Least unfolding m_def by blast
  have "[0..<n] = [0..<m] @ m # [Suc m..<n]"
    using mn by (metis append_Cons append_Nil le_add1 less_imp_add_positive upt_add_eq_append
        upt_conv_Cons zero_less_iff_neq_zero add_0 le0 less_imp_le_nat)
  moreover have "takeWhile (\<lambda>i. \<not> P i) ([0..<m] @ m # [Suc m..<n]) = [0..<m]"
    using below Pm by (subst takeWhile_append2) auto
  ultimately show ?thesis by (simp add: m_def)
qed

lemma word_neq_0_bit: "(w :: 'a::len word) \<noteq> 0 \<longleftrightarrow> (\<exists>i < LENGTH('a). bit w i)"
  by (metis bit_0_eq bit_eq_iff bit_imp_le_length bot_apply bot_bool_def)

lemma trailing_zeros_Least:
  "(w :: 'a::len word) \<noteq> 0 \<Longrightarrow> trailing_zeros w = (LEAST i. bit w i)"
  unfolding trailing_zeros_def by (rule takeWhile_upt_length) (simp add: word_neq_0_bit)

lemma bit_trailing_zeros: "(w :: 'a::len word) \<noteq> 0 \<Longrightarrow> bit w (trailing_zeros w)"
  by (metis LeastI trailing_zeros_Least word_neq_0_bit)

lemma trailing_zeros_less: "(w :: 'a::len word) \<noteq> 0 \<Longrightarrow> trailing_zeros w < LENGTH('a)"
  using bit_imp_le_length bit_trailing_zeros by blast

lemma below_trailing_zeros: "i < trailing_zeros (w :: 'a::len word) \<Longrightarrow> \<not> bit w i"
proof (cases "w = 0")
  case False
  assume "i < trailing_zeros w"
  with False show ?thesis using not_less_Least trailing_zeros_Least by metis
qed simp

lemma count_ones_card: "count_ones (w :: 'a::len word) = card {i. bit w i}"
proof -
  have "{i. bit w i} = set (filter (bit w) [0..<LENGTH('a)])"
    by (auto dest: bit_imp_le_length)
  then have "card {i. bit w i} = card (set (filter (bit w) [0..<LENGTH('a)]))"
    by simp
  also have "\<dots> = length (filter (bit w) [0..<LENGTH('a)])"
    by (rule distinct_card) simp
  finally show ?thesis by (simp add: count_ones_def)
qed

lemma least_from_eq_None: "least_from S n = None \<longleftrightarrow> (\<forall>j \<in> S. j < n)"
  by (auto simp: least_from_def not_le [symmetric])

lemma least_from_eq_Some:
  "least_from S n = Some m \<longleftrightarrow> m \<in> S \<and> n \<le> m \<and> (\<forall>j \<in> S. n \<le> j \<longrightarrow> m \<le> j)"
proof
  assume l: "least_from S n = Some m"
  then obtain j where "j \<in> S \<and> n \<le> j" by (auto simp: least_from_def split: if_splits)
  then have "m \<in> S \<and> n \<le> m"
    using l LeastI [of "\<lambda>j. j \<in> S \<and> n \<le> j" j] by (auto simp: least_from_def split: if_splits)
  moreover have "m \<le> j" if "j \<in> S" "n \<le> j" for j
    using l that Least_le [of "\<lambda>j. j \<in> S \<and> n \<le> j" j] by (auto simp: least_from_def split: if_splits)
  ultimately show "m \<in> S \<and> n \<le> m \<and> (\<forall>j \<in> S. n \<le> j \<longrightarrow> m \<le> j)" by blast
next
  assume m: "m \<in> S \<and> n \<le> m \<and> (\<forall>j \<in> S. n \<le> j \<longrightarrow> m \<le> j)"
  then have "(LEAST j. j \<in> S \<and> n \<le> j) = m" by (intro Least_equality) auto
  with m show "least_from S n = Some m" by (auto simp: least_from_def)
qed

lemma sorted_list_from_least:
  assumes "finite S" "least_from S n = Some m"
  shows "sorted_list_of_set (S \<inter> {n..}) = m # sorted_list_of_set (S \<inter> {Suc m..})"
proof -
  let ?A = "S \<inter> {n..}"
  from assms(2) have m: "m \<in> ?A" "\<forall>j \<in> ?A. m \<le> j" by (auto simp: least_from_eq_Some)
  then have "Min ?A = m" using assms(1) by (intro Min_eqI) auto
  moreover have "?A - {m} = S \<inter> {Suc m..}" 
  proof (rule set_eqI)
    fix x
    show "x \<in> ?A - {m} \<longleftrightarrow> x \<in> S \<inter> {Suc m..}"
      using m by (cases "x = m") (auto simp: Suc_le_eq order_less_le)
  qed
  ultimately show ?thesis
    using sorted_list_of_set_nonempty [of ?A] m(1) assms(1) by auto
qed

text \<open>An iterator whose cursor is the least remaining element of a finite set enumerates it.\<close>

lemma iter_collect_least_from:
  assumes fin: "finite S"
    and stop: "\<And>it n. P it \<Longrightarrow> cur it = least_from S n \<Longrightarrow> cur it = None \<Longrightarrow> fst (nxt it) = None"
    and step: "\<And>it n x. P it \<Longrightarrow> cur it = least_from S n \<Longrightarrow> cur it = Some x \<Longrightarrow>
                 \<exists>it'. nxt it = (Some (g x), it') \<and> P it' \<and> cur it' = least_from S (Suc x)"
    and init: "P it" "cur it = least_from S n"
  shows "iter_collect nxt it = Some (map g (sorted_list_of_set (S \<inter> {n..})))"
  using init
proof (induction "card (S \<inter> {n..})" arbitrary: it n rule: less_induct)
  case less
  show ?case
  proof (cases "cur it")
    case None
    then have "fst (nxt it) = None" using stop less.prems by blast
    moreover have "S \<inter> {n..} = {}"
      using None less.prems(2) least_from_eq_None [of S n] by (auto simp: not_le)
    ultimately show ?thesis
      by (subst iter_collect.simps) (auto split: prod.splits)
  next
    case (Some x)
    then obtain it' where it': "nxt it = (Some (g x), it')" "P it'" "cur it' = least_from S (Suc x)"
      using step less.prems by blast
    have l: "least_from S n = Some x" using Some less.prems(2) by simp
    then have x: "x \<in> S" "n \<le> x" by (auto simp: least_from_eq_Some)
    have "S \<inter> {Suc x..} \<subseteq> S \<inter> {n..}" using x by auto
    moreover have "x \<in> S \<inter> {n..}" "x \<notin> S \<inter> {Suc x..}" using x by auto
    ultimately have "S \<inter> {Suc x..} \<subset> S \<inter> {n..}" by blast
    then have "card (S \<inter> {Suc x..}) < card (S \<inter> {n..})"
      using fin by (intro psubset_card_mono) auto
    then have "iter_collect nxt it' = Some (map g (sorted_list_of_set (S \<inter> {Suc x..})))"
      using less.hyps it'(2,3) by blast
    then show ?thesis
      using it'(1) sorted_list_from_least [OF fin l] by (subst iter_collect.simps) simp
  qed
qed

lemma unat_lt2p: "unat (w :: 'a::len word) < 2 ^ LENGTH('a)"
  by (rule unsigned_less)

lemma unat_u32_less: "unat (w :: u32) < 2 ^ 32"
  using unat_lt2p [of w] by simp

lemma unat_of_nat_u32: "n < 2 ^ 32 \<Longrightarrow> unat (of_nat n :: u32) = n"
  by (simp add: unat_of_nat take_bit_eq_mod)

lemma unat_inj_iff [simp]: "unat a = unat b \<longleftrightarrow> a = (b :: 'a::len word)"
  by (simp add: word_unat_eq_iff)

lemma unat_in_image_iff [simp]: "unat a \<in> unat ` A \<longleftrightarrow> (a :: 'a::len word) \<in> A"
  by auto

lemma set_butlast_distinct:
  "distinct xs \<Longrightarrow> xs \<noteq> [] \<Longrightarrow> set (butlast xs) = set xs - {last xs}"
  by (induction xs rule: rev_induct) auto

lemma count_ones_0 [simp]: "count_ones 0 = 0"
  by (simp add: count_ones_card)

text \<open>A loop that writes one value to the slots it visits.\<close>

lemma foldl_list_update:
  "i < length ss \<Longrightarrow>
     foldl (\<lambda>ss k. ss[f k := v]) ss ks ! i = (if i \<in> f ` set ks then v else ss ! i)"
  "length (foldl (\<lambda>ss k. ss[f k := v]) ss ks) = length ss"
  by (induction ks arbitrary: ss) (auto simp: nth_list_update)

text \<open>Big-endian encodings: \<open>from_be_bytes\<close> and \<open>to_be_bytes\<close>.\<close>

definition u16_from_be :: "u8 \<Rightarrow> u8 \<Rightarrow> u16" where
  "u16_from_be hi lo = push_bit 8 (ucast hi) OR ucast lo"

lemma bit_u16_from_be:
  "n < 16 \<Longrightarrow> bit (u16_from_be hi lo) n \<longleftrightarrow> (if n < 8 then bit lo n else bit hi (n - 8))"
  unfolding u16_from_be_def by (auto simp: bit_simps dest: bit_imp_le_length)

definition u32_from_be :: "u8 \<Rightarrow> u8 \<Rightarrow> u8 \<Rightarrow> u8 \<Rightarrow> u32" where
  "u32_from_be b0 b1 b2 b3 =
     push_bit 24 (ucast b0) OR push_bit 16 (ucast b1) OR push_bit 8 (ucast b2) OR ucast b3"

definition u16_be_bytes :: "u16 \<Rightarrow> u8 list" where
  "u16_be_bytes v = [ucast (drop_bit 8 v), ucast v]"

definition u32_be_bytes :: "u32 \<Rightarrow> u8 list" where
  "u32_be_bytes v = [ucast (drop_bit 24 v), ucast (drop_bit 16 v), ucast (drop_bit 8 v), ucast v]"

lemma u16_be_roundtrip [simp]: "u16_from_be (ucast (drop_bit 8 v)) (ucast v) = v"
  unfolding u16_from_be_def by (rule bit_word_eqI) (auto simp: bit_simps)

lemma u32_be_roundtrip [simp]:
  "u32_from_be (ucast (drop_bit 24 v)) (ucast (drop_bit 16 v)) (ucast (drop_bit 8 v)) (ucast v) = v"
proof (rule bit_word_eqI)
  fix n assume "n < LENGTH(32)"
  then consider "n < 8" | "8 \<le> n" "n < 16" | "16 \<le> n" "n < 24" | "24 \<le> n" "n < 32" by fastforce
  then show "bit (u32_from_be (ucast (drop_bit 24 v)) (ucast (drop_bit 16 v)) (ucast (drop_bit 8 v)) (ucast v)) n
      = bit v n"
    unfolding u32_from_be_def by cases (auto simp: bit_simps)
qed

lemma be_bytes_length [simp]: "length (u16_be_bytes v) = 2" "length (u32_be_bytes w) = 4"
  by (simp_all add: u16_be_bytes_def u32_be_bytes_def)

text \<open>Slices: \<open>xs[a..b]\<close> panics outside the vector, \<open>xs.get(a..b)\<close> gives \<open>None\<close>
  there; both are this function.\<close>

definition slice :: "'a list \<Rightarrow> usize \<Rightarrow> usize \<Rightarrow> 'a list option" where
  "slice xs a b = (if a \<le> b \<and> b \<le> length xs then Some (take (b - a) (drop a xs)) else None)"

text \<open>Writing consecutive bytes from an offset on; out of range panics.\<close>

definition write_bytes :: "'a list \<Rightarrow> usize \<Rightarrow> 'a list \<Rightarrow> 'a list option" where
  "write_bytes out off bs =
     (if off + length bs \<le> length out then Some (take off out @ bs @ drop (off + length bs) out) else None)"

lemma write_bytes_append:
  "length bs \<le> length rest \<Longrightarrow> off = length acc \<Longrightarrow>
     write_bytes (acc @ rest) off bs = Some ((acc @ bs) @ drop (length bs) rest)"
  by (simp add: write_bytes_def)


subsection \<open>Byte arrays of any width\<close>

primrec to_be_bytes :: "nat \<Rightarrow> 'a::len word \<Rightarrow> u8 list" where
  "to_be_bytes 0 v = []"
| "to_be_bytes (Suc k) v = to_be_bytes k (drop_bit 8 v) @ [ucast v]"

definition from_be_bytes :: "u8 list \<Rightarrow> 'a::len word" where
  "from_be_bytes bs = foldl (\<lambda>acc b. push_bit 8 acc OR ucast b) 0 bs"

lemma length_to_be_bytes [simp]: "length (to_be_bytes k v) = k"
  by (induction k arbitrary: v) simp_all

lemma from_to_be_bytes: "from_be_bytes (to_be_bytes k v) = take_bit (8 * k) (v :: 'a::len word)"
proof (induction k arbitrary: v)
  case (Suc k)
  have "push_bit 8 (take_bit (8 * k) (drop_bit 8 v)) OR ucast (ucast v :: u8) = take_bit (8 * Suc k) v"
    by (rule bit_word_eqI) (auto simp: bit_simps)
  then show ?case using Suc [of "drop_bit 8 v"] by (simp add: from_be_bytes_def)
qed (simp add: from_be_bytes_def)

lemma from_to_be_bytes_id [simp]: "LENGTH('a) \<le> 8 * k \<Longrightarrow> from_be_bytes (to_be_bytes k v) = (v :: 'a::len word)"
  by (simp add: from_to_be_bytes) (metis take_bit_word_eq_self)

definition to_le_bytes :: "nat \<Rightarrow> 'a::len word \<Rightarrow> u8 list" where
  "to_le_bytes k v = rev (to_be_bytes k v)"

definition from_le_bytes :: "u8 list \<Rightarrow> 'a::len word" where
  "from_le_bytes bs = from_be_bytes (rev bs)"

lemma length_to_le_bytes [simp]: "length (to_le_bytes k v) = k"
  by (simp add: to_le_bytes_def)

lemma from_to_le_bytes_id [simp]: "LENGTH('a) \<le> 8 * k \<Longrightarrow> from_le_bytes (to_le_bytes k v) = (v :: 'a::len word)"
  by (simp add: to_le_bytes_def from_le_bytes_def)

end
