(* ===== verification/Bitmap.thy ===== *)
theory Bitmap
  imports Prelude
begin

text \<open>
  The growable bit set of \<open>crates/hammer-infra/src/bitmap.rs\<close>: a vector of 64-bit words,
  every operation of the source, and the proof that it implements a finite set of indices.
\<close>

record bitmap =
  bm_words :: "u64 list"

definition words_for :: "usize \<Rightarrow> usize" where
  "words_for bits = div_ceil bits 64"

definition bitmap_new :: bitmap where
  "bitmap_new = \<lparr>bm_words = []\<rparr>"

definition bitmap_with_capacity :: "usize \<Rightarrow> bitmap" where
  "bitmap_with_capacity bits = \<lparr>bm_words = replicate (words_for bits) 0\<rparr>"

definition bitmap_count_set :: "bitmap \<Rightarrow> usize" where
  "bitmap_count_set b = sum_list (map count_ones (bm_words b))"

definition bitmap_is_empty :: "bitmap \<Rightarrow> bool" where
  "bitmap_is_empty b \<longleftrightarrow> list_all (\<lambda>word. word = 0) (bm_words b)"

definition bitmap_clear_all :: "bitmap \<Rightarrow> bitmap" where
  "bitmap_clear_all b = b\<lparr>bm_words := map (\<lambda>_. 0) (bm_words b)\<rparr>"

definition ensure_bit :: "bitmap \<Rightarrow> usize \<Rightarrow> bitmap" where
  "ensure_bit b i =
     (let required = i div 64 + 1 in
      if required \<le> length (bm_words b) then b
      else b\<lparr>bm_words := bm_words b @ replicate (required - length (bm_words b)) 0\<rparr>)"

definition bitmap_set :: "bitmap \<Rightarrow> usize \<Rightarrow> bool \<times> bitmap" where
  "bitmap_set b i =
     (let b = ensure_bit b i;
          word = i div 64;
          mask = push_bit (i mod 64) 1;
          was_set = (bm_words b ! word AND mask \<noteq> 0)
      in (\<not> was_set, b\<lparr>bm_words := (bm_words b)[word := bm_words b ! word OR mask]\<rparr>))"

definition bitmap_clear :: "bitmap \<Rightarrow> usize \<Rightarrow> bool \<times> bitmap" where
  "bitmap_clear b i =
     (let word = i div 64 in
      if length (bm_words b) \<le> word then (False, b)
      else let mask = push_bit (i mod 64) 1;
               was_set = (bm_words b ! word AND mask \<noteq> 0)
           in (was_set, b\<lparr>bm_words := (bm_words b)[word := bm_words b ! word AND NOT mask]\<rparr>))"

definition bitmap_is_set :: "bitmap \<Rightarrow> usize \<Rightarrow> bool" where
  "bitmap_is_set b i =
     (let word = i div 64 in
      if length (bm_words b) \<le> word then False
      else bm_words b ! word AND push_bit (i mod 64) 1 \<noteq> 0)"

definition word_or_zero :: "u64 list \<Rightarrow> usize \<Rightarrow> u64" where
  "word_or_zero ws i = (if i < length ws then ws ! i else 0)"

function first_clear_loop :: "u64 list \<Rightarrow> usize \<Rightarrow> u64 \<Rightarrow> usize \<Rightarrow> usize option" where
  "first_clear_loop ws word_index available limit =
     (if available \<noteq> 0 then
        let position = saturating_add (saturating_mul word_index 64) (trailing_zeros available)
        in if position < limit then Some position else None
      else case checked_add word_index 1 of
             None \<Rightarrow> None
           | Some word_index' \<Rightarrow>
               first_clear_loop ws word_index' (NOT (word_or_zero ws word_index')) limit)"
  by pat_completeness auto
termination
  by (relation "measure (\<lambda>(ws, i, available, limit).
        if available = 0 then Suc (length ws - i) else 0)")
     (auto simp: word_or_zero_def split: if_splits)

declare first_clear_loop.simps [simp del]

definition first_clear_from :: "bitmap \<Rightarrow> usize \<Rightarrow> usize \<Rightarrow> usize option" where
  "first_clear_from b start limit =
     (if limit \<le> start then None
      else let word_index = start div 64;
               available = NOT (word_or_zero (bm_words b) word_index)
                             AND push_bit (start mod 64) (NOT 0)
           in first_clear_loop (bm_words b) word_index available limit)"

definition next_clear_after :: "bitmap \<Rightarrow> usize \<Rightarrow> usize \<Rightarrow> usize option" where
  "next_clear_after b index limit =
     (case checked_add index 1 of None \<Rightarrow> None | Some start \<Rightarrow> first_clear_from b start limit)"

function next_set_loop :: "u64 list \<Rightarrow> usize \<Rightarrow> u64 \<Rightarrow> usize option" where
  "next_set_loop ws word_index word =
     (if word \<noteq> 0 then Some (word_index * 64 + trailing_zeros word)
      else let word_index' = word_index + 1 in
           if length ws \<le> word_index' then None
           else next_set_loop ws word_index' (ws ! word_index'))"
  by pat_completeness auto
termination
  by (relation "measure (\<lambda>(ws, i, word). length ws - i)") auto

declare next_set_loop.simps [simp del]

definition next_set_from :: "bitmap \<Rightarrow> usize \<Rightarrow> usize option" where
  "next_set_from b i =
     (let word_index = i div 64 in
      if length (bm_words b) \<le> word_index then None
      else next_set_loop (bm_words b) word_index
             (bm_words b ! word_index AND push_bit (i mod 64) (NOT 0)))"

definition first_set :: "bitmap \<Rightarrow> usize option" where
  "first_set b = next_set_from b 0"

definition next_set :: "bitmap \<Rightarrow> usize \<Rightarrow> usize option" where
  "next_set b index =
     (case checked_add index 1 of None \<Rightarrow> None | Some n \<Rightarrow> next_set_from b n)"

record set_bits =
  sb_bitmap :: bitmap
  sb_next :: "usize option"

definition iter_set :: "bitmap \<Rightarrow> set_bits" where
  "iter_set b = \<lparr>sb_bitmap = b, sb_next = first_set b\<rparr>"

definition set_bits_next :: "set_bits \<Rightarrow> usize option \<times> set_bits" where
  "set_bits_next it =
     (case sb_next it of
        None \<Rightarrow> (None, it)
      | Some current \<Rightarrow>
          (Some current, it\<lparr>sb_next := next_set (sb_bitmap it) current\<rparr>))"

text \<open>The abstraction: the set of indices whose bit is one. A bitmap is well formed when its
  index space fits \<open>usize\<close>.\<close>

definition bits :: "bitmap \<Rightarrow> nat set" where
  "bits b = {i. bitmap_is_set b i}"

definition bitmap_wf :: "bitmap \<Rightarrow> bool" where
  "bitmap_wf b \<longleftrightarrow> 64 * length (bm_words b) \<le> Suc usize_max"


subsection \<open>Single-bit operations on the set of indices\<close>

lemma bitmap_is_set_bit:
  "bitmap_is_set b i \<longleftrightarrow>
     i div 64 < length (bm_words b) \<and> bit (bm_words b ! (i div 64)) (i mod 64)"
  by (auto simp: bitmap_is_set_def Let_def bit_iff_and_push_bit_not_eq_0)

lemma in_bits_iff:
  "i \<in> bits b \<longleftrightarrow>
     i div 64 < length (bm_words b) \<and> bit (bm_words b ! (i div 64)) (i mod 64)"
  by (simp add: bits_def bitmap_is_set_bit)

lemma in_bits_at: "i < 64 \<Longrightarrow> w * 64 + i \<in> bits b \<longleftrightarrow> w < length (bm_words b) \<and> bit (bm_words b ! w) i"
  by (simp add: in_bits_iff)

lemma bits_ensure_bit [simp]: "bits (ensure_bit b i) = bits b"
  by (auto simp: in_bits_iff ensure_bit_def Let_def nth_append nth_replicate split: if_splits)

lemma length_ensure_bit: "length (bm_words (ensure_bit b i)) = max (length (bm_words b)) (i div 64 + 1)"
  by (auto simp: ensure_bit_def Let_def)

lemma same_word_iff: "j div 64 = i div 64 \<Longrightarrow> j mod 64 = i mod 64 \<longleftrightarrow> j = (i::nat)"
  by (metis div_mod_decomp)

lemma bit_or_mask: "(i::nat) < 64 \<Longrightarrow> bit (w OR 2 ^ i :: u64) j \<longleftrightarrow> bit w j \<or> j = i"
  by (auto simp: bit_or_iff bit_exp_iff)

lemma bit_clear_mask: "(i::nat) < 64 \<Longrightarrow> bit (w AND NOT (2 ^ i) :: u64) j \<longleftrightarrow> bit w j \<and> j \<noteq> i"
  by (auto simp: bit_and_iff bit_not_iff bit_exp_iff dest: bit_imp_le_length)

lemma bits_set: "bits (snd (bitmap_set b i)) = insert i (bits b)"
proof -
  let ?b = "ensure_bit b i"
  have len: "i div 64 < length (bm_words ?b)" by (simp add: length_ensure_bit)
  have "j \<in> bits (snd (bitmap_set b i)) \<longleftrightarrow> j \<in> insert i (bits ?b)" for j
  proof (cases "j div 64 = i div 64")
    case True
    with len show ?thesis
      by (auto simp: in_bits_iff bitmap_set_def Let_def bit_or_mask same_word_iff simp del: bits_ensure_bit)
  next
    case False
    with len show ?thesis
      by (auto simp: in_bits_iff bitmap_set_def Let_def simp del: bits_ensure_bit)
  qed
  then show ?thesis by auto
qed

lemma fst_set: "fst (bitmap_set b i) \<longleftrightarrow> i \<notin> bits b"
proof -
  have "i \<in> bits b \<longleftrightarrow> i \<in> bits (ensure_bit b i)" by simp
  also have "\<dots> \<longleftrightarrow> \<not> fst (bitmap_set b i)"
    by (simp add: in_bits_iff bitmap_set_def Let_def length_ensure_bit
        bit_iff_and_push_bit_not_eq_0 less_max_iff_disj del: bits_ensure_bit)
  finally show ?thesis by blast
qed

lemma bits_clear: "bits (snd (bitmap_clear b i)) = bits b - {i}"
proof -
  have "j \<in> bits (snd (bitmap_clear b i)) \<longleftrightarrow> j \<in> bits b - {i}" for j
    by (cases "j div 64 = i div 64")
      (auto simp: in_bits_iff bitmap_clear_def Let_def bit_clear_mask same_word_iff)
  then show ?thesis by auto
qed

lemma fst_clear: "fst (bitmap_clear b i) \<longleftrightarrow> i \<in> bits b"
  by (simp add: in_bits_iff bitmap_clear_def Let_def bit_iff_and_push_bit_not_eq_0)

lemma bits_new [simp]: "bits bitmap_new = {}"
  by (auto simp: in_bits_iff bitmap_new_def)

lemma bits_with_capacity [simp]: "bits (bitmap_with_capacity n) = {}"
  by (auto simp: in_bits_iff bitmap_with_capacity_def)

lemma bits_clear_all [simp]: "bits (bitmap_clear_all b) = {}"
  by (auto simp: in_bits_iff bitmap_clear_all_def)

lemma is_empty_iff: "bitmap_is_empty b \<longleftrightarrow> bits b = {}"
proof
  assume "bitmap_is_empty b"
  then show "bits b = {}"
    by (auto simp: in_bits_iff bitmap_is_empty_def list_all_length)
next
  assume e: "bits b = {}"
  have "bm_words b ! w = 0" if "w < length (bm_words b)" for w
  proof (rule ccontr)
    assume "bm_words b ! w \<noteq> 0"
    then obtain i where "i < 64" "bit (bm_words b ! w) i" by (auto simp: word_neq_0_bit)
    with that e show False using in_bits_at [of i w b] by simp
  qed
  then show "bitmap_is_empty b" by (simp add: bitmap_is_empty_def list_all_length)
qed

lemma bits_Cons:
  "bits \<lparr>bm_words = w # ws\<rparr> = {i. bit w i} \<union> (\<lambda>i. i + 64) ` bits \<lparr>bm_words = ws\<rparr>"
  (is "?l = ?r")
proof -
  have "i \<in> ?l \<longleftrightarrow> i \<in> ?r" for i
  proof (cases "i < 64")
    case True
    then show ?thesis by (auto simp: in_bits_iff)
  next
    case False
    then obtain j where j: "i = j + 64" using le_Suc_ex by (metis add.commute not_less)
    have d: "(j + 64) div 64 = Suc (j div 64)" by simp
    have "j + 64 \<in> (\<lambda>i. i + 64) ` A \<longleftrightarrow> j \<in> A" for A by auto
    moreover have "\<not> bit w (j + 64)" by (auto dest: bit_imp_le_length)
    ultimately show ?thesis unfolding j by (simp add: in_bits_iff d del: div_add_self2)
  qed
  then show ?thesis by blast
qed

lemma finite_bits [simp]: "finite (bits b)"
proof (rule finite_subset)
  show "bits b \<subseteq> {..<64 * length (bm_words b)}"
  proof
    fix i assume "i \<in> bits b"
    then have "i div 64 < length (bm_words b)" by (simp add: in_bits_iff)
    then show "i \<in> {..<64 * length (bm_words b)}" by (simp add: div_less_iff_less_mult mult.commute)
  qed
qed simp

lemma count_set_card: "bitmap_count_set b = card (bits b)"
proof -
  have "sum_list (map count_ones ws) = card (bits \<lparr>bm_words = ws\<rparr>)" for ws :: "u64 list"
  proof (induction ws)
    case Nil
    then show ?case using bits_new by (simp add: bitmap_new_def)
  next
    case (Cons w ws)
    have "finite {i. bit w i}" by (rule finite_subset [of _ "{..<64}"]) (auto dest: bit_imp_le_length)
    moreover have "{i. bit w i} \<inter> (\<lambda>i. i + 64) ` bits \<lparr>bm_words = ws\<rparr> = {}"
      by (auto dest: bit_imp_le_length)
    ultimately have "card (bits \<lparr>bm_words = w # ws\<rparr>) =
        card {i. bit w i} + card ((\<lambda>i. i + 64) ` bits \<lparr>bm_words = ws\<rparr>)"
      by (simp add: bits_Cons card_Un_disjoint)
    then show ?case using Cons by (simp add: count_ones_card card_image inj_on_def)
  qed
  moreover have "b = \<lparr>bm_words = bm_words b\<rparr>" by simp
  ultimately show ?thesis unfolding bitmap_count_set_def by metis
qed

subsection \<open>Scans\<close>

definition word_bits :: "nat \<Rightarrow> u64 \<Rightarrow> nat set" where
  "word_bits w x = {w * 64 + j |j. bit x j}"

definition words_from :: "nat \<Rightarrow> nat set" where
  "words_from w = {i. w \<le> i div 64}"

lemma in_word_bits: "i \<in> word_bits w x \<longleftrightarrow> i div 64 = w \<and> bit x (i mod 64)"
proof
  assume "i \<in> word_bits w x"
  then obtain j where "i = w * 64 + j" "bit x j" by (auto simp: word_bits_def)
  moreover then have "j < 64" using bit_imp_le_length [of x j] by simp
  ultimately show "i div 64 = w \<and> bit x (i mod 64)" by simp
next
  assume "i div 64 = w \<and> bit x (i mod 64)"
  moreover have "i = i div 64 * 64 + i mod 64" by simp
  ultimately show "i \<in> word_bits w x" unfolding word_bits_def by blast
qed

lemma word_bits_0 [simp]: "word_bits w 0 = {}"
  by (simp add: word_bits_def)

lemma least_word_bits:
  assumes "x \<noteq> 0" and R: "R \<subseteq> words_from (Suc w)"
  shows "least_from (word_bits w x \<union> R) 0 = Some (w * 64 + trailing_zeros x)"
proof -
  let ?t = "trailing_zeros x"
  have t: "bit x ?t" "?t < 64"
    using bit_trailing_zeros [OF assms(1)] trailing_zeros_less [OF assms(1)] by simp_all
  have "w * 64 + ?t \<le> j" if "j \<in> word_bits w x" for j
  proof -
    from that have j: "j div 64 = w" "bit x (j mod 64)" by (auto simp: in_word_bits)
    then have "?t \<le> j mod 64" using below_trailing_zeros not_less by blast
    then show ?thesis using j(1) by (metis add_le_mono div_mult_mod_eq le_refl)
  qed
  moreover have "w * 64 + ?t \<le> j" if "j \<in> R" for j
  proof -
    from that R have "Suc w \<le> j div 64" by (auto simp: words_from_def)
    then have "Suc w * 64 \<le> j" by (simp only: less_eq_div_iff_mult_less_eq)
    then show ?thesis using t(2) by simp
  qed
  moreover have "w * 64 + ?t \<in> word_bits w x" using t by (simp add: in_word_bits)
  ultimately show ?thesis by (auto simp: least_from_eq_Some)
qed

lemma bits_from_word:
  assumes "w < length ws"
  shows "bits \<lparr>bm_words = ws\<rparr> \<inter> words_from w =
         word_bits w (ws ! w) \<union> bits \<lparr>bm_words = ws\<rparr> \<inter> words_from (Suc w)"
  using assms by (auto simp: in_bits_iff in_word_bits words_from_def Suc_le_eq order_le_less)

lemma bits_bm_words [simp]: "bits \<lparr>bm_words = bm_words b\<rparr> = bits b"
  by (auto simp: in_bits_iff)

lemma next_set_loop_least:
  "next_set_loop ws w x = least_from (word_bits w x \<union> bits \<lparr>bm_words = ws\<rparr> \<inter> words_from (Suc w)) 0"
proof (induction ws w x rule: next_set_loop.induct)
  case (1 ws w x)
  consider "x \<noteq> 0" | "x = 0" "length ws \<le> w + 1" | "x = 0" "w + 1 < length ws" by linarith
  then show ?case
  proof cases
    case 1
    then show ?thesis by (subst next_set_loop.simps) (simp add: least_word_bits)
  next
    case 2
    then have "bits \<lparr>bm_words = ws\<rparr> \<inter> words_from (Suc w) = {}"
      by (auto simp: in_bits_iff words_from_def)
    with 2 show ?thesis by (subst next_set_loop.simps) (simp add: least_from_def)
  next
    case 3
    then have "next_set_loop ws w x = next_set_loop ws (w + 1) (ws ! (w + 1))"
      by (subst next_set_loop.simps) simp
    then show ?thesis using "1" 3 bits_from_word [of "w + 1" ws] by simp
  qed
qed

lemma least_from_Int: "least_from (S \<inter> {n..}) 0 = least_from S n"
  by (auto simp: least_from_def intro: arg_cong [where f = Least])

lemma bit_from_mask: "k < 64 \<Longrightarrow> bit (x AND NOT (mask k) :: u64) j \<longleftrightarrow> bit x j \<and> k \<le> j"
  by (auto simp: bit_and_iff bit_mask_iff bit_not_iff dest: bit_imp_le_length)

lemma word_bits_masked:
  "word_bits (i div 64) (x AND NOT (mask (i mod 64))) = word_bits (i div 64) x \<inter> {i..}"
proof -
  have "i mod 64 \<le> j mod 64 \<longleftrightarrow> i \<le> j" if "j div 64 = i div 64" for j :: nat
    using that by (metis add_le_cancel_left div_mult_mod_eq)
  then show ?thesis by (auto simp: in_word_bits bit_from_mask)
qed

lemma words_from_ge: "j \<in> words_from (Suc (i div 64)) \<Longrightarrow> i \<le> j"
  by (metis Suc_le_eq div_le_mono mem_Collect_eq nat_le_linear not_le words_from_def)

lemma ge_words_from: "i \<le> j \<Longrightarrow> j \<in> words_from (i div 64)"
  by (simp add: words_from_def div_le_mono)

lemma next_word_Int: "S \<inter> words_from (Suc (i div 64)) \<inter> {i..} = S \<inter> words_from (Suc (i div 64))"
  by (auto dest: words_from_ge)

lemma next_set_from_least: "next_set_from b i = least_from (bits b) i"
proof (cases "i div 64 < length (bm_words b)")
  case True
  let ?w = "i div 64"
  have "next_set_from b i = least_from ((word_bits ?w (bm_words b ! ?w) \<union> bits b \<inter> words_from (Suc ?w)) \<inter> {i..}) 0"
    using True by (simp add: next_set_from_def Let_def next_set_loop_least word_bits_masked Int_Un_distrib2
        next_word_Int)
  also have "\<dots> = least_from (bits b \<inter> words_from ?w \<inter> {i..}) 0"
    using bits_from_word [OF True] by simp
  also have "bits b \<inter> words_from ?w \<inter> {i..} = bits b \<inter> {i..}"
    by (auto dest: ge_words_from)
  finally show ?thesis by (simp add: least_from_Int)
next
  case False
  have "\<forall>j \<in> bits b. j < i"
  proof (rule ballI, rule ccontr)
    fix j assume "j \<in> bits b" "\<not> j < i"
    moreover then have "i div 64 \<le> j div 64" by (simp add: div_le_mono)
    ultimately show False using False by (simp add: in_bits_iff)
  qed
  with False show ?thesis
    by (simp add: next_set_from_def least_from_eq_None [THEN iffD2])
qed

lemma clear_from_word:
  "- bits \<lparr>bm_words = ws\<rparr> \<inter> words_from w =
   word_bits w (NOT (word_or_zero ws w)) \<union> - bits \<lparr>bm_words = ws\<rparr> \<inter> words_from (Suc w)"
  by (auto simp: in_bits_iff in_word_bits words_from_def Suc_le_eq order_le_less word_or_zero_def bit_not_iff split: if_splits)

lemma first_clear_loop_least:
  assumes "limit \<le> usize_max"
  shows "first_clear_loop ws w x limit =
     least_from ((word_bits w x \<union> - bits \<lparr>bm_words = ws\<rparr> \<inter> words_from (Suc w)) \<inter> {..<limit}) 0"
  using assms
proof (induction ws w x limit rule: first_clear_loop.induct)
  case (1 ws w x limit)
  let ?R = "- bits \<lparr>bm_words = ws\<rparr> \<inter> words_from (Suc w)"
  consider "x \<noteq> 0" | "x = 0" "usize_max < w + 1" | "x = 0" "w + 1 \<le> usize_max" by linarith
  then show ?case
  proof cases
    case 1
    then have l: "least_from (word_bits w x \<union> ?R) 0 = Some (w * 64 + trailing_zeros x)"
      by (simp add: least_word_bits)
    show ?thesis
    proof (cases "w * 64 + trailing_zeros x < limit")
      case True
      then have "first_clear_loop ws w x limit = Some (w * 64 + trailing_zeros x)"
        using 1 "1.prems"
        by (subst first_clear_loop.simps) (simp add: saturating_add_def saturating_mul_def)
      moreover have "least_from ((word_bits w x \<union> ?R) \<inter> {..<limit}) 0 = Some (w * 64 + trailing_zeros x)"
        using l True unfolding least_from_eq_Some by blast
      ultimately show ?thesis by simp
    next
      case False
      then have "first_clear_loop ws w x limit = None"
        using 1 "1.prems"
        by (subst first_clear_loop.simps) (auto simp: saturating_add_def saturating_mul_def Let_def min_def)
      moreover have "limit \<le> j" if "j \<in> word_bits w x \<union> ?R" for j
        using l False that unfolding least_from_eq_Some by (meson le0 le_trans not_le)
      then have "(word_bits w x \<union> ?R) \<inter> {..<limit} = {}"
        by (meson disjoint_iff leD lessThan_iff)
      ultimately show ?thesis by (simp add: least_from_def)
    qed
  next
    case 2
    then have "first_clear_loop ws w x limit = None"
      by (subst first_clear_loop.simps) (simp add: checked_add_def)
    moreover have "?R \<inter> {..<limit} = {}"
    proof -
      have "limit \<le> j" if "j \<in> words_from (Suc w)" for j
      proof -
        have "Suc w \<le> j" using that div_le_dividend [of j 64] by (simp add: words_from_def)
        then show ?thesis using 2 "1.prems" by simp
      qed
      then show ?thesis by (meson Int_iff disjoint_iff leD lessThan_iff)
    qed
    ultimately show ?thesis using 2 by (simp add: least_from_def)
  next
    case 3
    then have "first_clear_loop ws w x limit =
        first_clear_loop ws (w + 1) (NOT (word_or_zero ws (w + 1))) limit"
      by (subst first_clear_loop.simps) (simp add: checked_add_def)
    also have "\<dots> = least_from ((word_bits (w + 1) (NOT (word_or_zero ws (w + 1)))
        \<union> - bits \<lparr>bm_words = ws\<rparr> \<inter> words_from (Suc (w + 1))) \<inter> {..<limit}) 0"
      using "1.IH" [of "w + 1"] "1.prems" 3 by (simp only: checked_add_Some_iff simp_thms)
    also have "\<dots> = least_from ((- bits \<lparr>bm_words = ws\<rparr> \<inter> words_from (w + 1)) \<inter> {..<limit}) 0"
      by (simp only: clear_from_word [of ws "w + 1"])
    finally show ?thesis using 3 by simp
  qed
qed

lemma first_clear_from_least:
  assumes "limit \<le> usize_max"
  shows "first_clear_from b start limit = least_from ({..<limit} - bits b) start"
proof (cases "limit \<le> start")
  case True
  then have "\<forall>j \<in> {..<limit} - bits b. j < start" by auto
  with True show ?thesis
    by (simp add: first_clear_from_def least_from_eq_None [THEN iffD2])
next
  case False
  let ?w = "start div 64"
  have "first_clear_from b start limit =
      least_from (((word_bits ?w (NOT (word_or_zero (bm_words b) ?w)) \<inter> {start..})
        \<union> - bits b \<inter> words_from (Suc ?w)) \<inter> {..<limit}) 0"
    using False assms
    by (simp add: first_clear_from_def Let_def first_clear_loop_least word_bits_masked)
  also have "(word_bits ?w (NOT (word_or_zero (bm_words b) ?w)) \<inter> {start..})
        \<union> - bits b \<inter> words_from (Suc ?w) = (- bits b \<inter> words_from ?w) \<inter> {start..}"
    using next_word_Int [of "- bits b" start]
    by (simp only: clear_from_word [of "bm_words b" ?w, unfolded bits_bm_words] Int_Un_distrib2)
  also have "(- bits b \<inter> words_from ?w) \<inter> {start..} \<inter> {..<limit} = ({..<limit} - bits b) \<inter> {start..}"
    by (auto dest: ge_words_from)
  finally show ?thesis by (simp add: least_from_Int)
qed

subsection \<open>The bit-set interface\<close>

text \<open>
  What the clients of the bitmap (the pool's free map, the timer wheel's slot hints) rely on:
  the operations they call and their effect on the set of indices.
\<close>

locale bitset =
  fixes empty_op :: 'b
    and set_op :: "'b \<Rightarrow> nat \<Rightarrow> bool \<times> 'b"
    and clear_op :: "'b \<Rightarrow> nat \<Rightarrow> bool \<times> 'b"
    and is_set_op :: "'b \<Rightarrow> nat \<Rightarrow> bool"
    and scan_clear :: "'b \<Rightarrow> nat \<Rightarrow> nat \<Rightarrow> nat option"
    and idx :: "'b \<Rightarrow> nat set"
  assumes idx_empty [simp]: "idx empty_op = {}"
    and is_set [simp]: "is_set_op b i \<longleftrightarrow> i \<in> idx b"
    and idx_set [simp]: "idx (snd (set_op b i)) = insert i (idx b)"
    and set_fresh [simp]: "fst (set_op b i) \<longleftrightarrow> i \<notin> idx b"
    and idx_clear [simp]: "idx (snd (clear_op b i)) = idx b - {i}"
    and clear_hit [simp]: "fst (clear_op b i) \<longleftrightarrow> i \<in> idx b"
    and scan: "limit \<le> usize_max \<Longrightarrow> scan_clear b s limit = least_from ({..<limit} - idx b) s"
begin

lemma idx_set_all: "idx (foldl (\<lambda>b i. snd (set_op b i)) b is) = idx b \<union> set is"
  by (induction "is" arbitrary: b) auto

lemma clear_undoes_set: "i \<notin> idx b \<Longrightarrow> idx (snd (clear_op (snd (set_op b i)) i)) = idx b"
  by simp

lemma scan_next:
  "limit \<le> usize_max \<Longrightarrow> x < limit \<Longrightarrow>
    (case checked_add x 1 of None \<Rightarrow> None | Some s \<Rightarrow> scan_clear b s limit)
      = least_from ({..<limit} - idx b) (Suc x)"
  by (simp add: checked_add_def scan)

end

lemma is_set_in_bits: "bitmap_is_set b i \<longleftrightarrow> i \<in> bits b"
  by (simp add: bits_def)

interpretation bm: bitset bitmap_new bitmap_set bitmap_clear bitmap_is_set first_clear_from bits
  by unfold_locales
    (simp_all add: bits_set fst_set bits_clear fst_clear first_clear_from_least is_set_in_bits)

lemmas bitmap_ops = bits_set fst_set bits_clear fst_clear

lemma next_clear_after_least:
  "limit \<le> usize_max \<Longrightarrow> x < limit \<Longrightarrow> next_clear_after b x limit = least_from ({..<limit} - bits b) (Suc x)"
  using bm.scan_next [of limit x b] by (simp only: next_clear_after_def)

lemma bitmap_wf_new [inv_intros]: "bitmap_wf bitmap_new"
  by (simp add: bitmap_wf_def bitmap_new_def)

lemma word_index_usize: "i \<le> usize_max \<Longrightarrow> 64 * (i div 64 + 1) \<le> Suc usize_max"
proof -
  assume "i \<le> usize_max"
  then have "i div 64 \<le> usize_max div 64" by (rule div_le_mono)
  also have "usize_max div 64 = 2 ^ 58 - 1" by (simp add: usize_max_def)
  finally show ?thesis by (simp add: usize_max_def)
qed

lemma bitmap_wf_with_capacity [inv_intros]:
  "n \<le> usize_max \<Longrightarrow> bitmap_wf (bitmap_with_capacity n)"
  using word_index_usize [of n]
  by (simp add: bitmap_wf_def bitmap_with_capacity_def words_for_def div_ceil_def)

lemma bitmap_wf_set [inv_intros]:
  "bitmap_wf b \<Longrightarrow> i \<le> usize_max \<Longrightarrow> bitmap_wf (snd (bitmap_set b i))"
  using word_index_usize [of i]
  by (simp add: bitmap_wf_def bitmap_set_def Let_def length_ensure_bit max_def)

lemma bitmap_wf_clear [inv_intros]: "bitmap_wf b \<Longrightarrow> bitmap_wf (snd (bitmap_clear b i))"
  by (simp add: bitmap_wf_def bitmap_clear_def Let_def)

lemma bitmap_wf_clear_all [inv_intros]: "bitmap_wf b \<Longrightarrow> bitmap_wf (bitmap_clear_all b)"
  by (simp add: bitmap_wf_def bitmap_clear_all_def)

lemma bits_below_usize: "bitmap_wf b \<Longrightarrow> i \<in> bits b \<Longrightarrow> i \<le> usize_max"
proof -
  assume "bitmap_wf b" "i \<in> bits b"
  then have "i div 64 < length (bm_words b)" "64 * length (bm_words b) \<le> Suc usize_max"
    by (auto simp: in_bits_iff bitmap_wf_def)
  then show ?thesis by (simp add: div_less_iff_less_mult)
qed

lemma next_set_least: "bitmap_wf b \<Longrightarrow> x \<in> bits b \<Longrightarrow> next_set b x = least_from (bits b) (Suc x)"
proof (cases "x < usize_max")
  case False
  assume b: "bitmap_wf b" "x \<in> bits b"
  then have "\<forall>j \<in> bits b. j < Suc x" using False bits_below_usize by fastforce
  then have "least_from (bits b) (Suc x) = None" by (simp add: least_from_eq_None)
  moreover have "checked_add x 1 = None" using False by simp
  ultimately show ?thesis by (simp add: next_set_def del: checked_add_None_iff)
qed (simp add: next_set_def checked_add_def next_set_from_least)

text \<open>
  C19. Draining the iterator \<open>iter_set\<close> of a bitmap ends, and yields exactly the indices whose
  bit is set, each once and in increasing order.
\<close>

theorem iter_set_enumerates:
  assumes "bitmap_wf b"
  shows "iter_collect set_bits_next (iter_set b) = Some (sorted_list_of_set (bits b))"
proof -
  have "iter_collect set_bits_next (iter_set b) =
      Some (map (\<lambda>x. x) (sorted_list_of_set (bits b \<inter> {0..})))"
  proof (rule iter_collect_least_from
      [where P = "\<lambda>it. sb_bitmap it = b" and cur = sb_next])
    fix it :: set_bits and n x
    assume it: "sb_bitmap it = b" "sb_next it = least_from (bits b) n" "sb_next it = Some x"
    then have "least_from (bits b) n = Some x" by simp
    then have "x \<in> bits b" unfolding least_from_eq_Some by blast
    with it(1,3) show "\<exists>it'. set_bits_next it = (Some x, it') \<and> sb_bitmap it' = b
        \<and> sb_next it' = least_from (bits b) (Suc x)"
      using assms by (auto simp: set_bits_next_def next_set_least)
  qed (simp_all add: set_bits_next_def iter_set_def first_set_def next_set_from_least)
  then show ?thesis by (simp add: atLeast_0)
qed

theorem iter_set_enumerates_witness:
  "bitmap_wf (snd (bitmap_set (snd (bitmap_set bitmap_new 70)) 3)) \<and>
   iter_collect set_bits_next (iter_set (snd (bitmap_set (snd (bitmap_set bitmap_new 70)) 3))) = Some [3, 70]"
proof -
  let ?b = "snd (bitmap_set (snd (bitmap_set bitmap_new 70)) 3)"
  have wf: "bitmap_wf ?b"
    by (intro inv_intros) (simp_all add: usize_max_def)
  have "bits ?b = {3, 70}" by (simp add: bits_set)
  moreover have "sorted_list_of_set {3, 70 :: nat} = [3, 70]" by simp
  ultimately show ?thesis using wf iter_set_enumerates [OF wf] by simp
qed

end
