(* ===== verification/Pool.thy ===== *)
theory Pool
  imports Bitmap
begin

text \<open>
  The index-addressed pool of \<open>crates/hammer-infra/src/pool.rs\<close>: slots of
  \<open>MaybeUninit\<close> values, a bitmap of free slots and a stack of free indices. Slots are
  \<open>None\<close> while uninitialised, so reading a slot that holds no value (undefined behaviour
  in the source) is the fault \<open>UninitRead\<close>, an index out of the vector is
  \<open>OutOfBounds\<close> and the panic of a full fixed pool is \<open>PoolExhausted\<close>. The
  lemmas show that a pool implements a finite map from indices to values and that no fault is
  reachable from a pool that satisfies the invariant. Allocation capacity
  (\<open>Vec::capacity\<close>) is not modelled.
\<close>

datatype pool_fault = PoolExhausted | UninitRead | OutOfBounds

record 'a pool =
  pl_vector :: "'a option list"
  pl_free_bitmap :: bitmap
  pl_free_indices :: "u32 list"
  pl_max_elts :: "u32 option"
  pl_opaque :: u32

definition pool_new :: "'a pool" where
  "pool_new = \<lparr>pl_vector = [], pl_free_bitmap = bitmap_new, pl_free_indices = [],
               pl_max_elts = None, pl_opaque = 0\<rparr>"

definition pool_with_capacity :: "usize \<Rightarrow> 'a pool" where
  "pool_with_capacity capacity =
     \<lparr>pl_vector = [], pl_free_bitmap = bitmap_with_capacity capacity, pl_free_indices = [],
      pl_max_elts = None, pl_opaque = 0\<rparr>"

definition pool_with_fixed_capacity :: "u32 \<Rightarrow> 'a pool" where
  "pool_with_fixed_capacity max_elts =
     (let capacity = unat max_elts in
      \<lparr>pl_vector = replicate capacity None,
       pl_free_bitmap =
         foldl (\<lambda>b position. snd (bitmap_set b position)) (bitmap_with_capacity capacity) [0..<capacity],
       pl_free_indices = map of_nat (rev [0..<capacity]),
       pl_max_elts = Some max_elts, pl_opaque = 0\<rparr>)"

definition pool_len :: "'a pool \<Rightarrow> usize" where
  "pool_len p = length (pl_vector p) - length (pl_free_indices p)"

definition pool_is_empty :: "'a pool \<Rightarrow> bool" where
  "pool_is_empty p \<longleftrightarrow> pool_len p = 0"

definition pool_contains_key :: "'a pool \<Rightarrow> u32 \<Rightarrow> bool" where
  "pool_contains_key p index =
     (let position = unat index in
      position < length (pl_vector p) \<and> \<not> bitmap_is_set (pl_free_bitmap p) position)"

text \<open>\<open>self.vector[index as usize].write(value)\<close>\<close>

definition pool_write :: "'a pool \<Rightarrow> u32 \<Rightarrow> 'a \<Rightarrow> pool_fault + (u32 \<times> 'a pool)" where
  "pool_write p index value =
     (if unat index < length (pl_vector p)
      then Inr (index, p\<lparr>pl_vector := (pl_vector p)[unat index := Some value]\<rparr>)
      else Inl OutOfBounds)"

definition pool_insert :: "'a pool \<Rightarrow> 'a \<Rightarrow> pool_fault + (u32 \<times> 'a pool)" where
  "pool_insert p value =
     (if pl_free_indices p = [] then
        case pl_max_elts p of
          Some max_elts \<Rightarrow> Inl PoolExhausted
        | None \<Rightarrow>
            let index = (of_nat (length (pl_vector p)) :: u32)
            in pool_write
                 (p\<lparr>pl_vector := pl_vector p @ [None],
                    pl_free_bitmap := snd (bitmap_clear (pl_free_bitmap p) (unat index))\<rparr>)
                 index value
      else
        let index = last (pl_free_indices p)
        in pool_write
             (p\<lparr>pl_free_indices := butlast (pl_free_indices p),
                pl_free_bitmap := snd (bitmap_clear (pl_free_bitmap p) (unat index))\<rparr>)
             index value)"

text \<open>\<open>get\<close> and \<open>get_mut\<close>: the second is the update of the value in place.\<close>

definition pool_get :: "'a pool \<Rightarrow> u32 \<Rightarrow> pool_fault + 'a option" where
  "pool_get p index =
     (if pool_contains_key p index
      then case pl_vector p ! unat index of
             None \<Rightarrow> Inl UninitRead
           | Some value \<Rightarrow> Inr (Some value)
      else Inr None)"

definition pool_get_mut :: "'a pool \<Rightarrow> u32 \<Rightarrow> ('a \<Rightarrow> 'a) \<Rightarrow> pool_fault + 'a pool" where
  "pool_get_mut p index f =
     (if pool_contains_key p index
      then case pl_vector p ! unat index of
             None \<Rightarrow> Inl UninitRead
           | Some value \<Rightarrow> Inr (p\<lparr>pl_vector := (pl_vector p)[unat index := Some (f value)]\<rparr>)
      else Inr p)"

definition release_index :: "'a pool \<Rightarrow> u32 \<Rightarrow> usize \<Rightarrow> 'a pool" where
  "release_index p index position =
     p\<lparr>pl_free_bitmap := snd (bitmap_set (pl_free_bitmap p) position),
       pl_free_indices := pl_free_indices p @ [index]\<rparr>"

definition pool_remove :: "'a pool \<Rightarrow> u32 \<Rightarrow> pool_fault + ('a option \<times> 'a pool)" where
  "pool_remove p index =
     (let position = unat index in
      if \<not> pool_contains_key p index then Inr (None, p)
      else case pl_vector p ! position of
             None \<Rightarrow> Inl UninitRead
           | Some value \<Rightarrow>
               Inr (Some value,
                    release_index (p\<lparr>pl_vector := (pl_vector p)[position := None]\<rparr>) index position))"

definition pool_put_index :: "'a pool \<Rightarrow> u32 \<Rightarrow> pool_fault + 'a pool" where
  "pool_put_index p index =
     (let position = unat index in
      if length (pl_vector p) \<le> position then Inl OutOfBounds
      else case pl_vector p ! position of
             None \<Rightarrow> Inl UninitRead
           | Some value \<Rightarrow>
               Inr (release_index (p\<lparr>pl_vector := (pl_vector p)[position := None]\<rparr>) index position))"

fun pool_clear_loop :: "'a pool \<Rightarrow> usize list \<Rightarrow> pool_fault + 'a pool" where
  "pool_clear_loop p [] = Inr p"
| "pool_clear_loop p (position # rest) =
     (let index = (of_nat position :: u32) in
      if pool_contains_key p index
      then case pool_remove p index of
             Inl e \<Rightarrow> Inl e
           | Inr (_, p') \<Rightarrow> pool_clear_loop p' rest
      else pool_clear_loop p rest)"

definition pool_clear :: "'a pool \<Rightarrow> pool_fault + 'a pool" where
  "pool_clear p =
     (case pool_clear_loop p [0..<length (pl_vector p)] of
        Inl e \<Rightarrow> Inl e
      | Inr p \<Rightarrow>
          let p = p\<lparr>pl_opaque := 0\<rparr> in
          case pl_max_elts p of
            Some max_elts \<Rightarrow> Inr (p\<lparr>pl_free_indices := map of_nat (rev [0..<unat max_elts])\<rparr>)
          | None \<Rightarrow>
              Inr (p\<lparr>pl_vector := [], pl_free_bitmap := bitmap_clear_all (pl_free_bitmap p),
                     pl_free_indices := []\<rparr>))"

definition pool_set_opaque :: "'a pool \<Rightarrow> u32 \<Rightarrow> 'a pool" where
  "pool_set_opaque p opaque = p\<lparr>pl_opaque := opaque\<rparr>"

definition pool_first_index :: "'a pool \<Rightarrow> u32 option" where
  "pool_first_index p =
     map_option of_nat (first_clear_from (pl_free_bitmap p) 0 (length (pl_vector p)))"

definition pool_next_index :: "'a pool \<Rightarrow> u32 \<Rightarrow> u32 option" where
  "pool_next_index p index =
     map_option of_nat (next_clear_after (pl_free_bitmap p) (unat index) (length (pl_vector p)))"

record 'a pool_iter =
  pi_pool :: "'a pool"
  pi_next_index :: "u32 option"

definition pool_iter :: "'a pool \<Rightarrow> 'a pool_iter" where
  "pool_iter p = \<lparr>pi_pool = p, pi_next_index = pool_first_index p\<rparr>"

text \<open>One step of \<open>PoolIter\<close>. The \<open>?\<close> on \<open>get\<close> ends the iteration; a fault of
  \<open>get\<close> ends it here too, and the invariant excludes it.\<close>

definition pool_iter_next :: "'a pool_iter \<Rightarrow> (u32 \<times> 'a) option \<times> 'a pool_iter" where
  "pool_iter_next it =
     (case pi_next_index it of
        None \<Rightarrow> (None, it)
      | Some index \<Rightarrow>
          let it' = it\<lparr>pi_next_index := pool_next_index (pi_pool it) index\<rparr> in
          (case pool_get (pi_pool it) index of
             Inr (Some value) \<Rightarrow> (Some (index, value), it')
           | _ \<Rightarrow> (None, it')))"

fun pool_clone_slots :: "bitmap \<Rightarrow> usize \<Rightarrow> 'a option list \<Rightarrow> pool_fault + 'a option list" where
  "pool_clone_slots fb position [] = Inr []"
| "pool_clone_slots fb position (slot # slots) =
     (if bitmap_is_set fb position
      then map_sum id ((#) None) (pool_clone_slots fb (Suc position) slots)
      else case slot of
             None \<Rightarrow> Inl UninitRead
           | Some value \<Rightarrow> map_sum id ((#) (Some value)) (pool_clone_slots fb (Suc position) slots))"

definition pool_clone :: "'a pool \<Rightarrow> pool_fault + 'a pool" where
  "pool_clone p =
     map_sum id (\<lambda>vector. p\<lparr>pl_vector := vector\<rparr>)
       (pool_clone_slots (pl_free_bitmap p) 0 (pl_vector p))"

text \<open>\<open>Drop\<close>: the values dropped, in slot order.\<close>

fun pool_drop_slots :: "bitmap \<Rightarrow> usize \<Rightarrow> 'a option list \<Rightarrow> pool_fault + 'a list" where
  "pool_drop_slots fb position [] = Inr []"
| "pool_drop_slots fb position (slot # slots) =
     (if bitmap_is_set fb position then pool_drop_slots fb (Suc position) slots
      else case slot of
             None \<Rightarrow> Inl UninitRead
           | Some value \<Rightarrow> map_sum id ((#) value) (pool_drop_slots fb (Suc position) slots))"

definition pool_drop :: "'a pool \<Rightarrow> pool_fault + 'a list" where
  "pool_drop p = pool_drop_slots (pl_free_bitmap p) 0 (pl_vector p)"

text \<open>The abstraction, a finite map, and the invariant.\<close>

definition pool_map :: "'a pool \<Rightarrow> u32 \<Rightarrow> 'a option" where
  "pool_map p index =
     (if unat index < length (pl_vector p) then pl_vector p ! unat index else None)"

definition pool_inv :: "'a pool \<Rightarrow> bool" where
  "pool_inv p \<longleftrightarrow>
     length (pl_vector p) \<le> 2 ^ 32 \<and>
     distinct (pl_free_indices p) \<and>
     bits (pl_free_bitmap p) = unat ` set (pl_free_indices p) \<and>
     (\<forall>index \<in> set (pl_free_indices p). unat index < length (pl_vector p)) \<and>
     (\<forall>position < length (pl_vector p).
        pl_vector p ! position = None \<longleftrightarrow> position \<in> bits (pl_free_bitmap p)) \<and>
     (\<forall>max_elts. pl_max_elts p = Some max_elts \<longrightarrow> length (pl_vector p) = unat max_elts)"

text \<open>A pool has room when an index is free or the vector may grow within 32-bit indices.\<close>

definition pool_has_room :: "'a pool \<Rightarrow> bool" where
  "pool_has_room p \<longleftrightarrow>
     pl_free_indices p \<noteq> [] \<or> (pl_max_elts p = None \<and> length (pl_vector p) < 2 ^ 32)"

subsection \<open>The pool as a finite map\<close>

lemma pool_contains_key_dom: "pool_inv p \<Longrightarrow> pool_contains_key p i \<longleftrightarrow> i \<in> dom (pool_map p)"
  by (cases "unat i < length (pl_vector p)")
     (simp_all add: pool_inv_def pool_contains_key_def pool_map_def domIff Let_def)

lemma pool_get_map: "pool_inv p \<Longrightarrow> pool_get p i = Inr (pool_map p i)"
  by (auto simp: pool_get_def pool_contains_key_dom domIff split: option.splits)
     (auto simp: pool_map_def split: if_splits)

lemma pool_inv_new [inv_intros]: "pool_inv pool_new"
  by (simp add: pool_inv_def pool_new_def)

lemma pool_inv_with_capacity [inv_intros]: "pool_inv (pool_with_capacity n)"
  by (simp add: pool_inv_def pool_with_capacity_def)

lemma unat_image_upto: "unat ` (of_nat :: nat \<Rightarrow> u32) ` {..<unat m} = {..<unat (m :: u32)}"
proof -
  have "unat (of_nat i :: u32) = i" if "i < unat m" for i
    using that unat_u32_less [of m] by (intro unat_of_nat_u32) simp
  then show ?thesis by (force simp: image_iff)
qed

lemma distinct_free_list: "distinct (map (of_nat :: nat \<Rightarrow> u32) (rev [0..<unat (m :: u32)]))"
proof -
  have "inj_on (of_nat :: nat \<Rightarrow> u32) {..<unat m}"
    using unat_u32_less [of m] by (intro inj_on_inverseI [where g = unat] unat_of_nat_u32) simp
  then show ?thesis by (simp add: distinct_map atLeast0LessThan)
qed

lemma pool_inv_with_fixed_capacity [inv_intros]: "pool_inv (pool_with_fixed_capacity m)"
proof -
  have "unat m < 2 ^ 32" using unat_u32_less [of m] by simp
  moreover have "unat (of_nat i :: u32) < unat m" if "i < unat m" for i
    using that calculation by (simp add: unat_of_nat_u32)
  ultimately show ?thesis
    using unat_image_upto [of m] distinct_free_list [of m]
    by (auto simp: pool_inv_def pool_with_fixed_capacity_def Let_def bm.idx_set_all
        atLeast0LessThan image_image)
qed

lemma pool_map_new [simp]: "pool_map pool_new = Map.empty"
  by (auto simp: pool_map_def pool_new_def)

lemma pool_map_with_capacity [simp]: "pool_map (pool_with_capacity n) = Map.empty"
  by (auto simp: pool_map_def pool_with_capacity_def)

lemma pool_map_with_fixed_capacity [simp]: "pool_map (pool_with_fixed_capacity m) = Map.empty"
  by (auto simp: pool_map_def pool_with_fixed_capacity_def Let_def)

lemma pool_map_update [simp]:
  "pool_map (pl_free_bitmap_update f p) = pool_map p"
  "pool_map (pl_free_indices_update g p) = pool_map p"
  "pool_map (pl_opaque_update h p) = pool_map p"
  by (simp_all add: pool_map_def fun_eq_iff)

lemma pool_map_write:
  "unat i < length (pl_vector p) \<Longrightarrow>
     pool_map (p\<lparr>pl_vector := (pl_vector p)[unat i := x]\<rparr>) = (pool_map p)(i := x)"
  by (auto simp: pool_map_def nth_list_update fun_eq_iff)

lemma pool_insert_reuse:
  assumes inv: "pool_inv p" and free: "pl_free_indices p \<noteq> []"
  defines "i \<equiv> last (pl_free_indices p)"
  shows "\<exists>p'. pool_insert p v = Inr (i, p') \<and> pool_inv p' \<and> i \<notin> dom (pool_map p)
           \<and> pool_map p' = (pool_map p)(i \<mapsto> v) \<and> pl_max_elts p' = pl_max_elts p"
proof -
  let ?q = "p\<lparr>pl_free_indices := butlast (pl_free_indices p),
             pl_free_bitmap := snd (bitmap_clear (pl_free_bitmap p) (unat i))\<rparr>"
  let ?p = "?q\<lparr>pl_vector := (pl_vector p)[unat i := Some v]\<rparr>"
  have i: "i \<in> set (pl_free_indices p)" using free by (simp add: i_def)
  with inv have ilt: "unat i < length (pl_vector p)" by (simp add: pool_inv_def)
  have ins: "pool_insert p v = Inr (i, ?p)"
    using free ilt by (simp add: pool_insert_def pool_write_def i_def Let_def)
  have "i \<notin> dom (pool_map p)"
    using inv i ilt by (auto simp: pool_inv_def pool_map_def)
  moreover have "pool_map ?p = (pool_map p)(i \<mapsto> v)"
    using pool_map_write [of i ?q "Some v"] ilt by simp
  moreover have "set (butlast (pl_free_indices p)) = set (pl_free_indices p) - {i}"
    using inv free by (simp add: i_def set_butlast_distinct pool_inv_def)
  then have "pool_inv ?p"
    using inv ilt by (auto simp: pool_inv_def distinct_butlast nth_list_update)
  ultimately show ?thesis using ins by auto
qed

lemma pool_insert_grow:
  assumes inv: "pool_inv p" and free: "pl_free_indices p = []" "pl_max_elts p = None"
    and room: "length (pl_vector p) < 2 ^ 32"
  defines "i \<equiv> (of_nat (length (pl_vector p)) :: u32)"
  shows "\<exists>p'. pool_insert p v = Inr (i, p') \<and> pool_inv p' \<and> i \<notin> dom (pool_map p)
           \<and> pool_map p' = (pool_map p)(i \<mapsto> v) \<and> pl_max_elts p' = pl_max_elts p"
proof -
  have i: "unat i = length (pl_vector p)" using room by (simp add: i_def unat_of_nat_u32)
  let ?p = "p\<lparr>pl_vector := pl_vector p @ [Some v],
             pl_free_bitmap := snd (bitmap_clear (pl_free_bitmap p) (unat i))\<rparr>"
  have ins: "pool_insert p v = Inr (i, ?p)"
    using free i by (simp add: pool_insert_def pool_write_def i_def [symmetric] Let_def)
  have "i \<notin> dom (pool_map p)" using i by (simp add: pool_map_def domIff)
  moreover have "pool_map ?p = (pool_map p)(i \<mapsto> v)"
  proof
    fix j
    show "pool_map ?p j = ((pool_map p)(i \<mapsto> v)) j"
      using i by (cases "j = i") (auto simp: pool_map_def nth_append less_Suc_eq simp flip: i)
  qed
  moreover have "pool_inv ?p"
    using inv free room by (auto simp: pool_inv_def nth_append less_Suc_eq)
  ultimately show ?thesis using ins by auto
qed

lemma pool_insert_ok:
  assumes "pool_inv p" "pool_has_room p"
  obtains i p' where "pool_insert p v = Inr (i, p')" "pool_inv p'" "i \<notin> dom (pool_map p)"
    "pool_map p' = (pool_map p)(i \<mapsto> v)" "pl_max_elts p' = pl_max_elts p"
proof (cases "pl_free_indices p = []")
  case True
  then show ?thesis
    using assms pool_insert_grow [of p v] that unfolding pool_has_room_def by metis
next
  case False
  then show ?thesis
    using assms pool_insert_reuse [of p v] that by metis
qed

lemma pool_insert_exhausted:
  "pl_free_indices p = [] \<Longrightarrow> pl_max_elts p = Some m \<Longrightarrow> pool_insert p v = Inl PoolExhausted"
  by (simp add: pool_insert_def)

lemma release_ok:
  assumes inv: "pool_inv p" and i: "i \<in> dom (pool_map p)"
  defines "p' \<equiv> release_index (p\<lparr>pl_vector := (pl_vector p)[unat i := None]\<rparr>) i (unat i)"
  shows "pool_inv p'" "pool_map p' = (pool_map p)(i := None)"
    "pl_free_indices p' = pl_free_indices p @ [i]" "pl_max_elts p' = pl_max_elts p"
    "pl_opaque p' = pl_opaque p" "length (pl_vector p') = length (pl_vector p)"
proof -
  from i have ilt: "unat i < length (pl_vector p)" "pl_vector p ! unat i \<noteq> None"
    by (auto simp: pool_map_def split: if_splits)
  with inv have "i \<notin> set (pl_free_indices p)" by (auto simp: pool_inv_def)
  with inv ilt show "pool_inv p'"
    by (auto simp: pool_inv_def p'_def release_index_def nth_list_update)
  show "pool_map p' = (pool_map p)(i := None)"
    using pool_map_write [of i p None] ilt(1) by (simp add: p'_def release_index_def)
qed (simp_all add: p'_def release_index_def)

lemma pool_remove_ok:
  assumes "pool_inv p"
  obtains p' where "pool_remove p i = Inr (pool_map p i, p')" "pool_inv p'"
    "pool_map p' = (pool_map p)(i := None)" "pl_max_elts p' = pl_max_elts p"
    "length (pl_vector p') = length (pl_vector p)"
proof (cases "i \<in> dom (pool_map p)")
  case True
  let ?p = "release_index (p\<lparr>pl_vector := (pl_vector p)[unat i := None]\<rparr>) i (unat i)"
  from True obtain v where v: "pool_map p i = Some v" by blast
  then have "pl_vector p ! unat i = Some v" by (auto simp: pool_map_def split: if_splits)
  with v have "pool_remove p i = Inr (pool_map p i, ?p)"
    using assms True by (simp add: pool_remove_def pool_contains_key_dom Let_def)
  with release_ok [OF assms True] that show ?thesis by blast
next
  case False
  then have "pool_remove p i = Inr (pool_map p i, p)"
    using assms by (simp add: pool_remove_def pool_contains_key_dom domIff)
  moreover have "(pool_map p)(i := None) = pool_map p" using False by (auto simp: domIff)
  ultimately show ?thesis using that [of p] assms by simp
qed

lemma pool_put_index_ok:
  assumes "pool_inv p" "i \<in> dom (pool_map p)"
  obtains p' where "pool_put_index p i = Inr p'" "pool_inv p'" "pool_map p' = (pool_map p)(i := None)"
proof -
  from assms(2) obtain v where "pl_vector p ! unat i = Some v" "unat i < length (pl_vector p)"
    by (auto simp: pool_map_def split: if_splits)
  then show ?thesis
    using that release_ok [OF assms] by (simp add: pool_put_index_def Let_def)
qed

lemma pool_get_mut_ok:
  assumes "pool_inv p"
  obtains p' where "pool_get_mut p i f = Inr p'" "pool_inv p'"
    "pool_map p' = (pool_map p)(i := map_option f (pool_map p i))"
    "pl_free_indices p' = pl_free_indices p" "pl_max_elts p' = pl_max_elts p"
    "length (pl_vector p') = length (pl_vector p)"
proof (cases "i \<in> dom (pool_map p)")
  case True
  then obtain v where v: "pool_map p i = Some v" by blast
  then have vv: "pl_vector p ! unat i = Some v" "unat i < length (pl_vector p)"
    by (auto simp: pool_map_def split: if_splits)
  let ?p = "p\<lparr>pl_vector := (pl_vector p)[unat i := Some (f v)]\<rparr>"
  have "pool_get_mut p i f = Inr ?p"
    using assms True vv by (simp add: pool_get_mut_def pool_contains_key_dom)
  moreover have "pool_map ?p = (pool_map p)(i := map_option f (pool_map p i))"
    using vv(2) v by (simp add: pool_map_write)
  moreover have "pool_inv ?p" using assms vv by (auto simp: pool_inv_def nth_list_update)
  ultimately show ?thesis using that [of ?p] by simp
next
  case False
  then have "pool_get_mut p i f = Inr p"
    using assms by (simp add: pool_get_mut_def pool_contains_key_dom)
  moreover have "(pool_map p)(i := map_option f (pool_map p i)) = pool_map p"
    using False by (auto simp: domIff)
  ultimately show ?thesis using that [of p] assms by simp
qed

subsection \<open>Clearing, cloning, dropping and iterating\<close>

lemma pool_inv_slot:
  "pool_inv p \<Longrightarrow> x < length (pl_vector p) \<Longrightarrow> pl_vector p ! x = None \<longleftrightarrow> x \<in> bits (pl_free_bitmap p)"
  by (simp only: pool_inv_def)

lemma pool_remove_live:
  "pool_inv p \<Longrightarrow> pool_map p i = Some v \<Longrightarrow>
     pool_remove p i =
       Inr (Some v, release_index (p\<lparr>pl_vector := (pl_vector p)[unat i := None]\<rparr>) i (unat i))"
  using pool_contains_key_dom [of p i]
  by (auto simp: pool_remove_def pool_map_def Let_def split: if_splits)

lemma pool_free_complement:
  "pool_inv p \<Longrightarrow> {..<length (pl_vector p)} - bits (pl_free_bitmap p) = unat ` dom (pool_map p)"
proof -
  assume inv: "pool_inv p"
  have "x \<in> {..<length (pl_vector p)} - bits (pl_free_bitmap p) \<longleftrightarrow> x \<in> unat ` dom (pool_map p)" for x
  proof (cases "x < length (pl_vector p)")
    case True
    then have "unat (of_nat x :: u32) = x"
      using inv by (intro unat_of_nat_u32) (simp add: pool_inv_def)
    then have "x \<in> unat ` dom (pool_map p) \<longleftrightarrow> (of_nat x :: u32) \<in> dom (pool_map p)"
      using unat_in_image_iff [of "of_nat x :: u32"] by simp
    also have "\<dots> \<longleftrightarrow> pl_vector p ! x \<noteq> None"
      using True \<open>unat (of_nat x :: u32) = x\<close> by (simp add: pool_map_def domIff)
    finally show ?thesis using True pool_inv_slot [OF inv True] by auto
  qed (auto simp: pool_map_def split: if_splits)
  then show ?thesis by blast
qed

lemma pool_len_card: "pool_inv p \<Longrightarrow> pool_len p = card (dom (pool_map p))"
proof -
  assume inv: "pool_inv p"
  then have "bits (pl_free_bitmap p) \<subseteq> {..<length (pl_vector p)}" by (auto simp: pool_inv_def)
  then have "card ({..<length (pl_vector p)} - bits (pl_free_bitmap p)) =
      length (pl_vector p) - card (bits (pl_free_bitmap p))"
    by (simp add: card_Diff_subset)
  moreover have "card (bits (pl_free_bitmap p)) = length (pl_free_indices p)"
    using inv by (simp add: pool_inv_def card_image inj_on_def distinct_card)
  ultimately show ?thesis
    by (simp add: pool_len_def pool_free_complement [OF inv] card_image inj_on_def)
qed

lemma pool_clear_loop_ok:
  assumes "pool_inv p"
  shows "\<exists>p'. pool_clear_loop p ps = Inr p' \<and> pool_inv p'
           \<and> pool_map p' = pool_map p |` (- of_nat ` set ps)
           \<and> pl_max_elts p' = pl_max_elts p \<and> length (pl_vector p') = length (pl_vector p)"
  using assms
proof (induction ps arbitrary: p)
  case Nil
  then show ?case by simp
next
  case (Cons x ps)
  let ?i = "of_nat x :: u32"
  show ?case
  proof (cases "pool_contains_key p ?i")
    case True
    obtain q where q: "pool_remove p ?i = Inr (pool_map p ?i, q)" "pool_inv q"
        "pool_map q = (pool_map p)(?i := None)" "pl_max_elts q = pl_max_elts p"
        "length (pl_vector q) = length (pl_vector p)"
      using pool_remove_ok [OF Cons.prems] by blast
    have "pool_map q |` (- of_nat ` set ps) = pool_map p |` (- of_nat ` set (x # ps))"
      by (auto simp: q(3) restrict_map_def fun_eq_iff)
    moreover obtain p' where "pool_clear_loop q ps = Inr p'" "pool_inv p'"
        "pool_map p' = pool_map q |` (- of_nat ` set ps)" "pl_max_elts p' = pl_max_elts q"
        "length (pl_vector p') = length (pl_vector q)"
      using Cons.IH [OF q(2)] by blast
    ultimately show ?thesis using q(1,4,5) True by (simp add: Let_def del: q(3))
  next
    case False
    then have "pool_map p ?i = None"
      using pool_contains_key_dom [OF Cons.prems] by (auto simp: domIff)
    then have "pool_map p |` (- of_nat ` set ps) = pool_map p |` (- of_nat ` set (x # ps))"
      by (auto simp: restrict_map_def fun_eq_iff)
    then show ?thesis using Cons.IH [OF Cons.prems] False by (simp add: Let_def)
  qed
qed

lemma pool_empty_bits:
  assumes "pool_inv p" "pool_map p = Map.empty"
  shows "bits (pl_free_bitmap p) = {..<length (pl_vector p)}"
    "\<And>x. x < length (pl_vector p) \<Longrightarrow> pl_vector p ! x = None"
proof -
  have "bits (pl_free_bitmap p) \<subseteq> {..<length (pl_vector p)}" using assms(1) by (auto simp: pool_inv_def)
  then show b: "bits (pl_free_bitmap p) = {..<length (pl_vector p)}"
    using pool_free_complement [OF assms(1)] assms(2) by auto
  show "pl_vector p ! x = None" if "x < length (pl_vector p)" for x
    using b that assms(1) by (simp add: pool_inv_def)
qed

lemma pool_clear_ok:
  assumes "pool_inv p"
  obtains p' where "pool_clear p = Inr p'" "pool_inv p'" "pool_map p' = Map.empty"
    "pl_opaque p' = 0" "pl_max_elts p' = pl_max_elts p"
    "pl_free_indices p' = (case pl_max_elts p of None \<Rightarrow> [] | Some m \<Rightarrow> map of_nat (rev [0..<unat m]))"
    "pl_max_elts p = None \<Longrightarrow> pl_vector p' = []"
proof -
  let ?n = "length (pl_vector p)"
  obtain q where q: "pool_clear_loop p [0..<?n] = Inr q" "pool_inv q"
      "pool_map q = pool_map p |` (- of_nat ` set [0..<?n])"
      "pl_max_elts q = pl_max_elts p" "length (pl_vector q) = ?n"
    using pool_clear_loop_ok [OF assms] by blast
  have "pool_map q i = None" for i
  proof (cases "unat i < ?n")
    case True
    then have "i \<in> of_nat ` set [0..<?n]" by (auto intro!: image_eqI [where x = "unat i"])
    then show ?thesis by (simp add: q(3))
  qed (simp add: q(5) pool_map_def)
  then have e: "pool_map q = Map.empty" by auto
  show ?thesis
  proof (cases "pl_max_elts p")
    case None
    let ?p = "q\<lparr>pl_opaque := 0, pl_vector := [], pl_free_bitmap := bitmap_clear_all (pl_free_bitmap q),
               pl_free_indices := []\<rparr>"
    have "pool_clear p = Inr ?p" using None q by (simp add: pool_clear_def)
    moreover have "pool_inv ?p" using None q by (simp add: pool_inv_def)
    moreover have "pool_map ?p = Map.empty" by (auto simp: pool_map_def)
    ultimately show ?thesis using that [of ?p] None q by simp
  next
    case (Some m)
    let ?p = "q\<lparr>pl_opaque := 0, pl_free_indices := map of_nat (rev [0..<unat m])\<rparr>"
    have m: "?n = unat m" using Some assms by (simp add: pool_inv_def)
    have "pool_clear p = Inr ?p" using Some q by (simp add: pool_clear_def)
    moreover have "pool_inv ?p"
    proof -
      have "\<forall>i \<in> set (map (of_nat :: nat \<Rightarrow> u32) (rev [0..<unat m])). unat i < unat m"
        using unat_u32_less [of m] by (auto simp: unat_of_nat_u32)
      moreover have "bits (pl_free_bitmap q) = unat ` set (map (of_nat :: nat \<Rightarrow> u32) (rev [0..<unat m]))"
        using pool_empty_bits(1) [OF q(2) e] unat_image_upto [of m] q(5) m by (simp add: atLeast0LessThan)
      moreover have "\<forall>x < unat m. pl_vector q ! x = None \<and> x \<in> bits (pl_free_bitmap q)"
        using pool_empty_bits [OF q(2) e] q(5) m by simp
      ultimately show ?thesis
        using q(4,5) m Some unat_u32_less [of m] distinct_free_list [of m]
        by (simp add: pool_inv_def del: set_map)
    qed
    moreover have "pool_map ?p = Map.empty" using e by simp
    ultimately show ?thesis using that [of ?p] Some q by simp
  qed
qed

lemma pool_clone_slots_id:
  "\<forall>k < length slots. slots ! k = None \<longleftrightarrow> n + k \<in> bits fb \<Longrightarrow> pool_clone_slots fb n slots = Inr slots"
proof (induction slots arbitrary: n)
  case (Cons slot slots)
  have "\<forall>k < length slots. slots ! k = None \<longleftrightarrow> Suc n + k \<in> bits fb"
    using Cons.prems by force
  then have "pool_clone_slots fb (Suc n) slots = Inr slots" by (rule Cons.IH)
  then show ?case using Cons.prems by (fastforce split: option.splits)
qed simp

lemma pool_drop_slots_live:
  "\<forall>k < length slots. slots ! k = None \<longleftrightarrow> n + k \<in> bits fb \<Longrightarrow>
     pool_drop_slots fb n slots = Inr (map the (filter (\<lambda>s. s \<noteq> None) slots))"
proof (induction slots arbitrary: n)
  case (Cons slot slots)
  have "\<forall>k < length slots. slots ! k = None \<longleftrightarrow> Suc n + k \<in> bits fb"
    using Cons.prems by force
  then have "pool_drop_slots fb (Suc n) slots = Inr (map the (filter (\<lambda>s. s \<noteq> None) slots))"
    by (rule Cons.IH)
  then show ?case using Cons.prems by (fastforce split: option.splits)
qed simp

lemma pool_clone_id: "pool_inv p \<Longrightarrow> pool_clone p = Inr p"
  by (simp add: pool_clone_def pool_clone_slots_id pool_inv_def)

lemma pool_drop_live:
  "pool_inv p \<Longrightarrow> pool_drop p = Inr (map the (filter (\<lambda>s. s \<noteq> None) (pl_vector p)))"
  by (simp add: pool_drop_def pool_drop_slots_live pool_inv_def)

lemma pool_scan:
  assumes "pool_inv p"
  shows "map_option unat (pool_first_index p) = least_from (unat ` dom (pool_map p)) 0"
    and "i \<in> dom (pool_map p) \<Longrightarrow>
           map_option unat (pool_next_index p i) = least_from (unat ` dom (pool_map p)) (Suc (unat i))"
proof -
  let ?n = "length (pl_vector p)"
  have n: "?n \<le> usize_max" "?n \<le> 2 ^ 32" using assms by (simp_all add: pool_inv_def usize_max_def)
  have u: "map_option unat (map_option (of_nat :: nat \<Rightarrow> u32) (least_from (unat ` dom (pool_map p)) k))
      = least_from (unat ` dom (pool_map p)) k" for k
  proof (cases "least_from (unat ` dom (pool_map p)) k")
    case (Some x)
    then have "x \<in> unat ` dom (pool_map p)" unfolding least_from_eq_Some by blast
    then obtain j :: u32 where "x = unat j" by blast
    then show ?thesis using Some by simp
  qed simp
  show "map_option unat (pool_first_index p) = least_from (unat ` dom (pool_map p)) 0"
    using u n by (simp add: pool_first_index_def bm.scan pool_free_complement [OF assms])
  assume i: "i \<in> dom (pool_map p)"
  then have "unat i < ?n" by (auto simp: pool_map_def split: if_splits)
  then show "map_option unat (pool_next_index p i) = least_from (unat ` dom (pool_map p)) (Suc (unat i))"
    using u n by (simp add: pool_next_index_def next_clear_after_least pool_free_complement [OF assms])
qed

subsection \<open>The pool interface\<close>

text \<open>
  What the clients of a pool rely on (the red-black tree, the out-of-order segment list, the
  session and connection tables): a finite map from 32-bit handles to values, handles that
  are fresh when issued, and no fault on any call.
\<close>

locale index_pool =
  fixes alpha :: "'p \<Rightarrow> u32 \<Rightarrow> 'a option"
    and inv :: "'p \<Rightarrow> bool"
    and room :: "'p \<Rightarrow> bool"
    and insert_op :: "'p \<Rightarrow> 'a \<Rightarrow> 'e + (u32 \<times> 'p)"
    and get_op :: "'p \<Rightarrow> u32 \<Rightarrow> 'e + 'a option"
    and get_mut_op :: "'p \<Rightarrow> u32 \<Rightarrow> ('a \<Rightarrow> 'a) \<Rightarrow> 'e + 'p"
    and remove_op :: "'p \<Rightarrow> u32 \<Rightarrow> 'e + ('a option \<times> 'p)"
  assumes get: "inv p \<Longrightarrow> get_op p i = Inr (alpha p i)"
    and insert: "inv p \<Longrightarrow> room p \<Longrightarrow>
          \<exists>i p'. insert_op p v = Inr (i, p') \<and> inv p' \<and> alpha p i = None \<and> alpha p' = (alpha p)(i \<mapsto> v)"
    and get_mut: "inv p \<Longrightarrow>
          \<exists>p'. get_mut_op p i f = Inr p' \<and> inv p' \<and> alpha p' = (alpha p)(i := map_option f (alpha p i))
             \<and> (room p' \<longleftrightarrow> room p)"
    and remove: "inv p \<Longrightarrow>
          \<exists>p'. remove_op p i = Inr (alpha p i, p') \<and> inv p' \<and> alpha p' = (alpha p)(i := None)
             \<and> (alpha p i \<noteq> None \<longrightarrow> room p')"
begin

lemma insert_get:
  assumes "inv p" "room p"
  shows "\<exists>i p'. insert_op p v = Inr (i, p') \<and> get_op p' i = Inr (Some v)
           \<and> (\<forall>j. alpha p j \<noteq> None \<longrightarrow> get_op p' j = get_op p j)"
proof -
  obtain i p' where "insert_op p v = Inr (i, p')" "inv p'" "alpha p i = None"
      "alpha p' = (alpha p)(i \<mapsto> v)"
    using insert [OF assms] by blast
  then show ?thesis using assms(1) by (auto simp: get)
qed

lemma insert_remove:
  assumes "inv p" "room p"
  shows "\<exists>i p' p''. insert_op p v = Inr (i, p') \<and> remove_op p' i = Inr (Some v, p'')
           \<and> inv p'' \<and> alpha p'' = alpha p \<and> room p''"
proof -
  obtain i p' where p': "insert_op p v = Inr (i, p')" "inv p'" "alpha p i = None"
      "alpha p' = (alpha p)(i \<mapsto> v)"
    using insert [OF assms] by blast
  obtain p'' where "remove_op p' i = Inr (alpha p' i, p'')" "inv p''"
      "alpha p'' = (alpha p')(i := None)" "alpha p' i \<noteq> None \<longrightarrow> room p''"
    using remove [OF p'(2)] by blast
  moreover have "(alpha p')(i := None) = alpha p" using p'(3,4) by auto
  ultimately show ?thesis using p' by auto
qed

end

interpretation pool: index_pool pool_map pool_inv pool_has_room pool_insert pool_get pool_get_mut pool_remove
proof
  fix p :: "'a pool" and i f v
  assume inv: "pool_inv p"
  show "pool_get p i = Inr (pool_map p i)" using inv by (rule pool_get_map)
  show "\<exists>p'. pool_get_mut p i f = Inr p' \<and> pool_inv p' \<and>
      pool_map p' = (pool_map p)(i := map_option f (pool_map p i)) \<and> (pool_has_room p' \<longleftrightarrow> pool_has_room p)"
    by (rule pool_get_mut_ok [OF inv, of i f]) (auto simp: pool_has_room_def)
  show "\<exists>p'. pool_remove p i = Inr (pool_map p i, p') \<and> pool_inv p' \<and> pool_map p' = (pool_map p)(i := None)
      \<and> (pool_map p i \<noteq> None \<longrightarrow> pool_has_room p')"
  proof (cases "pool_map p i")
    case None
    then show ?thesis by (metis pool_remove_ok [OF inv])
  next
    case (Some v)
    let ?p = "release_index (p\<lparr>pl_vector := (pl_vector p)[unat i := None]\<rparr>) i (unat i)"
    have d: "i \<in> dom (pool_map p)" using Some by blast
    have "pool_remove p i = Inr (Some v, ?p)" using inv Some by (rule pool_remove_live)
    then show ?thesis using release_ok [OF inv d] Some by (auto simp: pool_has_room_def)
  qed
  assume "pool_has_room p"
  then show "\<exists>i p'. pool_insert p v = Inr (i, p') \<and> pool_inv p' \<and> pool_map p i = None \<and> pool_map p' = (pool_map p)(i \<mapsto> v)"
    using pool_insert_ok [OF inv] by (metis domIff)
qed


subsection \<open>Properties\<close>



text \<open>
  C16. Removing an index from a pool never faults: it returns the value the index held (nothing
  when it was free), frees that index and no other, and the freed index is the one the next
  insertion reuses.
\<close>

theorem pool_remove_correct:
  assumes "pool_inv p"
  shows "\<exists>p'. pool_remove p i = Inr (pool_map p i, p') \<and> pool_inv p'
           \<and> pool_map p' = (pool_map p)(i := None)
           \<and> (pool_map p i \<noteq> None \<longrightarrow>
                (\<exists>p''. pool_insert p' v = Inr (i, p'') \<and> pool_map p'' = (pool_map p)(i \<mapsto> v)))"
proof (cases "pool_map p i")
  case None
  then show ?thesis using pool.remove [OF assms, of i] by blast
next
  case (Some w)
  let ?p = "release_index (p\<lparr>pl_vector := (pl_vector p)[unat i := None]\<rparr>) i (unat i)"
  have d: "i \<in> dom (pool_map p)" using Some by blast
  have rem: "pool_remove p i = Inr (Some w, ?p)" using assms Some by (rule pool_remove_live)
  have "\<exists>p''. pool_insert ?p v = Inr (i, p'') \<and> pool_map p'' = (pool_map p)(i \<mapsto> v)"
    using pool_insert_reuse [OF release_ok(1) [OF assms d], of v] release_ok(2,3) [OF assms d]
    by auto
  then show ?thesis using rem release_ok(1,2) [OF assms d] Some by auto
qed

theorem pool_remove_correct_witness:
  "pool_inv (pool_new :: nat pool) \<and> (\<exists>p'. pool_remove (pool_new :: nat pool) 3 = Inr (None, p'))"
proof -
  have inv: "pool_inv (pool_new :: nat pool)" by (rule inv_intros)
  show ?thesis using inv pool_remove_correct [OF inv, of 3] by auto
qed

text \<open>
  C20. Iterating a pool ends and yields exactly the occupied indices with their values, in
  increasing index order, each once; the number of items is \<open>len\<close>.
\<close>

theorem pool_iter_correct:
  assumes "pool_inv p"
  shows "iter_collect pool_iter_next (pool_iter p) =
           Some (map (\<lambda>x. (of_nat x, the (pool_map p (of_nat x)))) (sorted_list_of_set (unat ` dom (pool_map p))))
         \<and> pool_len p = card (dom (pool_map p))"
proof -
  let ?S = "unat ` dom (pool_map p)"
  let ?g = "\<lambda>x. (of_nat x, the (pool_map p (of_nat x)))"
  have fin: "finite ?S" using finite_subset [OF _ finite_lessThan [of "length (pl_vector p)"]]
    by (auto simp flip: pool_free_complement [OF assms])
  have "iter_collect pool_iter_next (pool_iter p) = Some (map ?g (sorted_list_of_set (?S \<inter> {0..})))"
  proof (rule iter_collect_least_from
      [where P = "\<lambda>it. pi_pool it = p" and cur = "\<lambda>it. map_option unat (pi_next_index it)", OF fin])
    fix it :: "'a pool_iter" and n x
    assume it: "pi_pool it = p" "map_option unat (pi_next_index it) = least_from ?S n"
      "map_option unat (pi_next_index it) = Some x"
    obtain i where i: "pi_next_index it = Some i" "x = unat i" using it(3) by auto
    have "least_from ?S n = Some (unat i)" using it i by simp
    then have "unat i \<in> ?S" unfolding least_from_eq_Some by blast
    then have d: "i \<in> dom (pool_map p)" by simp
    then obtain v where "pool_map p i = Some v" by blast
    then show "\<exists>it'. pool_iter_next it = (Some (?g x), it') \<and> pi_pool it' = p
        \<and> map_option unat (pi_next_index it') = least_from ?S (Suc x)"
      using it(1) i assms pool_scan(2) [OF assms d] by (simp add: pool_iter_next_def pool.get)
  qed (auto simp: pool_iter_next_def pool_iter_def pool_scan [OF assms])
  then show ?thesis using pool_len_card [OF assms] by (simp add: atLeast_0)
qed

theorem pool_iter_correct_witness:
  "pool_inv (pool_with_fixed_capacity 2 :: nat pool) \<and>
   iter_collect pool_iter_next (pool_iter (pool_with_fixed_capacity 2 :: nat pool)) = Some []"
proof -
  have inv: "pool_inv (pool_with_fixed_capacity 2 :: nat pool)" by (rule inv_intros)
  show ?thesis using inv pool_iter_correct [OF inv] by simp
qed

text \<open>
  C24. Clearing a pool never faults and leaves an empty pool in its initial index state: the next
  insertion (when the pool can hold anything) returns index zero, for dynamic and for fixed
  pools.
\<close>

theorem pool_clear_correct:
  assumes "pool_inv p" and "pl_max_elts p \<noteq> Some 0"
  shows "\<exists>p'. pool_clear p = Inr p' \<and> pool_inv p' \<and> pool_map p' = Map.empty \<and> pl_opaque p' = 0
           \<and> (\<exists>p''. pool_insert p' v = Inr (0, p'') \<and> pool_map p'' = [0 \<mapsto> v])"
proof -
  obtain p' where p': "pool_clear p = Inr p'" "pool_inv p'" "pool_map p' = Map.empty"
    "pl_opaque p' = 0" "pl_max_elts p' = pl_max_elts p"
    "pl_free_indices p' = (case pl_max_elts p of None \<Rightarrow> [] | Some m \<Rightarrow> map of_nat (rev [0..<unat m]))"
    "pl_max_elts p = None \<Longrightarrow> pl_vector p' = []"
    using pool_clear_ok [OF assms(1)] by blast
  have "\<exists>p''. pool_insert p' v = Inr (0, p'') \<and> pool_map p'' = [0 \<mapsto> v]"
  proof (cases "pl_max_elts p")
    case None
    then show ?thesis using pool_insert_grow [OF p'(2), of v] p' by auto
  next
    case (Some m)
    then have "0 < unat m" using assms(2) by (simp add: unat_gt_0)
    then have "pl_free_indices p' \<noteq> []" "last (pl_free_indices p') = 0"
      using Some p'(6) by (simp_all add: last_map last_rev hd_map)
    then show ?thesis using pool_insert_reuse [OF p'(2), of v] p' by auto
  qed
  then show ?thesis using p' by blast
qed

theorem pool_clear_correct_witness:
  "pool_inv (pool_new :: nat pool) \<and> pl_max_elts (pool_new :: nat pool) \<noteq> Some 0 \<and>
   (\<exists>p'. pool_clear (pool_new :: nat pool) = Inr p' \<and> (\<exists>p''. pool_insert p' 9 = Inr (0, p'')))"
proof -
  have inv: "pool_inv (pool_new :: nat pool)" by (rule inv_intros)
  have m: "pl_max_elts (pool_new :: nat pool) \<noteq> Some 0" by (simp add: pool_new_def)
  show ?thesis using inv m pool_clear_correct [OF inv m, of 9] by blast
qed

end
