(* ===== verification/Queues.thy ===== *)
theory Queues
  imports Prelude
begin

text \<open>
  The queues of \<open>crates/hammer-infra/src/fifo_queue.rs\<close> (two stacks) and the local rings of
  \<open>crates/hammer-infra/src/ring.rs\<close> (a circular array, and a ring of slot ids over a slot
  table). A \<open>Vec\<close> is a list; \<open>push\<close> appends and \<open>pop\<close> takes the last element. A
  failed \<open>assert!\<close> is \<open>None\<close>; a rejected \<open>try_push\<close> gives the value back as
  \<open>Inl\<close>. All of them implement the queue interface, and the first-in-first-out law over
  arbitrary sequences of operations is proved once for that interface.
\<close>

subsection \<open>FifoQueue\<close>

record 'a fifo_queue =
  fq_front :: "'a list"
  fq_back :: "'a list"

definition fifo_queue_new :: "'a fifo_queue" where
  "fifo_queue_new = \<lparr>fq_front = [], fq_back = []\<rparr>"

definition fifo_queue_len :: "'a fifo_queue \<Rightarrow> usize" where
  "fifo_queue_len q = length (fq_front q) + length (fq_back q)"

definition fifo_queue_is_empty :: "'a fifo_queue \<Rightarrow> bool" where
  "fifo_queue_is_empty q \<longleftrightarrow> fq_front q = [] \<and> fq_back q = []"

definition fifo_queue_push_back :: "'a fifo_queue \<Rightarrow> 'a \<Rightarrow> 'a fifo_queue" where
  "fifo_queue_push_back q value = q\<lparr>fq_back := fq_back q @ [value]\<rparr>"

text \<open>\<open>v.as_mut_slice()[start..len].rotate_right(1)\<close> on a nonempty slice.\<close>

definition rotate_right_from :: "usize \<Rightarrow> 'a list \<Rightarrow> 'a list" where
  "rotate_right_from start v = take start v @ last (drop start v) # butlast (drop start v)"

definition fifo_queue_insert :: "'a fifo_queue \<Rightarrow> usize \<Rightarrow> 'a \<Rightarrow> 'a fifo_queue option" where
  "fifo_queue_insert q index value =
     (if \<not> index \<le> fifo_queue_len q then None
      else if index = fifo_queue_len q then Some (fifo_queue_push_back q value)
      else let front_len = length (fq_front q) in
           if index < front_len
           then let storage_index = front_len - index
                in Some (q\<lparr>fq_front := rotate_right_from storage_index (fq_front q @ [value])\<rparr>)
           else let storage_index = index - front_len
                in Some (q\<lparr>fq_back := rotate_right_from storage_index (fq_back q @ [value])\<rparr>))"

definition fifo_queue_front :: "'a fifo_queue \<Rightarrow> 'a option" where
  "fifo_queue_front q =
     (if fq_front q \<noteq> [] then Some (last (fq_front q))
      else case fq_back q of [] \<Rightarrow> None | x # _ \<Rightarrow> Some x)"

definition fifo_queue_back :: "'a fifo_queue \<Rightarrow> 'a option" where
  "fifo_queue_back q =
     (if fq_back q \<noteq> [] then Some (last (fq_back q))
      else case fq_front q of [] \<Rightarrow> None | x # _ \<Rightarrow> Some x)"

definition fifo_queue_get :: "'a fifo_queue \<Rightarrow> usize \<Rightarrow> 'a option" where
  "fifo_queue_get q index =
     (if fifo_queue_len q \<le> index then None
      else let front_len = length (fq_front q) in
           if index < front_len then Some (fq_front q ! (front_len - 1 - index))
           else Some (fq_back q ! (index - front_len)))"

function move_back_to_front :: "'a fifo_queue \<Rightarrow> 'a fifo_queue" where
  "move_back_to_front q =
     (if fq_back q = [] then q
      else move_back_to_front
             (q\<lparr>fq_front := fq_front q @ [last (fq_back q)], fq_back := butlast (fq_back q)\<rparr>))"
  by pat_completeness auto
termination
  by (relation "measure (\<lambda>q. length (fq_back q))") auto

declare move_back_to_front.simps [simp del]

text \<open>\<open>front_mut\<close> and \<open>get_mut\<close>: the mutation is the argument \<open>f\<close>.\<close>

definition fifo_queue_front_mut :: "'a fifo_queue \<Rightarrow> ('a \<Rightarrow> 'a) \<Rightarrow> 'a fifo_queue" where
  "fifo_queue_front_mut q f =
     (let q = (if fq_front q = [] then move_back_to_front q else q) in
      if fq_front q = [] then q
      else q\<lparr>fq_front := butlast (fq_front q) @ [f (last (fq_front q))]\<rparr>)"

definition fifo_queue_get_mut :: "'a fifo_queue \<Rightarrow> usize \<Rightarrow> ('a \<Rightarrow> 'a) \<Rightarrow> 'a fifo_queue" where
  "fifo_queue_get_mut q index f =
     (if fifo_queue_len q \<le> index then q
      else let front_len = length (fq_front q) in
           if index < front_len
           then let i = front_len - 1 - index in q\<lparr>fq_front := (fq_front q)[i := f (fq_front q ! i)]\<rparr>
           else let i = index - front_len in q\<lparr>fq_back := (fq_back q)[i := f (fq_back q ! i)]\<rparr>)"


text \<open>\<open>Vec::remove\<close>\<close>

definition vec_remove :: "'a list \<Rightarrow> usize \<Rightarrow> 'a \<times> 'a list" where
  "vec_remove v i = (v ! i, take i v @ drop (Suc i) v)"

definition fifo_queue_remove :: "'a fifo_queue \<Rightarrow> usize \<Rightarrow> ('a \<times> 'a fifo_queue) option" where
  "fifo_queue_remove q index =
     (if \<not> index < fifo_queue_len q then None
      else let front_len = length (fq_front q) in
           if index < front_len
           then let (x, v) = vec_remove (fq_front q) (front_len - 1 - index) in Some (x, q\<lparr>fq_front := v\<rparr>)
           else let (x, v) = vec_remove (fq_back q) (index - front_len) in Some (x, q\<lparr>fq_back := v\<rparr>))"

definition fifo_queue_clear :: "'a fifo_queue \<Rightarrow> 'a fifo_queue" where
  "fifo_queue_clear q = q\<lparr>fq_front := [], fq_back := []\<rparr>"

text \<open>\<open>iter\<close>: the front vector backwards, then the back vector.\<close>

definition fifo_queue_iter :: "'a fifo_queue \<Rightarrow> 'a list \<times> 'a list" where
  "fifo_queue_iter q = (rev (fq_front q), fq_back q)"

definition fifo_iter_next :: "'a list \<times> 'a list \<Rightarrow> 'a option \<times> ('a list \<times> 'a list)" where
  "fifo_iter_next it =
     (case it of
        (x # front, back) \<Rightarrow> (Some x, (front, back))
      | ([], x # back) \<Rightarrow> (Some x, ([], back))
      | ([], []) \<Rightarrow> (None, ([], [])))"

definition fq_list :: "'a fifo_queue \<Rightarrow> 'a list" where
  "fq_list q = rev (fq_front q) @ fq_back q"


subsection \<open>LocalRing\<close>

record 'a local_ring =
  lr_slots :: "'a option list"
  lr_head :: usize
  lr_len :: usize

definition local_ring_new :: "'a local_ring" where
  "local_ring_new = \<lparr>lr_slots = [], lr_head = 0, lr_len = 0\<rparr>"

definition local_ring_with_capacity :: "usize \<Rightarrow> 'a local_ring" where
  "local_ring_with_capacity capacity = \<lparr>lr_slots = replicate capacity None, lr_head = 0, lr_len = 0\<rparr>"

definition local_ring_capacity :: "'a local_ring \<Rightarrow> usize" where
  "local_ring_capacity r = length (lr_slots r)"

definition local_ring_is_empty :: "'a local_ring \<Rightarrow> bool" where
  "local_ring_is_empty r \<longleftrightarrow> lr_len r = 0"

definition local_ring_is_full :: "'a local_ring \<Rightarrow> bool" where
  "local_ring_is_full r \<longleftrightarrow> lr_len r = local_ring_capacity r"

definition local_ring_front :: "'a local_ring \<Rightarrow> 'a option" where
  "local_ring_front r = (if lr_len r = 0 then None else lr_slots r ! lr_head r)"

definition local_ring_front_mut :: "'a local_ring \<Rightarrow> ('a \<Rightarrow> 'a) \<Rightarrow> 'a local_ring" where
  "local_ring_front_mut r f =
     (if lr_len r = 0 then r
      else r\<lparr>lr_slots := (lr_slots r)[lr_head r := map_option f (lr_slots r ! lr_head r)]\<rparr>)"

definition local_ring_try_push :: "'a local_ring \<Rightarrow> 'a \<Rightarrow> 'a + 'a local_ring" where
  "local_ring_try_push r value =
     (if local_ring_is_full r then Inl value
      else let slot = (if local_ring_capacity r = 0 then 0
                       else (lr_head r + lr_len r) mod local_ring_capacity r)
           in Inr (r\<lparr>lr_slots := (lr_slots r)[slot := Some value], lr_len := lr_len r + 1\<rparr>))"

definition local_ring_pop :: "'a local_ring \<Rightarrow> 'a option \<times> 'a local_ring" where
  "local_ring_pop r =
     (if lr_len r = 0 then (None, r)
      else let value = lr_slots r ! lr_head r;
               slots = (lr_slots r)[lr_head r := None];
               len = lr_len r - 1;
               head = (if len = 0 then 0 else (lr_head r + 1) mod local_ring_capacity r)
           in (value, r\<lparr>lr_slots := slots, lr_head := head, lr_len := len\<rparr>))"

definition local_ring_clear :: "'a local_ring \<Rightarrow> 'a local_ring" where
  "local_ring_clear r =
     (if lr_len r = 0 then r
      else r\<lparr>lr_slots :=
               foldl (\<lambda>slots offset. slots[(lr_head r + offset) mod local_ring_capacity r := None])
                 (lr_slots r) [0..<lr_len r],
             lr_head := 0, lr_len := 0\<rparr>)"

text \<open>The slot of the \<open>k\<close>-th item, the list of items, and the invariant: exactly the
  \<open>len\<close> slots from \<open>head\<close> on (around the end) are occupied.\<close>

definition lr_slot :: "'a local_ring \<Rightarrow> nat \<Rightarrow> nat" where
  "lr_slot r k = (lr_head r + k) mod length (lr_slots r)"

definition lr_list :: "'a local_ring \<Rightarrow> 'a list" where
  "lr_list r = map (\<lambda>k. the (lr_slots r ! lr_slot r k)) [0..<lr_len r]"

definition local_ring_inv :: "'a local_ring \<Rightarrow> bool" where
  "local_ring_inv r \<longleftrightarrow>
     lr_len r \<le> length (lr_slots r) \<and>
     (lr_head r < length (lr_slots r) \<or> lr_head r = 0 \<and> lr_slots r = []) \<and>
     (\<forall>k < length (lr_slots r). lr_slots r ! lr_slot r k \<noteq> None \<longleftrightarrow> k < lr_len r)"


subsection \<open>IndexedRing\<close>

record 'a indexed_ring =
  ir_ready :: "u32 local_ring"
  ir_slots :: "'a option list"
  ir_free :: "u32 list"

definition indexed_ring_new :: "'a indexed_ring" where
  "indexed_ring_new = \<lparr>ir_ready = local_ring_new, ir_slots = [], ir_free = []\<rparr>"

definition indexed_ring_with_capacity :: "usize \<Rightarrow> 'a indexed_ring option" where
  "indexed_ring_with_capacity capacity =
     (if \<not> capacity \<le> u32_max then None
      else Some \<lparr>ir_ready = local_ring_with_capacity capacity,
                 ir_slots = replicate capacity None,
                 ir_free = map (\<lambda>index. of_nat (capacity - index - 1)) [0..<capacity]\<rparr>)"

definition indexed_ring_len :: "'a indexed_ring \<Rightarrow> usize" where
  "indexed_ring_len r = lr_len (ir_ready r)"

definition indexed_ring_is_full :: "'a indexed_ring \<Rightarrow> bool" where
  "indexed_ring_is_full r \<longleftrightarrow> ir_free r = []"

definition indexed_ring_entry :: "'a indexed_ring \<Rightarrow> u32 \<Rightarrow> 'a option" where
  "indexed_ring_entry r slot =
     (if unat slot < length (ir_slots r) then ir_slots r ! unat slot else None)"

definition indexed_ring_entry_mut :: "'a indexed_ring \<Rightarrow> u32 \<Rightarrow> ('a \<Rightarrow> 'a) \<Rightarrow> 'a indexed_ring" where
  "indexed_ring_entry_mut r slot f =
     (if unat slot < length (ir_slots r)
      then r\<lparr>ir_slots := (ir_slots r)[unat slot := map_option f (ir_slots r ! unat slot)]\<rparr> else r)"

text \<open>\<open>try_push\<close> gives \<open>Err(value)\<close> when no slot is free, and also when the ready ring
  rejects the slot, in which case the slot is emptied and freed again. An index out of the slot
  table panics (\<open>None\<close>).\<close>

definition indexed_ring_try_push :: "'a indexed_ring \<Rightarrow> 'a \<Rightarrow> (('a + u32) \<times> 'a indexed_ring) option" where
  "indexed_ring_try_push r value =
     (if ir_free r = [] then Some (Inl value, r)
      else let slot = last (ir_free r);
               r = r\<lparr>ir_free := butlast (ir_free r)\<rparr>
           in if \<not> unat slot < length (ir_slots r) then None
              else let r = r\<lparr>ir_slots := (ir_slots r)[unat slot := Some value]\<rparr>
                   in case local_ring_try_push (ir_ready r) slot of
                        Inl _ \<Rightarrow>
                          Some (Inl value,
                                r\<lparr>ir_slots := (ir_slots r)[unat slot := None], ir_free := ir_free r @ [slot]\<rparr>)
                      | Inr ready \<Rightarrow> Some (Inr slot, r\<lparr>ir_ready := ready\<rparr>))"

definition indexed_ring_pop :: "'a indexed_ring \<Rightarrow> ((u32 \<times> 'a) option \<times> 'a indexed_ring) option" where
  "indexed_ring_pop r =
     (case local_ring_pop (ir_ready r) of
        (None, ready) \<Rightarrow> Some (None, r\<lparr>ir_ready := ready\<rparr>)
      | (Some slot, ready) \<Rightarrow>
          if \<not> unat slot < length (ir_slots r) then None
          else case ir_slots r ! unat slot of
                 None \<Rightarrow> None
               | Some value \<Rightarrow>
                   Some (Some (slot, value),
                         r\<lparr>ir_ready := ready, ir_slots := (ir_slots r)[unat slot := None],
                           ir_free := ir_free r @ [slot]\<rparr>))"

text \<open>\<open>while self.pop().is_some() {}\<close>\<close>

partial_function (option) indexed_ring_clear :: "'a indexed_ring \<Rightarrow> 'a indexed_ring option" where
  "indexed_ring_clear r =
     (case indexed_ring_pop r of
        None \<Rightarrow> None
      | Some (None, r') \<Rightarrow> Some r'
      | Some (Some _, r') \<Rightarrow> indexed_ring_clear r')"

definition indexed_ring_inv :: "'a indexed_ring \<Rightarrow> bool" where
  "indexed_ring_inv r \<longleftrightarrow>
     local_ring_inv (ir_ready r) \<and>
     length (lr_slots (ir_ready r)) = length (ir_slots r) \<and>
     length (ir_slots r) \<le> u32_max \<and>
     distinct (lr_list (ir_ready r) @ ir_free r) \<and>
     unat ` set (lr_list (ir_ready r) @ ir_free r) = {..<length (ir_slots r)} \<and>
     (\<forall>slot. unat slot < length (ir_slots r) \<longrightarrow>
        (ir_slots r ! unat slot \<noteq> None \<longleftrightarrow> slot \<in> set (lr_list (ir_ready r))))"

definition ir_list :: "'a indexed_ring \<Rightarrow> (u32 \<times> 'a) list" where
  "ir_list r = map (\<lambda>slot. (slot, the (ir_slots r ! unat slot))) (lr_list (ir_ready r))"


subsection \<open>Sequences of queue operations\<close>

datatype 'a queue_op = Push 'a | Pop

text \<open>Run a sequence of operations; collect the accepted pushes and the popped values.\<close>

fun queue_run ::
  "('q \<Rightarrow> bool) \<Rightarrow> ('q \<Rightarrow> 'a \<Rightarrow> 'q) \<Rightarrow> ('q \<Rightarrow> 'a option \<times> 'q) \<Rightarrow> 'q \<Rightarrow> 'a queue_op list \<Rightarrow>
     'a list \<times> 'a list \<times> 'q" where
  "queue_run full push pop q [] = ([], [], q)"
| "queue_run full push pop q (Push x # ops) =
     (let (accepted, popped, q') = queue_run full push pop (push q x) ops
      in ((if full q then accepted else x # accepted), popped, q'))"
| "queue_run full push pop q (Pop # ops) =
     (case pop q of
        (None, q1) \<Rightarrow> queue_run full push pop q1 ops
      | (Some x, q1) \<Rightarrow>
          let (accepted, popped, q') = queue_run full push pop q1 ops in (accepted, x # popped, q'))"


subsection \<open>The queue interface\<close>

locale queue =
  fixes items :: "'q \<Rightarrow> 'a list"
    and inv :: "'q \<Rightarrow> bool"
    and full :: "'q \<Rightarrow> bool"
    and push_op :: "'q \<Rightarrow> 'a \<Rightarrow> 'q"
    and pop_op :: "'q \<Rightarrow> 'a option \<times> 'q"
  assumes push: "inv q \<Longrightarrow> \<not> full q \<Longrightarrow> inv (push_op q x) \<and> items (push_op q x) = items q @ [x]"
    and push_full: "inv q \<Longrightarrow> full q \<Longrightarrow> push_op q x = q"
    and pop_empty: "inv q \<Longrightarrow> items q = [] \<Longrightarrow>
          fst (pop_op q) = None \<and> items (snd (pop_op q)) = [] \<and> inv (snd (pop_op q))"
    and pop_cons: "inv q \<Longrightarrow> items q = x # xs \<Longrightarrow>
          fst (pop_op q) = Some x \<and> items (snd (pop_op q)) = xs \<and> inv (snd (pop_op q))"
begin

lemma inv_push: "inv q \<Longrightarrow> inv (push_op q x)"
  by (cases "full q") (simp_all add: push push_full)

lemma pop_cases:
  assumes "inv q"
  obtains "items q = []" "pop_op q = (None, snd (pop_op q))" "items (snd (pop_op q)) = []"
      "inv (snd (pop_op q))"
  | x where "items q = x # items (snd (pop_op q))" "pop_op q = (Some x, snd (pop_op q))"
      "inv (snd (pop_op q))"
proof (cases "items q")
  case Nil
  then show ?thesis using that(1) pop_empty [OF assms] by (metis prod.collapse)
next
  case (Cons x xs)
  then show ?thesis using that(2) pop_cons [OF assms Cons] by (metis prod.collapse)
qed

text \<open>First in, first out, over any sequence of operations: the initial content followed by the
  accepted pushes is what was popped followed by what is left.\<close>

lemma run_fifo:
  assumes "inv q" "queue_run full push_op pop_op q ops = (accepted, popped, q')"
  shows "inv q' \<and> items q @ accepted = popped @ items q'"
  using assms
proof (induction ops arbitrary: q accepted popped)
  case Nil
  then show ?case by simp
next
  case (Cons op ops)
  show ?case
  proof (cases op)
    case (Push x)
    obtain acc where r: "queue_run full push_op pop_op (push_op q x) ops = (acc, popped, q')"
        "accepted = (if full q then acc else x # acc)"
      using Cons.prems(2) Push by (auto split: prod.splits)
    have "inv q' \<and> items (push_op q x) @ acc = popped @ items q'"
      using Cons.IH [OF inv_push [OF Cons.prems(1)] r(1)] .
    then show ?thesis
      using r(2) push [OF Cons.prems(1)] push_full [OF Cons.prems(1)] by (cases "full q") auto
  next
    case Pop
    show ?thesis
    proof (rule pop_cases [OF Cons.prems(1)])
      assume p: "items q = []" "pop_op q = (None, snd (pop_op q))" "items (snd (pop_op q)) = []"
        "inv (snd (pop_op q))"
      then have "queue_run full push_op pop_op (snd (pop_op q)) ops = (accepted, popped, q')"
        using Cons.prems(2) Pop by (metis (no_types, lifting) option.case(1) prod.case queue_run.simps(3))
      then show ?thesis using Cons.IH [OF p(4)] p by simp
    next
      fix x
      assume p: "items q = x # items (snd (pop_op q))" "pop_op q = (Some x, snd (pop_op q))"
        "inv (snd (pop_op q))"
      obtain pop where r: "queue_run full push_op pop_op (snd (pop_op q)) ops = (accepted, pop, q')"
          "popped = x # pop"
        using Cons.prems(2) Pop p(2) by (cases "pop_op q") (auto split: prod.splits)
      then show ?thesis using Cons.IH [OF p(3) r(1)] p(1) by simp
    qed
  qed
qed

end


subsection \<open>FifoQueue implements the queue interface\<close>



lemma fq_list_push_back [abs_simps]: "fq_list (fifo_queue_push_back q x) = fq_list q @ [x]"
  by (simp add: fq_list_def fifo_queue_push_back_def)




lemma fq_list_length: "length (fq_list q) = fifo_queue_len q"
  by (simp add: fq_list_def fifo_queue_len_def)

lemma rotate_right_from_snoc:
  "start \<le> length v \<Longrightarrow> rotate_right_from start (v @ [x]) = take start v @ x # drop start v"
  by (simp add: rotate_right_from_def butlast_append)

lemma fq_get: "fifo_queue_get q i = (if i < length (fq_list q) then Some (fq_list q ! i) else None)"
  by (auto simp: fifo_queue_get_def fq_list_length [symmetric] Let_def)
     (auto simp: fq_list_def nth_append rev_nth)

lemma fq_front_eq: "fifo_queue_front q = (if fq_list q = [] then None else Some (hd (fq_list q)))"
  by (auto simp: fifo_queue_front_def fq_list_def hd_append hd_rev split: list.splits)

lemma fq_back_eq: "fifo_queue_back q = (if fq_list q = [] then None else Some (last (fq_list q)))"
  by (auto simp: fifo_queue_back_def fq_list_def last_append last_rev split: list.splits)

lemma fq_insert_list:
  assumes "i \<le> length (fq_list q)"
  obtains q' where "fifo_queue_insert q i x = Some q'"
    "fq_list q' = take i (fq_list q) @ x # drop i (fq_list q)"
proof -
  let ?f = "length (fq_front q)"
  consider "i = fifo_queue_len q" | "i < fifo_queue_len q" "i < ?f" | "i < fifo_queue_len q" "?f \<le> i"
    using assms by (fastforce simp: fq_list_length)
  then show ?thesis
  proof cases
    case 1
    then have "fifo_queue_insert q i x = Some (fifo_queue_push_back q x)"
      by (simp add: fifo_queue_insert_def)
    moreover have "i = length (fq_list q)" using 1 by (simp add: fq_list_length)
    ultimately show ?thesis using that by (simp add: abs_simps)
  next
    case 2
    let ?q = "q\<lparr>fq_front := take (?f - i) (fq_front q) @ x # drop (?f - i) (fq_front q)\<rparr>"
    have "fifo_queue_insert q i x = Some ?q"
      using 2 by (simp add: fifo_queue_insert_def Let_def rotate_right_from_snoc)
    moreover have "fq_list ?q = take i (fq_list q) @ x # drop i (fq_list q)"
      using 2 by (simp add: fq_list_def rev_drop rev_take)
    ultimately show ?thesis using that by blast
  next
    case 3
    let ?q = "q\<lparr>fq_back := take (i - ?f) (fq_back q) @ x # drop (i - ?f) (fq_back q)\<rparr>"
    have "fifo_queue_insert q i x = Some ?q"
      using 3 by (simp add: fifo_queue_insert_def Let_def rotate_right_from_snoc fifo_queue_len_def)
    moreover have "fq_list ?q = take i (fq_list q) @ x # drop i (fq_list q)"
      using 3 by (simp add: fq_list_def)
    ultimately show ?thesis using that by blast
  qed
qed

lemma fq_remove_list:
  assumes "i < length (fq_list q)"
  obtains q' where "fifo_queue_remove q i = Some (fq_list q ! i, q')"
    "fq_list q' = take i (fq_list q) @ drop (Suc i) (fq_list q)"
proof -
  let ?f = "length (fq_front q)"
  show ?thesis
  proof (cases "i < ?f")
    case True
    let ?j = "?f - 1 - i"
    let ?q = "q\<lparr>fq_front := take ?j (fq_front q) @ drop (Suc ?j) (fq_front q)\<rparr>"
    have "fifo_queue_remove q i = Some (fq_list q ! i, ?q)"
      using True by (simp add: fifo_queue_remove_def fifo_queue_len_def vec_remove_def Let_def
          fq_list_def nth_append rev_nth)
    moreover have "fq_list ?q = take i (fq_list q) @ drop (Suc i) (fq_list q)"
    proof -
      have "Suc ?j = ?f - i" "?j = ?f - Suc i" using True by simp_all
      then show ?thesis using True by (simp add: fq_list_def rev_drop rev_take)
    qed
    ultimately show ?thesis using that by blast
  next
    case False
    let ?q = "q\<lparr>fq_back := take (i - ?f) (fq_back q) @ drop (Suc (i - ?f)) (fq_back q)\<rparr>"
    have "fifo_queue_remove q i = Some (fq_list q ! i, ?q)"
      using False assms by (simp add: fifo_queue_remove_def fq_list_length vec_remove_def Let_def)
         (simp add: fq_list_def nth_append)
    moreover have "fq_list ?q = take i (fq_list q) @ drop (Suc i) (fq_list q)"
      using False by (simp add: fq_list_def Suc_diff_le)
    ultimately show ?thesis using that by blast
  qed
qed

subsection \<open>LocalRing implements the queue interface\<close>

lemma mod_shift_inj:
  fixes h j k n :: nat
  assumes "(h + j) mod n = (h + k) mod n" "j < n" "k < n"
  shows "j = k"
proof -
  have "(int h + int j) mod int n = (int h + int k) mod int n"
    using assms(1) by (metis of_nat_add zmod_int)
  then have "(int h + int j - int h) mod int n = (int h + int k - int h) mod int n"
    by (rule mod_diff_cong) simp
  then show ?thesis using assms(2,3) by simp
qed

lemma mod_shift_surj:
  fixes h i n :: nat
  assumes "i < n" "h < n"
  obtains k where "k < n" "(h + k) mod n = i"
proof (cases "h \<le> i")
  case True
  then show ?thesis using that [of "i - h"] assms by simp
next
  case False
  then show ?thesis using that [of "n + i - h"] assms by simp
qed

lemma lr_slot_less: "k < length (lr_slots r) \<Longrightarrow> lr_slot r k < length (lr_slots r)"
  unfolding lr_slot_def by (rule mod_less_divisor) linarith

lemma lr_slot_eq_iff:
  "j < length (lr_slots r) \<Longrightarrow> k < length (lr_slots r) \<Longrightarrow> lr_slot r j = lr_slot r k \<longleftrightarrow> j = k"
  unfolding lr_slot_def using mod_shift_inj by blast

lemma lr_slot_0: "local_ring_inv r \<Longrightarrow> lr_slots r \<noteq> [] \<Longrightarrow> lr_slot r 0 = lr_head r"
  by (auto simp: lr_slot_def local_ring_inv_def)

lemma lr_slot_nth:
  "local_ring_inv r \<Longrightarrow> k < length (lr_slots r) \<Longrightarrow>
     lr_slots r ! lr_slot r k = (if k < lr_len r then Some (lr_list r ! k) else None)"
  by (auto simp: local_ring_inv_def lr_list_def)

lemma lr_invI:
  assumes "length xs \<le> length (lr_slots r)" "lr_len r = length xs"
    "lr_head r < length (lr_slots r) \<or> lr_head r = 0 \<and> lr_slots r = []"
    "\<And>k. k < length (lr_slots r) \<Longrightarrow>
       lr_slots r ! lr_slot r k = (if k < length xs then Some (xs ! k) else None)"
  shows "local_ring_inv r \<and> lr_list r = xs"
proof -
  have "lr_list r = xs"
    using assms(1,2,4) by (auto simp: lr_list_def intro!: nth_equalityI)
  then show ?thesis using assms by (simp add: local_ring_inv_def)
qed

lemma lr_list_length [simp]: "length (lr_list r) = lr_len r"
  by (simp add: lr_list_def)

lemma lr_push_ok:
  assumes "local_ring_inv r" "\<not> local_ring_is_full r"
  shows "\<exists>r'. local_ring_try_push r x = Inr r' \<and> local_ring_inv r' \<and> lr_list r' = lr_list r @ [x] \<and>
           length (lr_slots r') = length (lr_slots r)"
proof -
  let ?n = "length (lr_slots r)"
  let ?r = "r\<lparr>lr_slots := (lr_slots r)[lr_slot r (lr_len r) := Some x], lr_len := lr_len r + 1\<rparr>"
  have less: "lr_len r < ?n" and hd: "lr_head r < ?n"
    using assms by (auto simp: local_ring_inv_def local_ring_is_full_def local_ring_capacity_def)
  have sl: "lr_slot ?r k = lr_slot r k" for k by (simp add: lr_slot_def)
  have "local_ring_try_push r x = Inr ?r"
    using assms(2) less by (auto simp: local_ring_try_push_def local_ring_capacity_def lr_slot_def Let_def)
  moreover have "local_ring_inv ?r \<and> lr_list ?r = lr_list r @ [x]"
  proof (rule lr_invI)
    fix k assume k: "k < length (lr_slots ?r)"
    then have k': "k < ?n" by simp
    have "lr_slots ?r ! lr_slot r k =
        (if k = lr_len r then Some x else lr_slots r ! lr_slot r k)"
      using k' less lr_slot_eq_iff [OF less k'] lr_slot_less [OF k'] by (auto simp: nth_list_update)
    then show "lr_slots ?r ! lr_slot ?r k =
        (if k < length (lr_list r @ [x]) then Some ((lr_list r @ [x]) ! k) else None)"
      unfolding sl using lr_slot_nth [OF assms(1) k'] by (auto simp: nth_append)
  qed (use less hd in auto)
  ultimately show ?thesis by simp
qed


lemma lr_pop_ok:
  assumes inv: "local_ring_inv r" and l: "lr_list r = x # xs"
  shows "\<exists>r'. local_ring_pop r = (Some x, r') \<and> local_ring_inv r' \<and> lr_list r' = xs \<and>
           length (lr_slots r') = length (lr_slots r)"
proof -
  let ?n = "length (lr_slots r)"
  define h where "h = (if lr_len r - 1 = 0 then 0 else (lr_head r + 1) mod ?n)"
  let ?r = "r\<lparr>lr_slots := (lr_slots r)[lr_head r := None], lr_head := h, lr_len := lr_len r - 1\<rparr>"
  have len: "lr_len r = Suc (length xs)" using lr_list_length [of r] l by simp
  have n: "0 < ?n" "lr_len r \<le> ?n" "lr_head r < ?n" using inv len by (auto simp: local_ring_inv_def)
  have s0: "lr_slot r 0 = lr_head r" using lr_slot_0 [OF inv] n by auto
  have "lr_slots r ! lr_head r = Some x" using lr_slot_nth [OF inv n(1)] s0 l len by simp
  then have "local_ring_pop r = (Some x, ?r)"
    using len by (simp add: local_ring_pop_def local_ring_capacity_def Let_def h_def)
  moreover have "local_ring_inv ?r \<and> lr_list ?r = xs"
  proof (rule lr_invI)
    fix k assume "k < length (lr_slots ?r)"
    then have k: "k < ?n" by simp
    have old: "lr_slots ?r ! lr_slot r j = (if 0 < j \<and> j < lr_len r then Some (xs ! (j - 1)) else None)"
      if "j < ?n" for j
      using lr_slot_nth [OF inv that] lr_slot_eq_iff [OF that n(1)] lr_slot_less [OF that] s0 l
      by (auto simp: nth_list_update nth_Cons')
    show "lr_slots ?r ! lr_slot ?r k = (if k < length xs then Some (xs ! k) else None)"
    proof (cases "xs = []")
      case True
      obtain j where "j < ?n" "lr_slot r j = lr_slot ?r k"
        using mod_shift_surj [OF _ n(3), of "lr_slot ?r k"] n(1) by (auto simp: lr_slot_def)
      then show ?thesis using old [of j] True len by auto
    next
      case False
      then have sl: "lr_slot ?r k = lr_slot r (Suc k)"
        using len by (simp add: lr_slot_def h_def mod_simps add.commute)
      show ?thesis
      proof (cases "Suc k < ?n")
        case True
        then show ?thesis using old [of "Suc k"] len unfolding sl by auto
      next
        case f: False
        then have "Suc k = ?n" using k by simp
        then have "lr_slot r (Suc k) = lr_slot r 0" by (simp add: lr_slot_def)
        then show ?thesis using old [OF n(1)] len n(2) f unfolding sl by auto
      qed
    qed
  qed (use len n in \<open>auto simp: h_def\<close>)
  ultimately show ?thesis by simp
qed

lemma lr_pop_empty: "lr_list r = [] \<Longrightarrow> local_ring_pop r = (None, r)"
  by (simp add: local_ring_pop_def lr_list_def)



lemma lr_with_capacity: "local_ring_inv (local_ring_with_capacity n) \<and> lr_list (local_ring_with_capacity n) = []"
  by (auto simp: local_ring_inv_def local_ring_with_capacity_def lr_list_def lr_slot_def)

lemma lr_clear_ok:
  assumes "local_ring_inv r"
  shows "local_ring_clear r = local_ring_with_capacity (length (lr_slots r)) \<or> lr_len r = 0 \<and> local_ring_clear r = r"
proof (cases "lr_len r = 0")
  case False
  let ?n = "length (lr_slots r)"
  have n: "lr_head r < ?n" using assms False by (auto simp: local_ring_inv_def)
  have "lr_slots (local_ring_clear r) = replicate ?n None"
  proof (rule nth_equalityI)
    fix i assume "i < length (lr_slots (local_ring_clear r))"
    then have i: "i < ?n" by (simp add: local_ring_clear_def foldl_list_update split: if_splits)
    then obtain k where k: "k < ?n" "lr_slot r k = i"
      using mod_shift_surj [OF _ n] by (auto simp: lr_slot_def)
    then have "lr_slots r ! i = None \<or> i \<in> lr_slot r ` {0..<lr_len r}"
      using lr_slot_nth [OF assms k(1)] by (auto split: if_splits)
    then show "lr_slots (local_ring_clear r) ! i = replicate ?n None ! i"
      using False i by (auto simp: local_ring_clear_def foldl_list_update local_ring_capacity_def lr_slot_def)
  qed (use False in \<open>simp add: local_ring_clear_def foldl_list_update\<close>)
  then show ?thesis using False
    by (intro disjI1) (simp add: local_ring_with_capacity_def local_ring_clear_def)
qed (simp add: local_ring_clear_def)

subsection \<open>IndexedRing\<close>

lemma ir_slot_lists:
  assumes "indexed_ring_inv r"
  shows "length (lr_list (ir_ready r)) + length (ir_free r) = length (ir_slots r)"
proof -
  let ?l = "lr_list (ir_ready r) @ ir_free r"
  have "distinct (map unat ?l)"
    using assms unfolding indexed_ring_inv_def distinct_map by (auto simp: inj_on_def)
  then have "length (map unat ?l) = card (unat ` set ?l)"
    using distinct_card [of "map unat ?l"] by (simp only: set_map)
  also have "\<dots> = length (ir_slots r)"
    using assms by (simp add: indexed_ring_inv_def)
  finally show ?thesis by simp
qed

lemma ir_slot_range:
  "indexed_ring_inv r \<Longrightarrow> slot \<in> set (lr_list (ir_ready r) @ ir_free r) \<Longrightarrow> unat slot < length (ir_slots r)"
  unfolding indexed_ring_inv_def by blast

lemma ir_distinct: "indexed_ring_inv r \<Longrightarrow> distinct (lr_list (ir_ready r) @ ir_free r)"
  unfolding indexed_ring_inv_def by blast

lemma ir_ready_inv: "indexed_ring_inv r \<Longrightarrow> local_ring_inv (ir_ready r)"
  unfolding indexed_ring_inv_def by blast

lemma ir_ready_room:
  assumes "indexed_ring_inv r" "ir_free r \<noteq> []"
  shows "\<not> local_ring_is_full (ir_ready r)"
  using ir_slot_lists [OF assms(1)] assms
  by (auto simp: local_ring_is_full_def local_ring_capacity_def indexed_ring_inv_def)

lemma ir_live_iff:
  assumes "indexed_ring_inv r"
  shows "indexed_ring_entry r slot \<noteq> None \<longleftrightarrow> slot \<in> set (lr_list (ir_ready r))"
  using assms ir_slot_range [OF assms] unfolding indexed_ring_inv_def indexed_ring_entry_def by auto

lemma ir_inv_update:
  assumes "indexed_ring_inv r" "local_ring_inv rd"
    "length (lr_slots rd) = length (lr_slots (ir_ready r))"
    "distinct (lr_list rd @ fs)"
    "set (lr_list rd @ fs) = set (lr_list (ir_ready r) @ ir_free r)"
    "unat slot < length (ir_slots r)"
    "v \<noteq> None \<longleftrightarrow> slot \<in> set (lr_list rd)"
    "set (lr_list rd) - {slot} = set (lr_list (ir_ready r)) - {slot}"
  shows "indexed_ring_inv (r\<lparr>ir_ready := rd, ir_slots := (ir_slots r)[unat slot := v], ir_free := fs\<rparr>)"
proof -
  have "(ir_slots r)[unat slot := v] ! unat s \<noteq> None \<longleftrightarrow> s \<in> set (lr_list rd)"
    if "unat s < length (ir_slots r)" for s
  proof (cases "s = slot")
    case False
    then have "s \<in> set (lr_list rd) \<longleftrightarrow> s \<in> set (lr_list (ir_ready r))" using assms(8) by blast
    moreover have "ir_slots r ! unat s \<noteq> None \<longleftrightarrow> s \<in> set (lr_list (ir_ready r))"
      using assms(1) that unfolding indexed_ring_inv_def by blast
    ultimately show ?thesis using False by (simp add: nth_list_update)
  qed (use assms in simp)
  moreover have "unat ` set (lr_list rd @ fs) = {..<length (ir_slots r)}"
    using assms(1) unfolding assms(5) indexed_ring_inv_def by blast
  ultimately show ?thesis
    using assms(1-4) unfolding indexed_ring_inv_def
    by (simp del: set_append)
qed

text \<open>A push on a ring with a free slot: no panic, the slot was dead, it now holds the value and
  is the last of the ready ring.\<close>

lemma ir_push_ok:
  assumes inv: "indexed_ring_inv r" and free: "ir_free r \<noteq> []"
  shows "\<exists>slot r'. indexed_ring_try_push r x = Some (Inr slot, r') \<and> indexed_ring_inv r' \<and>
           slot = last (ir_free r) \<and> slot \<notin> set (lr_list (ir_ready r)) \<and>
           lr_list (ir_ready r') = lr_list (ir_ready r) @ [slot] \<and>
           unat slot < length (ir_slots r) \<and>
           ir_slots r' = (ir_slots r)[unat slot := Some x] \<and> ir_free r' = butlast (ir_free r)"
proof -
  obtain fs s where fs: "ir_free r = fs @ [s]" using free by (metis append_butlast_last_id)
  obtain rd where rd: "local_ring_try_push (ir_ready r) s = Inr rd" "local_ring_inv rd"
      "lr_list rd = lr_list (ir_ready r) @ [s]" "length (lr_slots rd) = length (lr_slots (ir_ready r))"
    using lr_push_ok [OF ir_ready_inv [OF inv] ir_ready_room [OF inv free]] by blast
  have range: "unat s < length (ir_slots r)" using ir_slot_range [OF inv] fs by simp
  have dist: "distinct (lr_list rd @ fs)" and dead: "s \<notin> set (lr_list (ir_ready r))"
    using ir_distinct [OF inv] by (auto simp: fs rd(3))
  let ?r = "r\<lparr>ir_ready := rd, ir_slots := (ir_slots r)[unat s := Some x], ir_free := fs\<rparr>"
  have "indexed_ring_inv ?r"
    by (rule ir_inv_update [OF inv rd(2,4) dist _ range]) (auto simp: rd(3) fs)
  moreover have "indexed_ring_try_push r x = Some (Inr s, ?r)"
    using range rd(1) by (simp add: indexed_ring_try_push_def Let_def fs)
  ultimately show ?thesis using rd dead range by (simp add: fs)
qed

lemma ir_pop_ok:
  assumes inv: "indexed_ring_inv r" and l: "lr_list (ir_ready r) = slot # slots"
  shows "\<exists>x r'. ir_slots r ! unat slot = Some x \<and> indexed_ring_pop r = Some (Some (slot, x), r') \<and>
           indexed_ring_inv r' \<and> lr_list (ir_ready r') = slots \<and> slot \<notin> set slots \<and>
           unat slot < length (ir_slots r) \<and>
           ir_slots r' = (ir_slots r)[unat slot := None] \<and> ir_free r' = ir_free r @ [slot]"
proof -
  obtain rd where rd: "local_ring_pop (ir_ready r) = (Some slot, rd)" "local_ring_inv rd"
      "lr_list rd = slots" "length (lr_slots rd) = length (lr_slots (ir_ready r))"
    using lr_pop_ok [OF ir_ready_inv [OF inv] l] by blast
  have range: "unat slot < length (ir_slots r)" using ir_slot_range [OF inv] l by simp
  obtain x where x: "ir_slots r ! unat slot = Some x"
    using inv range l unfolding indexed_ring_inv_def by auto
  have dist: "distinct (slots @ ir_free r @ [slot])" "slot \<notin> set slots"
    using ir_distinct [OF inv] by (auto simp: l)
  let ?r = "r\<lparr>ir_ready := rd, ir_slots := (ir_slots r)[unat slot := None], ir_free := ir_free r @ [slot]\<rparr>"
  have sets: "set (slots @ ir_free r @ [slot]) = set (lr_list (ir_ready r) @ ir_free r)"
    by (auto simp: l)
  have "indexed_ring_inv ?r"
    using ir_inv_update [OF inv, of rd "ir_free r @ [slot]" slot None] rd sets range dist l by simp
  moreover have "indexed_ring_pop r = Some (Some (slot, x), ?r)"
    using range rd(1) x by (simp add: indexed_ring_pop_def)
  ultimately show ?thesis using rd dist x range by simp
qed

lemma ir_pop_empty: "lr_list (ir_ready r) = [] \<Longrightarrow> indexed_ring_pop r = Some (None, r)"
  by (simp add: indexed_ring_pop_def lr_pop_empty)

lemma ir_with_capacity:
  assumes "indexed_ring_with_capacity n = Some r"
  shows "indexed_ring_inv r \<and> lr_list (ir_ready r) = []"
proof -
  define f where "f = (\<lambda>index. of_nat (n - index - 1) :: u32)"
  have n: "n \<le> u32_max" using assms by (simp add: indexed_ring_with_capacity_def split: if_splits)
  have r: "ir_ready r = local_ring_with_capacity n" "ir_slots r = replicate n None"
      "ir_free r = map f [0..<n]"
    using assms unfolding f_def by (auto simp: indexed_ring_with_capacity_def split: if_splits)
  have un: "unat (f i) = n - i - 1" for i
    unfolding f_def using n by (intro unat_of_nat_u32) (simp add: u32_max_def)
  have im: "unat ` set (ir_free r) = {..<n}"
  proof (rule set_eqI)
    fix j
    have "j \<in> unat ` set (ir_free r) \<longleftrightarrow> (\<exists>i<n. j = n - i - 1)"
      unfolding r(3) set_map image_image un by auto
    also have "\<dots> \<longleftrightarrow> j < n" by (auto intro: exI [of _ "n - j - 1"])
    finally show "j \<in> unat ` set (ir_free r) \<longleftrightarrow> j \<in> {..<n}" by simp
  qed
  have "inj_on f {0..<n}"
  proof (rule inj_onI)
    fix i j assume ij: "i \<in> {0..<n}" "j \<in> {0..<n}" and "f i = f j"
    then have "n - i - 1 = n - j - 1" using un by metis
    then show "i = j" using ij by auto
  qed
  then have "distinct (ir_free r)" by (simp add: r distinct_map)
  moreover have "length (lr_slots (local_ring_with_capacity n :: u32 local_ring)) = n"
    by (simp add: local_ring_with_capacity_def)
  ultimately show ?thesis
    using im n unfolding indexed_ring_inv_def r(1,2) by (simp add: lr_with_capacity)
qed

text \<open>The ring as a queue of values.\<close>

definition ir_values :: "'a indexed_ring \<Rightarrow> 'a list" where
  "ir_values r = map snd (ir_list r)"

definition indexed_ring_push :: "'a indexed_ring \<Rightarrow> 'a \<Rightarrow> 'a indexed_ring" where
  "indexed_ring_push r x = (case indexed_ring_try_push r x of Some (Inr _, r') \<Rightarrow> r' | _ \<Rightarrow> r)"

definition indexed_ring_pop_value :: "'a indexed_ring \<Rightarrow> 'a option \<times> 'a indexed_ring" where
  "indexed_ring_pop_value r =
     (case indexed_ring_pop r of Some (Some (_, x), r') \<Rightarrow> (Some x, r') | Some (None, r') \<Rightarrow> (None, r') | None \<Rightarrow> (None, r))"

lemma ir_values_push:
  assumes "indexed_ring_inv r" "ir_free r \<noteq> []"
  shows "indexed_ring_inv (indexed_ring_push r x) \<and> ir_values (indexed_ring_push r x) = ir_values r @ [x]"
  using ir_push_ok [OF assms, of x] ir_slot_range [OF assms(1)]
  by (auto simp: indexed_ring_push_def ir_values_def ir_list_def nth_list_update intro!: map_cong)

lemma ir_values_pop:
  assumes "indexed_ring_inv r" "ir_values r = x # xs"
  shows "fst (indexed_ring_pop_value r) = Some x \<and> ir_values (snd (indexed_ring_pop_value r)) = xs \<and>
     indexed_ring_inv (snd (indexed_ring_pop_value r))"
proof -
  obtain slot slots where l: "lr_list (ir_ready r) = slot # slots"
    using assms(2) by (cases "lr_list (ir_ready r)") (auto simp: ir_values_def ir_list_def)
  show ?thesis
    using ir_pop_ok [OF assms(1) l] ir_slot_range [OF assms(1)] assms(2)
    by (auto simp: indexed_ring_pop_value_def ir_values_def ir_list_def l nth_list_update intro!: map_cong)
qed

lemma ir_values_empty:
  assumes "ir_values r = []"
  shows "indexed_ring_pop_value r = (None, r)"
  using assms ir_pop_empty [of r] by (simp add: indexed_ring_pop_value_def ir_values_def ir_list_def)

lemma ir_full_push: "indexed_ring_is_full r \<Longrightarrow> indexed_ring_push r x = r"
  by (simp add: indexed_ring_push_def indexed_ring_is_full_def indexed_ring_try_push_def)

interpretation ir: queue ir_values indexed_ring_inv indexed_ring_is_full indexed_ring_push indexed_ring_pop_value
  by unfold_locales
     (simp_all add: ir_values_push indexed_ring_is_full_def ir_full_push ir_values_pop ir_values_empty)

lemma ir_clear_ok:
  assumes "indexed_ring_inv r"
  shows "\<exists>r'. indexed_ring_clear r = Some r' \<and> indexed_ring_inv r' \<and> lr_list (ir_ready r') = []"
  using assms
proof (induction "lr_list (ir_ready r)" arbitrary: r)
  case Nil
  then show ?case by (subst indexed_ring_clear.simps) (simp add: ir_pop_empty)
next
  case (Cons slot slots)
  obtain x r' where r': "indexed_ring_pop r = Some (Some (slot, x), r')" "indexed_ring_inv r'"
      "lr_list (ir_ready r') = slots"
    using ir_pop_ok [OF Cons.prems Cons.hyps(2) [symmetric]] by auto
  show ?case using Cons.hyps(1) [of r'] r' by (subst indexed_ring_clear.simps) simp
qed

subsection \<open>Properties\<close>

lemma fifo_iter_next_simps [simp]:
  "fifo_iter_next (x # front, bk) = (Some x, (front, bk))"
  "fifo_iter_next ([], x # bk) = (Some x, ([], bk))"
  "fifo_iter_next ([], []) = (None, ([], []))"
  by (simp_all add: fifo_iter_next_def)

lemma fq_iter_collect: "iter_collect fifo_iter_next (front, bk) = Some (front @ bk)"
proof (induction front)
  case Nil
  show ?case
    by (induction bk; subst iter_collect.simps; simp)
next
  case (Cons x front)
  then show ?case by (subst iter_collect.simps) simp
qed

definition pushes :: "'a queue_op list \<Rightarrow> 'a list" where
  "pushes ops = concat (map (\<lambda>op. case op of Push x \<Rightarrow> [x] | Pop \<Rightarrow> []) ops)"


lemma ir_entry_update:
  "unat slot < length (ir_slots r) \<Longrightarrow> ir_slots r' = (ir_slots r)[unat slot := v] \<Longrightarrow>
     indexed_ring_entry r' s = (if s = slot then v else indexed_ring_entry r s)"
  by (simp add: indexed_ring_entry_def)


text \<open>C21. The positional operations of the queue are those of the list it stands for: \<open>insert\<close>
  puts the value before position \<open>index\<close> and panics beyond the length, \<open>remove\<close> takes the
  element out and panics outside the list, \<open>get\<close> and \<open>get_mut\<close> address it, and the
  iterator yields the list in order.\<close>

theorem fifo_queue_positional:
  "map_option fq_list (fifo_queue_insert q i x) =
     (if i \<le> length (fq_list q) then Some (take i (fq_list q) @ x # drop i (fq_list q)) else None) \<and>
   map_option (\<lambda>(y, q'). (y, fq_list q')) (fifo_queue_remove q i) =
     (if i < length (fq_list q) then Some (fq_list q ! i, take i (fq_list q) @ drop (Suc i) (fq_list q))
      else None) \<and>
   fifo_queue_get q i = (if i < length (fq_list q) then Some (fq_list q ! i) else None) \<and>
   fq_list (fifo_queue_get_mut q i f) = (fq_list q)[i := f (fq_list q ! i)] \<and>
   iter_collect fifo_iter_next (fifo_queue_iter q) = Some (fq_list q)"
proof (intro conjI)
  show "map_option fq_list (fifo_queue_insert q i x) =
      (if i \<le> length (fq_list q) then Some (take i (fq_list q) @ x # drop i (fq_list q)) else None)"
  proof (cases "i \<le> length (fq_list q)")
    case True
    show ?thesis by (rule fq_insert_list [OF True, of x]) (use True in simp)
  qed (simp add: fifo_queue_insert_def fq_list_length)
  show "map_option (\<lambda>(y, q'). (y, fq_list q')) (fifo_queue_remove q i) =
      (if i < length (fq_list q) then Some (fq_list q ! i, take i (fq_list q) @ drop (Suc i) (fq_list q))
       else None)"
  proof (cases "i < length (fq_list q)")
    case True
    show ?thesis by (rule fq_remove_list [OF True]) (use True in simp)
  qed (simp add: fifo_queue_remove_def fq_list_length)
  show "fq_list (fifo_queue_get_mut q i f) = (fq_list q)[i := f (fq_list q ! i)]"
    by (auto simp: fifo_queue_get_mut_def fq_list_def fifo_queue_len_def Let_def list_update_append
        rev_update nth_append rev_nth list_update_beyond)
  show "iter_collect fifo_iter_next (fifo_queue_iter q) = Some (fq_list q)"
    by (simp add: fifo_queue_iter_def fq_iter_collect fq_list_def)
qed (rule fq_get)


text \<open>C22. A push on an indexed ring with a free slot does not panic, hands out a slot that held no
  entry, stores the value there without touching any other entry, and queues it last; on a ring
  without a free slot it returns the value and changes nothing.\<close>

theorem indexed_ring_push_correct:
  assumes "indexed_ring_inv r"
  shows "if indexed_ring_is_full r then indexed_ring_try_push r x = Some (Inl x, r)
         else \<exists>slot r'. indexed_ring_try_push r x = Some (Inr slot, r') \<and> indexed_ring_inv r' \<and>
                indexed_ring_entry r slot = None \<and> indexed_ring_entry r' slot = Some x \<and>
                (\<forall>s. s = slot \<or> indexed_ring_entry r' s = indexed_ring_entry r s) \<and>
                ir_list r' = ir_list r @ [(slot, x)]"
proof (cases "indexed_ring_is_full r")
  case False
  then have free: "ir_free r \<noteq> []" by (simp add: indexed_ring_is_full_def)
  obtain slot r' where r': "indexed_ring_try_push r x = Some (Inr slot, r')" "indexed_ring_inv r'"
      "slot \<notin> set (lr_list (ir_ready r))" "lr_list (ir_ready r') = lr_list (ir_ready r) @ [slot]"
      "unat slot < length (ir_slots r)" "ir_slots r' = (ir_slots r)[unat slot := Some x]"
    using ir_push_ok [OF assms free, of x] by auto
  have "ir_list r' = ir_list r @ [(slot, x)]"
    using r'(3-6) by (auto simp: ir_list_def nth_list_update intro!: map_cong)
  then show ?thesis
    using False r' ir_live_iff [OF assms, of slot] ir_entry_update [OF r'(5,6)] by auto
qed (simp add: indexed_ring_try_push_def indexed_ring_is_full_def)

theorem indexed_ring_push_correct_witness:
  "\<exists>slot r'. indexed_ring_try_push (the (indexed_ring_with_capacity 2)) True = Some (Inr slot, r') \<and>
     indexed_ring_inv r' \<and> ir_list r' = [(slot, True)]"
proof -
  let ?r = "the (indexed_ring_with_capacity 2) :: bool indexed_ring"
  have s: "indexed_ring_with_capacity 2 = Some ?r"
    by (simp add: indexed_ring_with_capacity_def u32_max_def)
  have "\<not> indexed_ring_is_full ?r"
    by (simp add: indexed_ring_with_capacity_def u32_max_def indexed_ring_is_full_def)
  then show ?thesis
    using indexed_ring_push_correct [of ?r True] ir_with_capacity [OF s] by (auto simp: ir_list_def)
qed

text \<open>C23. A pop on an indexed ring does not panic: on an empty ring it returns nothing, otherwise
  the oldest slot with the value stored there, whose entry is then gone while every other entry
  stays; \<open>clear\<close> terminates and leaves an empty ring.\<close>

theorem indexed_ring_pop_correct:
  assumes "indexed_ring_inv r"
  shows "(case ir_list r of
            [] \<Rightarrow> indexed_ring_pop r = Some (None, r)
          | (slot, x) # rest \<Rightarrow>
              \<exists>r'. indexed_ring_pop r = Some (Some (slot, x), r') \<and> indexed_ring_inv r' \<and>
                indexed_ring_entry r slot = Some x \<and> indexed_ring_entry r' slot = None \<and>
                (\<forall>s. s = slot \<or> indexed_ring_entry r' s = indexed_ring_entry r s) \<and>
                ir_list r' = rest) \<and>
         (\<exists>r'. indexed_ring_clear r = Some r' \<and> indexed_ring_inv r' \<and> ir_list r' = [])"
proof
  show "\<exists>r'. indexed_ring_clear r = Some r' \<and> indexed_ring_inv r' \<and> ir_list r' = []"
    using ir_clear_ok [OF assms] by (auto simp: ir_list_def)
  show "case ir_list r of
            [] \<Rightarrow> indexed_ring_pop r = Some (None, r)
          | (slot, x) # rest \<Rightarrow>
              \<exists>r'. indexed_ring_pop r = Some (Some (slot, x), r') \<and> indexed_ring_inv r' \<and>
                indexed_ring_entry r slot = Some x \<and> indexed_ring_entry r' slot = None \<and>
                (\<forall>s. s = slot \<or> indexed_ring_entry r' s = indexed_ring_entry r s) \<and>
                ir_list r' = rest"
  proof (cases "lr_list (ir_ready r)")
    case Nil
    then show ?thesis using ir_pop_empty [OF Nil] by (simp add: ir_list_def)
  next
    case (Cons slot slots)
    obtain x r' where r': "ir_slots r ! unat slot = Some x" "indexed_ring_pop r = Some (Some (slot, x), r')"
        "indexed_ring_inv r'" "lr_list (ir_ready r') = slots" "slot \<notin> set slots"
        "unat slot < length (ir_slots r)" "ir_slots r' = (ir_slots r)[unat slot := None]"
      using ir_pop_ok [OF assms Cons] by auto
    have "ir_list r = (slot, x) # ir_list r'"
      using r' by (auto simp: ir_list_def Cons nth_list_update intro!: map_cong)
    then show ?thesis
      using r' ir_entry_update [OF r'(6,7)] by (auto simp: indexed_ring_entry_def)
  qed
qed

theorem indexed_ring_pop_correct_witness:
  "let r = indexed_ring_push (the (indexed_ring_with_capacity 2)) True in
   \<exists>slot r'. indexed_ring_pop r = Some (Some (slot, True), r') \<and> indexed_ring_inv r' \<and> ir_list r' = []"
proof -
  let ?i = "the (indexed_ring_with_capacity 2) :: bool indexed_ring"
  let ?r = "indexed_ring_push ?i True"
  have s: "indexed_ring_with_capacity 2 = Some ?i"
    by (simp add: indexed_ring_with_capacity_def u32_max_def)
  have f: "ir_free ?i \<noteq> []"
    by (simp add: indexed_ring_with_capacity_def u32_max_def)
  have "indexed_ring_inv ?r" "ir_values ?r = [True]"
    using ir_values_push [OF _ f, of True] ir_with_capacity [OF s] by (auto simp: ir_values_def ir_list_def)
  moreover from this(2) obtain slot where "ir_list ?r = [(slot, True)]"
    by (auto simp: ir_values_def)
  ultimately show ?thesis using indexed_ring_pop_correct [of ?r] by (auto simp: Let_def)
qed

end
