(* ===== verification/LockFreeRing.thy ===== *)
theory LockFreeRing
  imports Queues
begin

text \<open>
  The multi-producer multi-consumer ring of \<open>src/crates/hammer-infra/src/ring.rs\<close> (\<open>LockFreeRing\<close>).  Counters and
  sequence numbers are 32-bit words and wrap.  The sequential operations are the straight-line reading of
  \<open>enqueue\<close> and \<open>dequeue\<close>; the concurrent ones are a program counter per thread, one step per atomic access, and
  an interleaving step relation over any number of threads.  Steps interleave on one shared memory: the
  acquire and release orderings of the source make a slot's value visible before its sequence number, which is
  what a step per access in program order gives.
\<close>

subsection \<open>The ring\<close>

datatype 'a ring_error = InvalidCapacity | Full 'a

record 'a lock_free_ring =
  lfr_size :: u32
  lfr_mask :: u32
  lfr_capacity :: u32
  producer_head :: u32
  producer_tail :: u32
  consumer_head :: u32
  consumer_tail :: u32
  slot_sequence :: "u32 list"
  slot_value :: "'a option list"

definition lfr_with_capacity :: "usize \<Rightarrow> 'a ring_error + 'a lock_free_ring" where
  "lfr_with_capacity n =
     (if n < 2 \<or> \<not> is_power_of_two n \<or> n > u32_max then Inl InvalidCapacity
      else Inr \<lparr>lfr_size = of_nat n, lfr_mask = of_nat n - 1, lfr_capacity = of_nat n - 1,
                producer_head = 0, producer_tail = 0, consumer_head = 0, consumer_tail = 0,
                slot_sequence = map of_nat [0..<n], slot_value = replicate n None\<rparr>)"

definition lfr_ring_size :: "'a lock_free_ring \<Rightarrow> usize" where
  "lfr_ring_size r = unat (lfr_size r)"

definition lfr_capacity_usize :: "'a lock_free_ring \<Rightarrow> usize" where
  "lfr_capacity_usize r = unat (lfr_capacity r)"

definition available_to_read :: "'a lock_free_ring \<Rightarrow> usize" where
  "available_to_read r = unat (producer_tail r - consumer_head r)"

definition available_to_write :: "'a lock_free_ring \<Rightarrow> usize" where
  "available_to_write r = unat (lfr_mask r + consumer_tail r - producer_head r)"

definition lfr_is_empty :: "'a lock_free_ring \<Rightarrow> bool" where
  "lfr_is_empty r \<longleftrightarrow> available_to_read r = 0"

definition lfr_is_full :: "'a lock_free_ring \<Rightarrow> bool" where
  "lfr_is_full r \<longleftrightarrow> available_to_write r = 0"

definition slot_of :: "'a lock_free_ring \<Rightarrow> u32 \<Rightarrow> usize" where
  "slot_of r head = unat (head AND lfr_mask r)"

text \<open>Indexing the slot table panics out of range; reading a value that was never written is undefined
  behaviour.  Both are \<open>None\<close>.\<close>

definition load_sequence :: "'a lock_free_ring \<Rightarrow> usize \<Rightarrow> u32 option" where
  "load_sequence r slot = (if slot < length (slot_sequence r) then Some (slot_sequence r ! slot) else None)"

definition store_sequence :: "usize \<Rightarrow> u32 \<Rightarrow> 'a lock_free_ring \<Rightarrow> 'a lock_free_ring option" where
  "store_sequence slot q r =
     (if slot < length (slot_sequence r) then Some (r\<lparr>slot_sequence := (slot_sequence r)[slot := q]\<rparr>) else None)"

definition read_value :: "'a lock_free_ring \<Rightarrow> usize \<Rightarrow> 'a option" where
  "read_value r slot = (if slot < length (slot_value r) then slot_value r ! slot else None)"

definition write_value :: "usize \<Rightarrow> 'a \<Rightarrow> 'a lock_free_ring \<Rightarrow> 'a lock_free_ring option" where
  "write_value slot v r =
     (if slot < length (slot_value r) then Some (r\<lparr>slot_value := (slot_value r)[slot := Some v]\<rparr>) else None)"


subsection \<open>One thread\<close>

definition lfr_enqueue :: "'a \<Rightarrow> 'a lock_free_ring \<Rightarrow> (('a ring_error + unit) \<times> 'a lock_free_ring) option" where
  "lfr_enqueue value r =
     (let head = producer_head r in
      if head - consumer_tail r \<ge> lfr_capacity r then Some (Inl (Full value), r)
      else let slot = slot_of r head in
           do { q \<leftarrow> load_sequence r slot;
                if q \<noteq> head then Some (Inl (Full value), r)
                else do { r \<leftarrow> write_value slot value (r\<lparr>producer_head := head + 1\<rparr>);
                          r \<leftarrow> store_sequence slot (head + 1) (r\<lparr>producer_tail := producer_tail r + 1\<rparr>);
                          Some (Inr (), r) } })"

definition lfr_dequeue :: "'a lock_free_ring \<Rightarrow> ('a option \<times> 'a lock_free_ring) option" where
  "lfr_dequeue r =
     (let head = consumer_head r; slot = slot_of r head in
      do { q \<leftarrow> load_sequence r slot;
           if q \<noteq> head + 1 then Some (None, r)
           else do { let r = r\<lparr>consumer_head := head + 1\<rparr>;
                     value \<leftarrow> read_value r slot;
                     r \<leftarrow> store_sequence slot (head + lfr_size r) (r\<lparr>consumer_tail := consumer_tail r + 1\<rparr>);
                     Some (Some value, r) } })"

fun lfr_enqueue_batch :: "'a list \<Rightarrow> 'a lock_free_ring \<Rightarrow> (usize \<times> 'a lock_free_ring) option" where
  "lfr_enqueue_batch [] r = Some (0, r)"
| "lfr_enqueue_batch (v # vs) r =
     do { (res, r) \<leftarrow> lfr_enqueue v r;
          case res of
            Inl _ \<Rightarrow> Some (0, r)
          | Inr _ \<Rightarrow> do { (count, r) \<leftarrow> lfr_enqueue_batch vs r; Some (Suc count, r) } }"

text \<open>The values written to the front of \<open>out\<close>, for an \<open>out\<close> of the given length.\<close>

fun lfr_dequeue_batch :: "nat \<Rightarrow> 'a lock_free_ring \<Rightarrow> ('a list \<times> 'a lock_free_ring) option" where
  "lfr_dequeue_batch 0 r = Some ([], r)"
| "lfr_dequeue_batch (Suc n) r =
     (if available_to_read r = 0 then Some ([], r)
      else do { (res, r) \<leftarrow> lfr_dequeue r;
                case res of
                  None \<Rightarrow> Some ([], r)
                | Some v \<Rightarrow> do { (vs, r) \<leftarrow> lfr_dequeue_batch n r; Some (v # vs, r) } })"


subsection \<open>Many threads\<close>

datatype 'a lf_pc =
    Idle
  | EnqLoadHead 'a | EnqLoadTail 'a u32 | EnqLoadSeq 'a u32 | EnqCas 'a u32
  | EnqWrite 'a u32 | EnqTail 'a u32 | EnqPublish 'a u32 | EnqOk | EnqFull 'a
  | DeqLoadHead | DeqLoadSeq u32 | DeqCas u32
  | DeqRead u32 | DeqTail u32 'a | DeqRelease u32 'a | DeqSome 'a | DeqNone

text \<open>One atomic access of a thread.  \<open>weak\<close> says that \<open>compare_exchange_weak\<close> fails spuriously.\<close>

fun pc_step :: "bool \<Rightarrow> 'a lock_free_ring \<Rightarrow> 'a lf_pc \<Rightarrow> ('a lock_free_ring \<times> 'a lf_pc) option" where
  "pc_step weak r (EnqLoadHead v) = Some (r, EnqLoadTail v (producer_head r))"
| "pc_step weak r (EnqLoadTail v h) =
     Some (r, if h - consumer_tail r \<ge> lfr_capacity r then EnqFull v else EnqLoadSeq v h)"
| "pc_step weak r (EnqLoadSeq v h) =
     do { q \<leftarrow> load_sequence r (slot_of r h); Some (r, if q \<noteq> h then EnqFull v else EnqCas v h) }"
| "pc_step weak r (EnqCas v h) =
     Some (if producer_head r = h \<and> \<not> weak then (r\<lparr>producer_head := h + 1\<rparr>, EnqWrite v h) else (r, EnqLoadHead v))"
| "pc_step weak r (EnqWrite v h) = do { r \<leftarrow> write_value (slot_of r h) v r; Some (r, EnqTail v h) }"
| "pc_step weak r (EnqTail v h) = Some (r\<lparr>producer_tail := producer_tail r + 1\<rparr>, EnqPublish v h)"
| "pc_step weak r (EnqPublish v h) = do { r \<leftarrow> store_sequence (slot_of r h) (h + 1) r; Some (r, EnqOk) }"
| "pc_step weak r DeqLoadHead = Some (r, DeqLoadSeq (consumer_head r))"
| "pc_step weak r (DeqLoadSeq h) =
     do { q \<leftarrow> load_sequence r (slot_of r h); Some (r, if q \<noteq> h + 1 then DeqNone else DeqCas h) }"
| "pc_step weak r (DeqCas h) =
     Some (if consumer_head r = h \<and> \<not> weak then (r\<lparr>consumer_head := h + 1\<rparr>, DeqRead h) else (r, DeqLoadHead))"
| "pc_step weak r (DeqRead h) = do { v \<leftarrow> read_value r (slot_of r h); Some (r, DeqTail h v) }"
| "pc_step weak r (DeqTail h v) = Some (r\<lparr>consumer_tail := consumer_tail r + 1\<rparr>, DeqRelease h v)"
| "pc_step weak r (DeqRelease h v) =
     do { r \<leftarrow> store_sequence (slot_of r h) (h + lfr_size r) r; Some (r, DeqSome v) }"
| "pc_step weak r pc = None"

fun lf_active :: "'a lf_pc \<Rightarrow> bool" where
  "lf_active Idle = False"
| "lf_active EnqOk = False"
| "lf_active (EnqFull v) = False"
| "lf_active (DeqSome v) = False"
| "lf_active DeqNone = False"
| "lf_active pc = True"

text \<open>The threads run on one ring.  Two histories are kept beside it: the values in the order in which
  their producers reserved a position, and the values handed out with the position each came from.\<close>

record 'a lf_system =
  sys_ring :: "'a lock_free_ring"
  sys_pc :: "nat \<Rightarrow> 'a lf_pc"
  sys_reserved :: "'a list"
  sys_taken :: "(nat \<times> 'a) list"

fun enq_event :: "'a lf_pc \<Rightarrow> 'a lf_pc \<Rightarrow> 'a list" where
  "enq_event (EnqCas v h) (EnqWrite v' h') = [v]"
| "enq_event pc pc' = []"

fun deq_event :: "'a lf_pc \<Rightarrow> 'a lf_pc \<Rightarrow> (nat \<times> 'a) list" where
  "deq_event (DeqRelease h v) (DeqSome v') = [(unat h, v)]"
| "deq_event pc pc' = []"

inductive lf_step :: "'a lf_system \<Rightarrow> 'a lf_system \<Rightarrow> bool" where
  call_enqueue: "\<not> lf_active (sys_pc s t) \<Longrightarrow> lf_step s (s\<lparr>sys_pc := (sys_pc s)(t := EnqLoadHead v)\<rparr>)"
| call_dequeue: "\<not> lf_active (sys_pc s t) \<Longrightarrow> lf_step s (s\<lparr>sys_pc := (sys_pc s)(t := DeqLoadHead)\<rparr>)"
| access: "pc_step weak (sys_ring s) (sys_pc s t) = Some (r, pc) \<Longrightarrow>
    lf_step s \<lparr>sys_ring = r, sys_pc = (sys_pc s)(t := pc),
      sys_reserved = sys_reserved s @ enq_event (sys_pc s t) pc,
      sys_taken = sys_taken s @ deq_event (sys_pc s t) pc\<rparr>"

definition lf_init :: "'a lock_free_ring \<Rightarrow> 'a lf_system" where
  "lf_init r = \<lparr>sys_ring = r, sys_pc = (\<lambda>_. Idle), sys_reserved = [], sys_taken = []\<rparr>"

inductive lf_reachable :: "usize \<Rightarrow> 'a lf_system \<Rightarrow> bool" where
  start: "lfr_with_capacity n = Inr r \<Longrightarrow> lf_reachable n (lf_init r)"
| step: "lf_reachable n s \<Longrightarrow> lf_step s s' \<Longrightarrow> lf_reachable n s'"


subsection \<open>Geometry\<close>

definition lfr_shape :: "nat \<Rightarrow> 'a lock_free_ring \<Rightarrow> bool" where
  "lfr_shape k r \<longleftrightarrow> 0 < k \<and> k < 32 \<and> lfr_size r = 2 ^ k \<and> lfr_mask r = 2 ^ k - 1 \<and> lfr_capacity r = 2 ^ k - 1 \<and>
     length (slot_sequence r) = 2 ^ k \<and> length (slot_value r) = 2 ^ k"

lemma with_capacity_ok_iff: "(\<exists>r. lfr_with_capacity n = Inr r) \<longleftrightarrow> (\<exists>k. 0 < k \<and> k < 32 \<and> n = 2 ^ k)"
proof -
  have l: "(2 :: nat) ^ k \<le> u32_max \<longleftrightarrow> k < 32" for k
    using power_strict_increasing_iff [of "2 :: nat" k 32] by (simp add: u32_max_def less_Suc_eq_le [symmetric])
  have b: "(2 :: nat) \<le> 2 ^ k \<longleftrightarrow> 0 < k" for k using power_increasing_iff [of "2 :: nat" 1 k] by simp linarith
  have "(\<exists>r. lfr_with_capacity n = Inr r) \<longleftrightarrow> 2 \<le> n \<and> (\<exists>k. n = 2 ^ k) \<and> n \<le> u32_max"
    unfolding lfr_with_capacity_def power_of_two_iff by (simp add: not_less)
  also have "\<dots> \<longleftrightarrow> (\<exists>k. 0 < k \<and> k < 32 \<and> n = 2 ^ k)" using l b by metis
  finally show ?thesis .
qed

lemma slot_of_mod: "lfr_shape k r \<Longrightarrow> slot_of r h = unat h mod 2 ^ k"
proof -
  assume "lfr_shape k r"
  then have m: "lfr_mask r = mask k" by (simp add: lfr_shape_def mask_eq_exp_minus_1)
  have "unat (take_bit k h) = take_bit k (unat h)" by (simp add: unsigned_take_bit_eq)
  then show ?thesis by (simp add: slot_of_def m take_bit_eq_mask [symmetric] take_bit_eq_mod)
qed

lemma slot_of_less: "lfr_shape k r \<Longrightarrow> slot_of r h < 2 ^ k"
  by (simp add: slot_of_mod)

lemma unat_pow2_u32: "k < 32 \<Longrightarrow> unat (2 ^ k :: u32) = 2 ^ k"
  using unat_of_nat_u32 [of "2 ^ k"] power_strict_increasing_iff [of "2 :: nat" k 32] by simp

subsection \<open>What the threads keep\<close>

text \<open>
  Positions are counted from 0 without wrapping: \<open>log\<close> holds the reserved values by position, \<open>C\<close> is the number
  of positions reserved by consumers, \<open>q\<close> and \<open>val\<close> are sequence number and value by slot.  A slot serves one
  position \<open>t\<close> at a time: with sequence \<open>t\<close> it is free or being written, with \<open>t + 1\<close> it holds the value of \<open>t\<close>.
\<close>

definition serves :: "nat \<Rightarrow> nat \<Rightarrow> 'a list \<Rightarrow> nat \<Rightarrow> nat \<Rightarrow> 'a option \<Rightarrow> bool" where
  "serves N C log j s v \<longleftrightarrow>
     (\<exists>t. t mod N = j \<and> length log \<le> t + N \<and> t < length log + N \<and>
        (s = t \<and> C \<le> t \<or> s = Suc t \<and> t < length log \<and> v = Some (log ! t)))"

fun writing :: "'a lf_pc \<Rightarrow> nat option" where
  "writing (EnqWrite v h) = Some (unat h)"
| "writing (EnqTail v h) = Some (unat h)"
| "writing (EnqPublish v h) = Some (unat h)"
| "writing pc = None"

fun reading :: "'a lf_pc \<Rightarrow> nat option" where
  "reading (DeqRead h) = Some (unat h)"
| "reading (DeqTail h v) = Some (unat h)"
| "reading (DeqRelease h v) = Some (unat h)"
| "reading pc = None"

fun pc_ok :: "nat \<Rightarrow> nat \<Rightarrow> 'a list \<Rightarrow> (nat \<Rightarrow> nat) \<Rightarrow> (nat \<Rightarrow> 'a option) \<Rightarrow> 'a lf_pc \<Rightarrow> bool" where
  "pc_ok N C log q val (EnqLoadTail v h) \<longleftrightarrow> unat h \<le> length log"
| "pc_ok N C log q val (EnqLoadSeq v h) \<longleftrightarrow> unat h \<le> length log"
| "pc_ok N C log q val (EnqCas v h) \<longleftrightarrow>
     unat h \<le> length log \<and> (unat h = length log \<longrightarrow> q (unat h mod N) = unat h)"
| "pc_ok N C log q val (EnqWrite v h) \<longleftrightarrow> unat h < length log \<and> log ! unat h = v \<and> q (unat h mod N) = unat h"
| "pc_ok N C log q val (EnqTail v h) \<longleftrightarrow>
     unat h < length log \<and> log ! unat h = v \<and> q (unat h mod N) = unat h \<and> val (unat h mod N) = Some v"
| "pc_ok N C log q val (EnqPublish v h) \<longleftrightarrow>
     unat h < length log \<and> log ! unat h = v \<and> q (unat h mod N) = unat h \<and> val (unat h mod N) = Some v"
| "pc_ok N C log q val (DeqLoadSeq h) \<longleftrightarrow> unat h \<le> C"
| "pc_ok N C log q val (DeqCas h) \<longleftrightarrow> unat h \<le> C \<and> (unat h = C \<longrightarrow> q (unat h mod N) = Suc (unat h))"
| "pc_ok N C log q val (DeqRead h) \<longleftrightarrow> unat h < C \<and> q (unat h mod N) = Suc (unat h)"
| "pc_ok N C log q val (DeqTail h v) \<longleftrightarrow> unat h < C \<and> q (unat h mod N) = Suc (unat h) \<and> log ! unat h = v"
| "pc_ok N C log q val (DeqRelease h v) \<longleftrightarrow> unat h < C \<and> q (unat h mod N) = Suc (unat h) \<and> log ! unat h = v"
| "pc_ok N C log q val pc \<longleftrightarrow> True"

definition exclusive :: "(nat \<Rightarrow> nat option) \<Rightarrow> bool" where
  "exclusive f \<longleftrightarrow> (\<forall>t t' h. f t = Some h \<longrightarrow> f t' = Some h \<longrightarrow> t = t')"

text \<open>Positions reserved by producers and not yet by consumers: published, or in the hands of one thread.\<close>

definition writers :: "nat \<Rightarrow> nat \<Rightarrow> nat \<Rightarrow> (nat \<Rightarrow> nat) \<Rightarrow> (nat \<Rightarrow> nat option) \<Rightarrow> bool" where
  "writers N C P q W \<longleftrightarrow> exclusive W \<and>
     (\<forall>h. C \<le> h \<and> h < P \<longrightarrow> q (h mod N) = Suc h \<or> (\<exists>t. W t = Some h))"

text \<open>Positions reserved by consumers: handed out once, or in the hands of one thread.\<close>

definition readers :: "nat \<Rightarrow> 'a list \<Rightarrow> (nat \<Rightarrow> nat option) \<Rightarrow> (nat \<times> 'a) list \<Rightarrow> bool" where
  "readers C log R taken \<longleftrightarrow> exclusive R \<and> distinct (map fst taken) \<and>
     (\<forall>h < C. h \<in> fst ` set taken \<or> (\<exists>t. R t = Some h)) \<and>
     (\<forall>h v. (h, v) \<in> set taken \<longrightarrow> h < C \<and> log ! h = v \<and> (\<forall>t. R t \<noteq> Some h))"

definition lf_ok ::
  "nat \<Rightarrow> nat \<Rightarrow> 'a list \<Rightarrow> (nat \<Rightarrow> nat) \<Rightarrow> (nat \<Rightarrow> 'a option) \<Rightarrow> (nat \<Rightarrow> 'a lf_pc) \<Rightarrow> (nat \<times> 'a) list \<Rightarrow> bool" where
  "lf_ok N C log q val pcs taken \<longleftrightarrow>
     C \<le> length log \<and> (\<forall>j < N. serves N C log j (q j) (val j)) \<and> (\<forall>t. pc_ok N C log q val (pcs t)) \<and>
     writers N C (length log) q (writing \<circ> pcs) \<and> readers C log (reading \<circ> pcs) taken"

lemma lf_okD:
  assumes "lf_ok N C log q val pcs taken"
  shows "C \<le> length log" "\<And>j. j < N \<Longrightarrow> serves N C log j (q j) (val j)" "\<And>t. pc_ok N C log q val (pcs t)"
    "writers N C (length log) q (writing \<circ> pcs)" "readers C log (reading \<circ> pcs) taken"
  using assms unfolding lf_ok_def by simp_all

lemma lf_okI:
  assumes "C \<le> length log" "\<And>j. j < N \<Longrightarrow> serves N C log j (q j) (val j)" "\<And>t. pc_ok N C log q val (pcs t)"
    "writers N C (length log) q (writing \<circ> pcs)" "readers C log (reading \<circ> pcs) taken"
  shows "lf_ok N C log q val pcs taken"
  using assms unfolding lf_ok_def by simp

lemma exclusiveD: "exclusive f \<Longrightarrow> f t = Some h \<Longrightarrow> f t' = Some h \<Longrightarrow> t = t'"
  by (auto simp: exclusive_def)

lemma exclusive_drop: "exclusive f \<Longrightarrow> exclusive (f(t := None))"
  by (auto simp: exclusive_def)

lemma exclusive_new: "exclusive f \<Longrightarrow> (\<And>t. f t \<noteq> Some h) \<Longrightarrow> exclusive (f(t := Some h))"
  by (auto simp: exclusive_def)

lemma comp_upd: "f \<circ> pcs(t := pc) = (f \<circ> pcs)(t := f pc)"
  by auto

lemma comp_upd_same: "f pc = f (pcs t) \<Longrightarrow> f \<circ> pcs(t := pc) = f \<circ> pcs"
  by (auto simp: comp_upd)

lemma mod_Suc_neq: "2 \<le> N \<Longrightarrow> Suc h mod N \<noteq> h mod N"
  by (simp add: mod_Suc)

text \<open>A thread whose step touches neither slots nor positions.\<close>

lemma lf_ok_local:
  assumes ok: "lf_ok N C log q val pcs taken" and p: "pc_ok N C log q val pc"
    and w: "writing pc = writing (pcs t)" and r: "reading pc = reading (pcs t)"
  shows "lf_ok N C log q val (pcs(t := pc)) taken"
  by (rule lf_okI) (use lf_okD [OF ok] p comp_upd_same [of writing pc pcs t, OF w] comp_upd_same [of reading pc pcs t, OF r] in simp_all)

text \<open>What a position in progress says about its slot.\<close>

lemma writing_slot:
  "pc_ok N C log q val pc \<Longrightarrow> writing pc = Some h \<Longrightarrow> h < length log \<and> q (h mod N) = h"
  by (cases pc) auto

lemma reading_slot:
  "pc_ok N C log q val pc \<Longrightarrow> reading pc = Some h \<Longrightarrow> h < C \<and> q (h mod N) = Suc h"
  by (cases pc) auto

text \<open>A thread keeps its part when the positions advance and no slot it holds is touched.\<close>

lemma pc_ok_log: "C \<le> length log \<Longrightarrow> pc_ok N C log q val pc \<Longrightarrow> pc_ok N C (log @ [v]) q val pc"
  by (cases pc) (auto simp: nth_append)

lemma pc_ok_C: "pc_ok N C log q val pc \<Longrightarrow> pc_ok N (Suc C) log q val pc"
  by (cases pc) auto

lemma pc_ok_val:
  assumes "pc_ok N C log q val pc" "q j = i" "\<And>h. writing pc = Some h \<Longrightarrow> h \<noteq> i"
  shows "pc_ok N C log q (val(j := x)) pc"
  using assms by (cases pc) auto

lemma pc_ok_q:
  assumes ok: "pc_ok N C log q val pc"
    and w: "\<And>h. writing pc = Some h \<or> h = length log \<Longrightarrow> q (h mod N) = h \<Longrightarrow> q' (h mod N) = h"
    and r: "\<And>h. reading pc = Some h \<or> h = C \<Longrightarrow> q (h mod N) = Suc h \<Longrightarrow> q' (h mod N) = Suc h"
  shows "pc_ok N C log q' val pc"
proof (cases pc)
  case (EnqCas v h)
  then show ?thesis using ok w [of "unat h"] by simp
next
  case (EnqWrite v h)
  then show ?thesis using ok w [of "unat h"] by simp
next
  case (EnqTail v h)
  then show ?thesis using ok w [of "unat h"] by simp
next
  case (EnqPublish v h)
  then show ?thesis using ok w [of "unat h"] by simp
next
  case (DeqCas h)
  then show ?thesis using ok r [of "unat h"] by simp
next
  case (DeqRead h)
  then show ?thesis using ok r [of "unat h"] by simp
next
  case (DeqTail h v)
  then show ?thesis using ok r [of "unat h"] by simp
next
  case (DeqRelease h v)
  then show ?thesis using ok r [of "unat h"] by simp
qed (use ok in simp_all)

lemma pc_ok_publish:
  assumes ok: "pc_ok N C log q val pc" and N: "2 \<le> N" and i: "i < length log" "q (i mod N) = i"
    and w: "writing pc \<noteq> Some i"
  shows "pc_ok N C log (q(i mod N := s)) val pc"
proof (rule pc_ok_q [OF ok], goal_cases)
  case (1 h)
  have "h mod N \<noteq> i mod N" using 1 i w by (metis less_irrefl)
  then show ?case using 1 by simp
next
  case (2 h)
  have "h mod N \<noteq> i mod N" using 2(2) i(2) mod_Suc_neq [OF N, of h] by metis
  then show ?case using 2 by simp
qed

lemma pc_ok_release:
  assumes ok: "pc_ok N C log q val pc" and N: "2 \<le> N" and i: "i < C" "q (i mod N) = Suc i"
    and r: "reading pc \<noteq> Some i"
  shows "pc_ok N C log (q(i mod N := s)) val pc"
proof (rule pc_ok_q [OF ok], goal_cases)
  case (1 h)
  have "h mod N \<noteq> i mod N" using 1(2) i(2) mod_Suc_neq [OF N, of i] by metis
  then show ?case using 1 by simp
next
  case (2 h)
  have "h mod N \<noteq> i mod N" using 2 i r by (metis nat.inject less_irrefl)
  then show ?case using 2 by simp
qed

lemma readersD:
  assumes "readers C log R taken"
  shows "exclusive R" "distinct (map fst taken)" "\<And>h. h < C \<Longrightarrow> h \<in> fst ` set taken \<or> (\<exists>t. R t = Some h)"
    "\<And>h v. (h, v) \<in> set taken \<Longrightarrow> h < C \<and> log ! h = v \<and> (\<forall>t. R t \<noteq> Some h)"
  using assms unfolding readers_def by simp_all

lemma readersI:
  assumes "exclusive R" "distinct (map fst taken)" "\<And>h. h < C \<Longrightarrow> h \<in> fst ` set taken \<or> (\<exists>t. R t = Some h)"
    "\<And>h v. (h, v) \<in> set taken \<Longrightarrow> h < C \<and> log ! h = v \<and> (\<forall>t. R t \<noteq> Some h)"
  shows "readers C log R taken"
  using assms unfolding readers_def by simp

lemma writersI:
  assumes "exclusive W" "\<And>h. C \<le> h \<Longrightarrow> h < P \<Longrightarrow> q (h mod N) = Suc h \<or> (\<exists>t. W t = Some h)"
  shows "writers N C P q W"
  using assms unfolding writers_def by simp

lemma writersD:
  assumes "writers N C P q W"
  shows "exclusive W" "\<And>h. C \<le> h \<Longrightarrow> h < P \<Longrightarrow> q (h mod N) = Suc h \<or> (\<exists>t. W t = Some h)"
  using assms unfolding writers_def by simp_all

lemma readers_log: "C \<le> length log \<Longrightarrow> readers C log R taken \<Longrightarrow> readers C (log @ [v]) R taken"
  by (fastforce simp: readers_def nth_append)

lemma readers_take:
  assumes r: "readers C log R taken" and n: "R t = None" "\<And>u. R u \<noteq> Some C"
  shows "readers (Suc C) log (R(t := Some C)) taken"
proof -
  have "exclusive (R(t := Some C))" using r n by (auto simp: readers_def intro: exclusive_new)
  moreover have "h \<in> fst ` set taken \<or> (\<exists>u. (R(t := Some C)) u = Some h)" if h: "h < Suc C" for h
  proof (cases "h = C")
    case False
    then consider "h \<in> fst ` set taken" | u where "R u = Some h" using readersD(3) [OF r, of h] h by force
    then show ?thesis
    proof cases
      case (2 u)
      then have "(R(t := Some C)) u = Some h" using n by auto
      then show ?thesis by blast
    qed simp
  qed auto
  moreover have "h < Suc C \<and> log ! h = v \<and> (\<forall>u. (R(t := Some C)) u \<noteq> Some h)" if "(h, v) \<in> set taken" for h v
    using readersD(4) [OF r that] by auto
  ultimately show ?thesis using readersD(2) [OF r] by (intro readersI)
qed

lemma readers_release:
  assumes r: "readers C log R taken" and t: "R t = Some i" "i < C"
  shows "readers C log (R(t := None)) (taken @ [(i, log ! i)])"
proof -
  note x = readersD(1,2) [OF r]
  have ni: "i \<notin> fst ` set taken"
  proof
    assume "i \<in> fst ` set taken"
    then obtain v where "(i, v) \<in> set taken" by auto
    then show False using readersD(4) [OF r, of i v] t(1) by simp
  qed
  moreover have "h \<in> fst ` set (taken @ [(i, log ! i)]) \<or> (\<exists>u. (R(t := None)) u = Some h)" if "h < C" for h
  proof (cases "h = i")
    case False
    then consider "h \<in> fst ` set taken" | u where "R u = Some h" using readersD(3) [OF r \<open>h < C\<close>] by blast
    then show ?thesis
    proof cases
      case (2 u)
      then have "(R(t := None)) u = Some h" using t False by auto
      then show ?thesis by blast
    qed simp
  qed simp
  moreover have "h < C \<and> log ! h = v \<and> (\<forall>u. (R(t := None)) u \<noteq> Some h)" if "(h, v) \<in> set (taken @ [(i, log ! i)])" for h v
  proof (cases "(h, v) \<in> set taken")
    case True
    then show ?thesis using readersD(4) [OF r True] by simp
  next
    case False
    then have "h = i" "v = log ! i" using that by auto
    moreover have "R u \<noteq> Some i" if "u \<noteq> t" for u using exclusiveD [OF x(1) t(1), of u] that by blast
    ultimately show ?thesis using t by simp
  qed
  moreover have "distinct (map fst (taken @ [(i, log ! i)]))" using ni x(2) by simp
  ultimately show ?thesis using exclusive_drop [OF x(1)] by (intro readersI)
qed

lemma writers_reserve:
  assumes w: "writers N C P q W" and n: "W t = None" "\<And>u. W u \<noteq> Some P"
  shows "writers N C (Suc P) q (W(t := Some P))"
proof -
  have "q (h mod N) = Suc h \<or> (\<exists>u. (W(t := Some P)) u = Some h)" if h: "C \<le> h" "h < Suc P" for h
  proof (cases "h = P")
    case False
    then consider "q (h mod N) = Suc h" | u where "W u = Some h" using writersD(2) [OF w, of h] h by force
    then show ?thesis
    proof cases
      case (2 u)
      then have "(W(t := Some P)) u = Some h" using n by auto
      then show ?thesis by blast
    qed simp
  qed auto
  moreover have "exclusive (W(t := Some P))" using w n by (auto simp: writers_def intro: exclusive_new)
  ultimately show ?thesis by (intro writersI)
qed

lemma writers_publish:
  assumes w: "writers N C P q W" and N: "2 \<le> N" and t: "W t = Some i" "q (i mod N) = i"
  shows "writers N C P (q(i mod N := Suc i)) (W(t := None))"
proof -
  have "(q(i mod N := Suc i)) (h mod N) = Suc h \<or> (\<exists>u. (W(t := None)) u = Some h)" if h: "C \<le> h" "h < P" for h
  proof (cases "h = i")
    case False
    consider "q (h mod N) = Suc h" | u where "W u = Some h" using writersD(2) [OF w h] by blast
    then show ?thesis
    proof cases
      case 1
      then have "h mod N \<noteq> i mod N" using t(2) mod_Suc_neq [OF N, of h] by metis
      then show ?thesis using 1 by simp
    next
      case (2 u)
      then have "(W(t := None)) u = Some h" using t False by auto
      then show ?thesis by blast
    qed
  qed simp
  then show ?thesis using exclusive_drop [OF writersD(1) [OF w]] by (intro writersI)
qed

lemma writers_release:
  assumes w: "writers N C P q W" and i: "i < C" "q (i mod N) = Suc i"
  shows "writers N C P (q(i mod N := s)) W"
proof -
  have "(q(i mod N := s)) (h mod N) = Suc h \<or> (\<exists>u. W u = Some h)" if h: "C \<le> h" "h < P" for h
  proof (cases "h mod N = i mod N")
    case True
    then have "q (h mod N) \<noteq> Suc h" using i h by simp
    then show ?thesis using writersD(2) [OF w h] by blast
  next
    case False
    then show ?thesis using writersD(2) [OF w h] by simp
  qed
  then show ?thesis using writersD(1) [OF w] by (intro writersI)
qed

lemma writers_take: "writers N C P q W \<Longrightarrow> writers N (Suc C) P q W"
  by (simp add: writers_def)


subsection \<open>The five accesses that move a position\<close>

lemma servesE:
  assumes "serves N C log j s v"
  obtains t where "t mod N = j" "length log \<le> t + N" "t < length log + N" "s = t" "C \<le> t"
  | t where "t mod N = j" "length log \<le> t + N" "s = Suc t" "t < length log" "v = Some (log ! t)"
  using assms unfolding serves_def by blast

lemma servesI_free: "t mod N = j \<Longrightarrow> length log \<le> t + N \<Longrightarrow> t < length log + N \<Longrightarrow> C \<le> t \<Longrightarrow> serves N C log j t v"
  unfolding serves_def by blast

lemma servesI_held:
  "t mod N = j \<Longrightarrow> length log \<le> t + N \<Longrightarrow> t < length log \<Longrightarrow> v = Some (log ! t) \<Longrightarrow> serves N C log j (Suc t) v"
  unfolding serves_def by (intro exI [of _ t]) simp

text \<open>The slot of a position with its sequence number is free for it; with the next one it holds its value.\<close>

lemma serves_own: "2 \<le> N \<Longrightarrow> serves N C log (h mod N) h v \<Longrightarrow> C \<le> h \<and> length log \<le> h + N \<and> h < length log + N"
  by (erule servesE) (use mod_Suc_neq in \<open>simp_all, metis\<close>)

lemma serves_next:
  "2 \<le> N \<Longrightarrow> serves N C log (h mod N) (Suc h) v \<Longrightarrow> h < length log \<and> length log \<le> h + N \<and> v = Some (log ! h)"
  by (erule servesE) (use mod_Suc_neq in \<open>simp_all, metis\<close>)

lemma lf_ok_reserve:
  assumes ok: "lf_ok N C log q val pcs taken" and N: "2 \<le> N" and p: "pcs t = EnqCas v h" "unat h = length log"
  shows "lf_ok N C (log @ [v]) q val (pcs(t := EnqWrite v h)) taken"
proof (rule lf_okI)
  let ?P = "length log"
  have qP: "q (?P mod N) = ?P" using lf_okD(3) [OF ok, of t] p by simp
  show "C \<le> length (log @ [v])" using lf_okD(1) [OF ok] by simp
  show "pc_ok N C (log @ [v]) q val ((pcs(t := EnqWrite v h)) u)" for u
    using pc_ok_log [OF lf_okD(1) [OF ok] lf_okD(3) [OF ok, of u]] p(2) qP by (simp add: nth_append)
  show "serves N C (log @ [v]) j (q j) (val j)" if "j < N" for j
    using lf_okD(2) [OF ok that]
  proof (cases rule: servesE)
    case (1 u)
    have "?P \<noteq> u + N"
    proof
      assume "?P = u + N"
      then have "u = u + N" using qP 1(1,4) by simp
      then show False using N by simp
    qed
    then show ?thesis unfolding 1(4) using 1 by (intro servesI_free) simp_all
  next
    case (2 u)
    have "?P \<noteq> u + N"
    proof
      assume "?P = u + N"
      then have "Suc u = u + N" using qP 2(1,3) by simp
      then show False using N by simp
    qed
    then show ?thesis unfolding 2(3) using 2 by (intro servesI_held) (simp_all add: nth_append)
  qed
  have "writing (pcs u) \<noteq> Some ?P" for u using writing_slot [OF lf_okD(3) [OF ok], of u ?P] by blast
  then show "writers N C (length (log @ [v])) q (writing \<circ> pcs(t := EnqWrite v h))"
    using writers_reserve [OF lf_okD(4) [OF ok], of t] p by (simp add: comp_upd)
  show "readers C (log @ [v]) (reading \<circ> pcs(t := EnqWrite v h)) taken"
    using readers_log [OF lf_okD(1,5) [OF ok]] p comp_upd_same [of reading "EnqWrite v h" pcs t] by simp
qed

lemma lf_ok_write:
  assumes ok: "lf_ok N C log q val pcs taken" and N: "2 \<le> N" and p: "pcs t = EnqWrite v h"
  shows "lf_ok N C log q (val(unat h mod N := Some v)) (pcs(t := EnqTail v h)) taken"
proof (rule lf_okI)
  let ?h = "unat h"
  have h: "?h < length log" "log ! ?h = v" "q (?h mod N) = ?h" using lf_okD(3) [OF ok, of t] p by simp_all
  have w: "writing (pcs u) \<noteq> Some ?h" if "u \<noteq> t" for u
    using exclusiveD [OF writersD(1) [OF lf_okD(4) [OF ok]], of u ?h t] that p by auto
  show "pc_ok N C log q (val(?h mod N := Some v)) ((pcs(t := EnqTail v h)) u)" for u
    using pc_ok_val [OF lf_okD(3) [OF ok, of u] h(3)] w [of u] h by (cases "u = t") auto
  show "serves N C log j (q j) ((val(?h mod N := Some v)) j)" if j: "j < N" for j
  proof (cases "j = ?h mod N")
    case True
    then have "serves N C log (?h mod N) ?h (val j)" using lf_okD(2) [OF ok j] h(3) by simp
    from serves_own [OF N this] show ?thesis unfolding True h(3) by (intro servesI_free) simp_all
  next
    case False
    then show ?thesis using lf_okD(2) [OF ok j] by simp
  qed
  show "writers N C (length log) q (writing \<circ> pcs(t := EnqTail v h))"
    "readers C log (reading \<circ> pcs(t := EnqTail v h)) taken"
    using lf_okD(4,5) [OF ok] p comp_upd_same [of writing "EnqTail v h" pcs t] comp_upd_same [of reading "EnqTail v h" pcs t]
    by simp_all
qed (rule lf_okD(1) [OF ok])

lemma lf_ok_publish:
  assumes ok: "lf_ok N C log q val pcs taken" and N: "2 \<le> N" and p: "pcs t = EnqPublish v h"
  shows "lf_ok N C log (q(unat h mod N := Suc (unat h))) val (pcs(t := EnqOk)) taken"
proof (rule lf_okI)
  let ?h = "unat h"
  have h: "?h < length log" "log ! ?h = v" "q (?h mod N) = ?h" "val (?h mod N) = Some v"
    using lf_okD(3) [OF ok, of t] p by simp_all
  have w: "writing (pcs u) \<noteq> Some ?h" if "u \<noteq> t" for u
    using exclusiveD [OF writersD(1) [OF lf_okD(4) [OF ok]], of u ?h t] that p by auto
  show "pc_ok N C log (q(?h mod N := Suc ?h)) val ((pcs(t := EnqOk)) u)" for u
    using pc_ok_publish [OF lf_okD(3) [OF ok, of u] N h(1,3)] w [of u] by (cases "u = t") simp_all
  show "serves N C log j ((q(?h mod N := Suc ?h)) j) (val j)" if j: "j < N" for j
  proof (cases "j = ?h mod N")
    case True
    then have "serves N C log (?h mod N) ?h (val j)" using lf_okD(2) [OF ok j] h(3) by simp
    from serves_own [OF N this] have "serves N C log (?h mod N) (Suc ?h) (val (?h mod N))"
      using h by (intro servesI_held) simp_all
    then show ?thesis using True by simp
  next
    case False
    then show ?thesis using lf_okD(2) [OF ok j] by simp
  qed
  show "writers N C (length log) (q(?h mod N := Suc ?h)) (writing \<circ> pcs(t := EnqOk))"
    using writers_publish [OF lf_okD(4) [OF ok] N _ h(3), of t] p by (simp add: comp_upd)
  show "readers C log (reading \<circ> pcs(t := EnqOk)) taken"
    using lf_okD(5) [OF ok] p comp_upd_same [of reading EnqOk pcs t] by simp
qed (rule lf_okD(1) [OF ok])

lemma lf_ok_take:
  assumes ok: "lf_ok N C log q val pcs taken" and N: "2 \<le> N" and p: "pcs t = DeqCas h" "unat h = C"
  shows "lf_ok N (Suc C) log q val (pcs(t := DeqRead h)) taken"
proof (rule lf_okI)
  have qC: "q (C mod N) = Suc C" using lf_okD(3) [OF ok, of t] p by simp
  have "serves N C log (C mod N) (Suc C) (val (C mod N))" using lf_okD(2) [OF ok, of "C mod N"] N qC by simp
  from serves_next [OF N this] show "Suc C \<le> length log" by simp
  show "pc_ok N (Suc C) log q val ((pcs(t := DeqRead h)) u)" for u
    using pc_ok_C [OF lf_okD(3) [OF ok, of u]] p qC by simp
  show "serves N (Suc C) log j (q j) (val j)" if "j < N" for j
    using lf_okD(2) [OF ok that]
  proof (cases rule: servesE)
    case (1 u)
    then have "u \<noteq> C" using qC by auto
    then show ?thesis unfolding 1(4) using 1 by (intro servesI_free) simp_all
  next
    case (2 u)
    then show ?thesis unfolding 2(3) using 2 by (intro servesI_held)
  qed
  show "writers N (Suc C) (length log) q (writing \<circ> pcs(t := DeqRead h))"
    using writers_take [OF lf_okD(4) [OF ok]] p comp_upd_same [of writing "DeqRead h" pcs t] by simp
  have "reading (pcs u) \<noteq> Some C" for u using reading_slot [OF lf_okD(3) [OF ok], of u C] by blast
  then show "readers (Suc C) log (reading \<circ> pcs(t := DeqRead h)) taken"
    using readers_take [OF lf_okD(5) [OF ok], of t] p by (simp add: comp_upd)
qed

lemma lf_ok_release:
  assumes ok: "lf_ok N C log q val pcs taken" and N: "2 \<le> N" and p: "pcs t = DeqRelease h v"
  shows "lf_ok N C log (q(unat h mod N := unat h + N)) val (pcs(t := DeqSome v)) (taken @ [(unat h, v)])"
proof (rule lf_okI)
  let ?h = "unat h"
  have h: "?h < C" "q (?h mod N) = Suc ?h" "log ! ?h = v" using lf_okD(3) [OF ok, of t] p by simp_all
  have r: "reading (pcs u) \<noteq> Some ?h" if "u \<noteq> t" for u
    using exclusiveD [OF readersD(1) [OF lf_okD(5) [OF ok]], of u ?h t] that p by auto
  show "pc_ok N C log (q(?h mod N := ?h + N)) val ((pcs(t := DeqSome v)) u)" for u
    using pc_ok_release [OF lf_okD(3) [OF ok, of u] N h(1,2)] r [of u] by (cases "u = t") simp_all
  show "serves N C log j ((q(?h mod N := ?h + N)) j) (val j)" if j: "j < N" for j
  proof (cases "j = ?h mod N")
    case True
    then have "serves N C log (?h mod N) (Suc ?h) (val j)" using lf_okD(2) [OF ok j] h(2) by simp
    from serves_next [OF N this] have "serves N C log (?h mod N) (?h + N) (val j)"
      using lf_okD(1) [OF ok] by (intro servesI_free) simp_all
    then show ?thesis using True by simp
  next
    case False
    then show ?thesis using lf_okD(2) [OF ok j] by simp
  qed
  show "writers N C (length log) (q(?h mod N := ?h + N)) (writing \<circ> pcs(t := DeqSome v))"
    using writers_release [OF lf_okD(4) [OF ok] h(1,2)] p comp_upd_same [of writing "DeqSome v" pcs t] by simp
  show "readers C log (reading \<circ> pcs(t := DeqSome v)) (taken @ [(?h, v)])"
    using readers_release [OF lf_okD(5) [OF ok] _ h(1), of t] p h(3) by (simp add: comp_upd)
qed (rule lf_okD(1) [OF ok])

lemma lf_ok_value:
  assumes ok: "lf_ok N C log q val pcs taken" and N: "2 \<le> N" and p: "pcs t = DeqRead h"
  shows "val (unat h mod N) = Some (log ! unat h)"
proof -
  have "q (unat h mod N) = Suc (unat h)" using lf_okD(3) [OF ok, of t] p by simp
  then have "serves N C log (unat h mod N) (Suc (unat h)) (val (unat h mod N))"
    using lf_okD(2) [OF ok, of "unat h mod N"] N by simp
  from serves_next [OF N this] show ?thesis by simp
qed


subsection \<open>Every interleaving\<close>

definition lf_inv :: "nat \<Rightarrow> 'a lf_system \<Rightarrow> bool" where
  "lf_inv k s \<longleftrightarrow>
     (let r = sys_ring s in
      lfr_shape k r \<and> unat (producer_head r) = length (sys_reserved s) \<and>
      lf_ok (2 ^ k) (unat (consumer_head r)) (sys_reserved s) (\<lambda>j. unat (slot_sequence r ! j)) (\<lambda>j. slot_value r ! j)
        (sys_pc s) (sys_taken s))"

lemma lf_invD:
  assumes "lf_inv k s"
  shows "lfr_shape k (sys_ring s)" "unat (producer_head (sys_ring s)) = length (sys_reserved s)"
    "lf_ok (2 ^ k) (unat (consumer_head (sys_ring s))) (sys_reserved s) (\<lambda>j. unat (slot_sequence (sys_ring s) ! j))
       (\<lambda>j. slot_value (sys_ring s) ! j) (sys_pc s) (sys_taken s)"
  using assms unfolding lf_inv_def Let_def by simp_all

lemma lfr_shapeD:
  assumes "lfr_shape k r"
  shows "2 \<le> (2 :: nat) ^ k" "(2 :: nat) ^ k < 2 ^ 32" "lfr_size r = 2 ^ k" "length (slot_sequence r) = 2 ^ k"
    "length (slot_value r) = 2 ^ k"
proof -
  have k: "1 \<le> k" "k < 32" using assms by (simp_all add: lfr_shape_def)
  show "2 \<le> (2 :: nat) ^ k" using power_increasing [OF k(1), of "2 :: nat"] by simp
  show "(2 :: nat) ^ k < 2 ^ 32" using k(2) by (intro power_strict_increasing) simp_all
qed (use assms in \<open>simp_all add: lfr_shape_def\<close>)

lemma unat_plus1_u32: "unat (h :: u32) < 2 ^ 32 - 1 \<Longrightarrow> unat (h + 1) = Suc (unat h)"
  using unat_of_nat_u32 [of "Suc (unat h)"] by (simp add: add.commute)

lemma unat_plus_pow2_u32:
  assumes "k < 32" "unat (h :: u32) + 2 ^ k < 2 ^ 32"
  shows "unat (h + 2 ^ k) = unat h + 2 ^ k"
  using unat_of_nat_u32 [of "unat h + 2 ^ k"] assms by simp

lemma nth_upd_fun: "i < length xs \<Longrightarrow> (\<lambda>j. f (xs[i := w] ! j)) = (\<lambda>j. f (xs ! j))(i := f w)"
  by (auto simp: nth_list_update)

text \<open>A step of one thread that leaves slots and heads alone.\<close>

lemma lf_inv_local:
  assumes inv: "lf_inv k s"
    and same: "lfr_shape k r" "producer_head r = producer_head (sys_ring s)" "consumer_head r = consumer_head (sys_ring s)"
      "slot_sequence r = slot_sequence (sys_ring s)" "slot_value r = slot_value (sys_ring s)"
    and pc: "pc_ok (2 ^ k) (unat (consumer_head (sys_ring s))) (sys_reserved s) (\<lambda>j. unat (slot_sequence (sys_ring s) ! j))
        (\<lambda>j. slot_value (sys_ring s) ! j) pc"
      "writing pc = writing (sys_pc s t)" "reading pc = reading (sys_pc s t)"
  shows "lf_inv k \<lparr>sys_ring = r, sys_pc = (sys_pc s)(t := pc), sys_reserved = sys_reserved s, sys_taken = sys_taken s\<rparr>"
  using same lf_invD(2) [OF inv] lf_ok_local [OF lf_invD(3) [OF inv] pc] unfolding lf_inv_def Let_def by simp

lemma lf_inv_access:
  assumes inv: "lf_inv k s" and st: "pc_step weak (sys_ring s) (sys_pc s t) = Some (r, pc)"
    and bound: "length (sys_reserved s @ enq_event (sys_pc s t) pc) + 2 ^ k < 2 ^ 32"
  shows "lf_inv k \<lparr>sys_ring = r, sys_pc = (sys_pc s)(t := pc), sys_reserved = sys_reserved s @ enq_event (sys_pc s t) pc,
    sys_taken = sys_taken s @ deq_event (sys_pc s t) pc\<rparr>"
proof -
  let ?r = "sys_ring s"
  note sh = lf_invD(1) [OF inv] and P = lf_invD(2) [OF inv] and ok = lf_invD(3) [OF inv]
  note N = lfr_shapeD [OF sh] and C = lf_okD(1) [OF ok] and me = lf_okD(3) [OF ok, of t]
  note slot = slot_of_mod [OF sh] slot_of_less [OF sh]
  note local = lf_inv_local [OF inv, of r pc t]
  have b: "length (sys_reserved s) < 2 ^ 32 - 1" "length (sys_reserved s) + 2 ^ k < 2 ^ 32"
    using bound N(1) by simp_all
  have seq: "load_sequence ?r (slot_of ?r h) = Some (slot_sequence ?r ! (unat h mod 2 ^ k))" for h
    using slot N by (simp add: load_sequence_def)
  show ?thesis
  proof (cases "sys_pc s t")
    case (EnqLoadHead v)
    then show ?thesis using st local sh P by auto
  next
    case (EnqLoadTail v h)
    then show ?thesis using st local sh me by (auto split: if_splits)
  next
    case (EnqLoadSeq v h)
    note q = seq [of h]
    show ?thesis
    proof (cases "slot_sequence ?r ! (unat h mod 2 ^ k) = h")
      case True
      then have "pc_ok (2 ^ k) (unat (consumer_head ?r)) (sys_reserved s) (\<lambda>j. unat (slot_sequence ?r ! j))
          (\<lambda>j. slot_value ?r ! j) (EnqCas v h)" using me EnqLoadSeq by auto
      then show ?thesis using st EnqLoadSeq local sh q True by auto
    next
      case False
      then show ?thesis using st EnqLoadSeq local sh q by auto
    qed
  next
    case (EnqCas v h)
    show ?thesis
    proof (cases "producer_head ?r = h \<and> \<not> weak")
      case True
      then have "unat h = length (sys_reserved s)" "unat (h + 1) = Suc (length (sys_reserved s))"
        using P True b unat_plus1_u32 [of h] by simp_all
      then show ?thesis
        using st EnqCas True sh lf_ok_reserve [OF ok N(1) EnqCas]
        by (auto simp: lf_inv_def Let_def lfr_shape_def)
    next
      case False
      then show ?thesis using st EnqCas local sh by auto
    qed
  next
    case (EnqWrite v h)
    then show ?thesis using st sh P slot N lf_ok_write [OF ok N(1) EnqWrite]
      by (auto simp: lf_inv_def Let_def lfr_shape_def write_value_def nth_upd_fun [where f = "\<lambda>x. x"] split: if_splits)
  next
    case (EnqTail v h)
    then show ?thesis using st local sh me by (auto simp: lfr_shape_def)
  next
    case (EnqPublish v h)
    have "unat (h + 1) = Suc (unat h)" using me EnqPublish b unat_plus1_u32 [of h] by simp
    then show ?thesis using st EnqPublish sh P slot N lf_ok_publish [OF ok N(1) EnqPublish]
      by (auto simp: lf_inv_def Let_def lfr_shape_def store_sequence_def nth_upd_fun [where f = unat] split: if_splits)
  next
    case DeqLoadHead
    then show ?thesis using st local sh by auto
  next
    case (DeqLoadSeq h)
    have h: "unat (h + 1) = Suc (unat h)" using me DeqLoadSeq b C unat_plus1_u32 [of h] by simp
    note q = seq [of h]
    show ?thesis
    proof (cases "slot_sequence ?r ! (unat h mod 2 ^ k) = h + 1")
      case True
      then have "pc_ok (2 ^ k) (unat (consumer_head ?r)) (sys_reserved s) (\<lambda>j. unat (slot_sequence ?r ! j))
          (\<lambda>j. slot_value ?r ! j) (DeqCas h)" using me DeqLoadSeq h by auto
      then show ?thesis using st DeqLoadSeq local sh q True by auto
    next
      case False
      then show ?thesis using st DeqLoadSeq local sh q by auto
    qed
  next
    case (DeqCas h)
    show ?thesis
    proof (cases "consumer_head ?r = h \<and> \<not> weak")
      case True
      then have "unat (h + 1) = Suc (unat h)" using me DeqCas C b unat_plus1_u32 [of h] by simp
      then show ?thesis
        using st DeqCas True sh P lf_ok_take [OF ok N(1) DeqCas]
        by (auto simp: lf_inv_def Let_def lfr_shape_def)
    next
      case False
      then show ?thesis using st DeqCas local sh by auto
    qed
  next
    case (DeqRead h)
    then show ?thesis using st local sh me slot N lf_ok_value [OF ok N(1) DeqRead]
      by (auto simp: read_value_def split: if_splits)
  next
    case (DeqTail h v)
    then show ?thesis using st local sh me by (auto simp: lfr_shape_def)
  next
    case (DeqRelease h v)
    have "k < 32" "unat h < length (sys_reserved s)" using me DeqRelease C sh by (simp_all add: lfr_shape_def)
    then have "unat (h + 2 ^ k) = unat h + 2 ^ k" using b by (intro unat_plus_pow2_u32) simp_all
    then show ?thesis using st DeqRelease sh P slot N lf_ok_release [OF ok N(1) DeqRelease]
      by (auto simp: lf_inv_def Let_def lfr_shape_def store_sequence_def nth_upd_fun [where f = unat] split: if_splits)
  qed (use st in simp_all)
qed

lemma lf_inv_step:
  assumes inv: "lf_inv k s" and st: "lf_step s s'" and bound: "length (sys_reserved s') + 2 ^ k < 2 ^ 32"
  shows "lf_inv k s'"
proof -
  have idle: "writing pc = None \<and> reading pc = None" if "\<not> lf_active pc" for pc :: "'a lf_pc" using that by (cases pc) simp_all
  from st show ?thesis
  proof cases
    case (call_enqueue t v)
    then show ?thesis using lf_inv_local [OF inv lf_invD(1) [OF inv], of "EnqLoadHead v" t] idle by (cases s) simp
  next
    case (call_dequeue t)
    then show ?thesis using lf_inv_local [OF inv lf_invD(1) [OF inv], of DeqLoadHead t] idle by (cases s) simp
  next
    case (access weak t r pc)
    then show ?thesis using lf_inv_access [OF inv access(2)] bound by simp
  qed
qed

lemma lf_step_grows: "lf_step s s' \<Longrightarrow> length (sys_reserved s) \<le> length (sys_reserved s')"
  by (induction rule: lf_step.induct) simp_all

lemma lf_init_inv:
  assumes r: "lfr_with_capacity n = Inr r" and k: "n = 2 ^ k"
  shows "lf_inv k (lf_init r)"
proof -
  have k2: "0 < k" "k < 32" using with_capacity_ok_iff [of n] r k by auto
  have small: "(2 :: nat) ^ k < 2 ^ 32" using k2 by (intro power_strict_increasing) simp_all
  have r': "r = \<lparr>lfr_size = 2 ^ k, lfr_mask = 2 ^ k - 1, lfr_capacity = 2 ^ k - 1, producer_head = 0, producer_tail = 0,
    consumer_head = 0, consumer_tail = 0, slot_sequence = map of_nat [0..<2 ^ k], slot_value = replicate (2 ^ k) None\<rparr>"
    using r k by (simp add: lfr_with_capacity_def split: if_splits)
  have "serves (2 ^ k) 0 [] j (unat (slot_sequence r ! j)) v" if "j < 2 ^ k" for j and v :: "'a option"
    using that small by (intro servesI_free) (simp_all add: r' unat_of_nat_u32)
  then show ?thesis
    using k2 by (simp add: lf_inv_def lf_init_def Let_def lf_ok_def lfr_shape_def writers_def readers_def exclusive_def r')
qed

lemma lf_reachable_inv:
  assumes "lf_reachable n s" "length (sys_reserved s) + n < 2 ^ 32"
  shows "\<exists>k. n = 2 ^ k \<and> lf_inv k s"
  using assms
proof (induction rule: lf_reachable.induct)
  case (start n r)
  then obtain k where "n = 2 ^ k" using with_capacity_ok_iff [of n] by auto
  then show ?case using lf_init_inv start(1) by blast
next
  case (step n s s')
  then obtain k where "n = 2 ^ k" "lf_inv k s" using lf_step_grows [OF step(2)] by auto
  then show ?case using lf_inv_step step.hyps(2) step.prems by blast
qed

text \<open>A thread that runs never faults.\<close>

lemma lf_inv_no_fault:
  assumes inv: "lf_inv k s" and a: "lf_active (sys_pc s t)"
  shows "pc_step weak (sys_ring s) (sys_pc s t) \<noteq> None"
proof -
  note sh = lf_invD(1) [OF inv] and ok = lf_invD(3) [OF inv]
  note N = lfr_shapeD [OF sh] and slot = slot_of_mod [OF sh] slot_of_less [OF sh]
  show ?thesis
  proof (cases "sys_pc s t")
    case (DeqRead h)
    then show ?thesis using slot N lf_ok_value [OF ok N(1) DeqRead] by (simp add: read_value_def)
  qed (use a slot N in \<open>simp_all add: load_sequence_def store_sequence_def write_value_def\<close>)
qed

text \<open>The slot a thread is about to write to or read from.\<close>

fun touches :: "'a lock_free_ring \<Rightarrow> 'a lf_pc \<Rightarrow> usize option" where
  "touches r (EnqWrite v h) = Some (slot_of r h)"
| "touches r (DeqRead h) = Some (slot_of r h)"
| "touches r pc = None"

lemma lf_inv_race_free:
  assumes inv: "lf_inv k s" and t: "touches (sys_ring s) (sys_pc s t) = Some i" "touches (sys_ring s) (sys_pc s u) = Some i"
  shows "t = u"
proof -
  note sh = lf_invD(1) [OF inv] and ok = lf_invD(3) [OF inv]
  note N = lfr_shapeD(1) [OF sh] and slot = slot_of_mod [OF sh]
  note W = exclusiveD [OF writersD(1) [OF lf_okD(4) [OF ok]], of t _ u]
  note R = exclusiveD [OF readersD(1) [OF lf_okD(5) [OF ok]], of t _ u]
  note me = lf_okD(3) [OF ok, of t] and you = lf_okD(3) [OF ok, of u]
  have ne: "Suc h mod 2 ^ k \<noteq> h mod 2 ^ k" for h by (rule mod_Suc_neq [OF N])
  consider v h v' h' where "sys_pc s t = EnqWrite v h" "sys_pc s u = EnqWrite v' h'"
    | v h h' where "sys_pc s t = EnqWrite v h" "sys_pc s u = DeqRead h'"
    | h v' h' where "sys_pc s t = DeqRead h" "sys_pc s u = EnqWrite v' h'"
    | h h' where "sys_pc s t = DeqRead h" "sys_pc s u = DeqRead h'"
    using t by (cases "sys_pc s t"; cases "sys_pc s u") simp_all
  then show ?thesis
  proof cases
    case 1
    then have "unat h = unat h'" using me you t slot by (metis option.inject touches.simps(1) pc_ok.simps(4))
    then show ?thesis using W [of "unat h"] 1 by simp
  next
    case 2
    then have "unat h = Suc (unat h')" "unat h mod 2 ^ k = unat h' mod 2 ^ k" using me you t slot by simp_all
    then show ?thesis using ne [of "unat h'"] by simp
  next
    case 3
    then have "unat h' = Suc (unat h)" "unat h mod 2 ^ k = unat h' mod 2 ^ k" using me you t slot by simp_all
    then show ?thesis using ne [of "unat h"] by simp
  next
    case 4
    then have "Suc (unat h) = Suc (unat h')" using me you t slot by (metis option.inject touches.simps(2) pc_ok.simps(9))
    then show ?thesis using R [of "unat h"] 4 by simp
  qed
qed

end
