(* ===== verification/LockFreeQueue.thy ===== *)
theory LockFreeQueue
  imports LockFreeRing
begin

text \<open>
  What the users of \<open>LockFreeRing\<close> rely on (\<open>src/crates/hammer-infra/src/ring.rs\<close>): run by one thread it is a bounded
  first-in-first-out queue (an instance of the queue interface), run by many threads it hands out every value
  once and at its position.  Schedules make interleavings executable.
\<close>

subsection \<open>One thread alone\<close>




text \<open>
  Between operations of a single thread: \<open>len\<close> values wait from the consumer head on, the other slots are free,
  and the tails have caught up with the heads.  The counters wrap, so positions are offsets from the head.
\<close>

definition lfr_len :: "'a lock_free_ring \<Rightarrow> nat" where
  "lfr_len r = unat (producer_head r - consumer_head r)"

definition slot_at :: "'a lock_free_ring \<Rightarrow> nat \<Rightarrow> nat" where
  "slot_at r i = slot_of r (consumer_head r + of_nat i)"

definition lfr_quiet :: "nat \<Rightarrow> 'a lock_free_ring \<Rightarrow> bool" where
  "lfr_quiet k r \<longleftrightarrow> lfr_shape k r \<and> producer_tail r = producer_head r \<and> consumer_tail r = consumer_head r \<and>
     lfr_len r < 2 ^ k \<and>
     (\<forall>i < 2 ^ k. slot_sequence r ! slot_at r i = consumer_head r + of_nat (if i < lfr_len r then Suc i else i) \<and>
        (i < lfr_len r \<longrightarrow> slot_value r ! slot_at r i \<noteq> None))"

definition lfr_items :: "'a lock_free_ring \<Rightarrow> 'a list" where
  "lfr_items r = map (\<lambda>i. the (slot_value r ! slot_at r i)) [0..<lfr_len r]"

lemma slot_of_add: "lfr_shape k r \<Longrightarrow> slot_of r (c + of_nat i) = (slot_of r c + i) mod 2 ^ k"
proof -
  assume sh: "lfr_shape k r"
  have d: "(2 :: nat) ^ k dvd 2 ^ 32" using sh by (intro le_imp_power_dvd) (simp add: lfr_shape_def)
  have "unat (c + of_nat i) = (unat c + i) mod 2 ^ 32"
    by (simp add: unat_word_ariths unat_of_nat take_bit_eq_mod mod_add_right_eq)
  then show ?thesis using mod_mod_cancel [OF d] by (simp add: slot_of_mod [OF sh] mod_add_left_eq)
qed

lemma offset_mod_inj:
  assumes "i \<le> j" "j < N" "(a + i) mod N = (a + j) mod (N :: nat)"
  shows "i = j"
proof -
  have "N dvd (a + j) - (a + i)" using assms mod_eq_dvd_iff_nat [of "a + i" "a + j" N] by simp
  then show ?thesis using assms(1,2) by (cases "i = j") (auto dest: dvd_imp_le)
qed

lemma slot_at_inj:
  assumes sh: "lfr_shape k r" and "i < 2 ^ k" "j < 2 ^ k" "slot_at r i = slot_at r j"
  shows "i = j"
proof -
  have e: "(slot_of r (consumer_head r) + i) mod 2 ^ k = (slot_of r (consumer_head r) + j) mod 2 ^ k"
    using assms(4) by (simp add: slot_at_def slot_of_add [OF sh])
  show ?thesis
    using offset_mod_inj [OF _ assms(3) e] offset_mod_inj [OF _ assms(2) e [symmetric]] by linarith
qed

lemma slot_at_less: "lfr_shape k r \<Longrightarrow> slot_at r i < 2 ^ k"
  by (simp add: slot_at_def slot_of_less)

lemma lfr_quietD:
  assumes "lfr_quiet k r"
  shows "lfr_shape k r" "producer_tail r = producer_head r" "consumer_tail r = consumer_head r" "lfr_len r < 2 ^ k"
    "\<And>i. i < 2 ^ k \<Longrightarrow> slot_sequence r ! slot_at r i = consumer_head r + of_nat (if i < lfr_len r then Suc i else i)"
    "\<And>i. i < lfr_len r \<Longrightarrow> slot_value r ! slot_at r i \<noteq> None"
    "producer_head r = consumer_head r + of_nat (lfr_len r)"
proof -
  show "producer_head r = consumer_head r + of_nat (lfr_len r)" by (simp add: lfr_len_def)
  have "lfr_len r < 2 ^ k" using assms by (simp add: lfr_quiet_def)
  then show "i < lfr_len r \<Longrightarrow> slot_value r ! slot_at r i \<noteq> None" for i
    using assms by (simp add: lfr_quiet_def)
qed (use assms in \<open>simp_all add: lfr_quiet_def\<close>)

lemma lfr_full_iff:
  assumes "lfr_quiet k r"
  shows "producer_head r - consumer_tail r \<ge> lfr_capacity r \<longleftrightarrow> lfr_len r = 2 ^ k - 1"
proof -
  note sh = lfr_quietD(1) [OF assms]
  have "k < 32" "lfr_capacity r = 2 ^ k - 1" using sh by (simp_all add: lfr_shape_def)
  then have "unat (lfr_capacity r) = 2 ^ k - 1"
    using unat_pow2_u32 [of k] by (simp add: unat_sub word_le_nat_alt)
  then show ?thesis using lfr_quietD(3,4) [OF assms] by (auto simp: word_le_nat_alt lfr_len_def)
qed

lemma lfr_enqueue_full:
  "lfr_quiet k r \<Longrightarrow> lfr_len r = 2 ^ k - 1 \<Longrightarrow> lfr_enqueue v r = Some (Inl (Full v), r)"
  using lfr_full_iff [of k r] by (simp add: lfr_enqueue_def Let_def)

lemma of_nat_u32_Suc_less: "i < 2 ^ k \<Longrightarrow> k < 32 \<Longrightarrow> unat (of_nat i :: u32) = i"
proof -
  assume "i < 2 ^ k" "k < 32"
  then have "i < 2 ^ 32" using power_strict_increasing [of k 32 "2 :: nat"] by simp
  then show ?thesis by (rule unat_of_nat_u32)
qed

lemma lfr_enqueue_ok:
  assumes q: "lfr_quiet k r" and n: "lfr_len r \<noteq> 2 ^ k - 1"
  shows "\<exists>r'. lfr_enqueue v r = Some (Inr (), r') \<and> lfr_quiet k r' \<and> lfr_items r' = lfr_items r @ [v]"
proof -
  note Q = lfr_quietD [OF q]
  let ?n = "lfr_len r" and ?h = "producer_head r"
  have k: "k < 32" using Q(1) by (simp add: lfr_shape_def)
  have n': "Suc ?n < 2 ^ k" using n Q(4) by simp
  have slot: "slot_of r ?h = slot_at r ?n" by (simp add: slot_at_def Q(7))
  have l: "slot_at r i < length (slot_sequence r)" "slot_at r i < length (slot_value r)" for i
    using slot_at_less [OF Q(1)] Q(1) by (simp_all add: lfr_shape_def)
  define r' where "r' = r\<lparr>producer_head := ?h + 1, slot_value := (slot_value r)[slot_at r ?n := Some v],
    producer_tail := producer_tail r + 1, slot_sequence := (slot_sequence r)[slot_at r ?n := ?h + 1]\<rparr>"
  have "slot_sequence r ! slot_at r ?n = ?h" using Q(5) [OF Q(4)] Q(7) by simp
  then have e: "lfr_enqueue v r = Some (Inr (), r')"
    using lfr_full_iff [OF q] n l
    by (simp add: lfr_enqueue_def Let_def slot load_sequence_def write_value_def store_sequence_def r'_def)
  have at: "slot_at r' = slot_at r" by (simp add: slot_at_def slot_of_def r'_def fun_eq_iff)
  have h': "producer_head r' - consumer_head r' = of_nat (Suc ?n)" by (simp add: r'_def Q(7))
  have len: "lfr_len r' = Suc ?n"
    unfolding lfr_len_def [of r'] h' by (rule of_nat_u32_Suc_less [OF n' k])
  have ne: "slot_at r i \<noteq> slot_at r ?n" if "i < 2 ^ k" "i \<noteq> ?n" for i
    using slot_at_inj [OF Q(1) that(1) Q(4)] that(2) by blast
  have s: "slot_sequence r' ! slot_at r' i = consumer_head r' + of_nat (if i < lfr_len r' then Suc i else i) \<and>
      (i < lfr_len r' \<longrightarrow> slot_value r' ! slot_at r' i \<noteq> None)" if i: "i < 2 ^ k" for i
  proof (cases "i = ?n")
    case True
    then show ?thesis using l Q(7) by (simp add: at len) (simp add: r'_def algebra_simps)
  next
    case False
    then show ?thesis using Q(5) [OF i] Q(6) [of i] ne [OF i False]
      by (simp add: at len less_Suc_eq) (simp add: r'_def)
  qed
  have "lfr_quiet k r'"
    using s n' Q(1,2,3) len by (simp add: lfr_quiet_def) (simp add: r'_def lfr_shape_def)
  moreover have "lfr_items r' = lfr_items r @ [v]"
  proof -
    have "(slot_value r)[slot_at r ?n := Some v] ! slot_at r i = slot_value r ! slot_at r i" if "i < ?n" for i
      using ne [of i] that Q(4) by simp
    then show ?thesis unfolding lfr_items_def len at using l(2) by (simp add: r'_def)
  qed
  ultimately show ?thesis using e by blast
qed

lemma lfr_dequeue_empty:
  assumes q: "lfr_quiet k r" and n: "lfr_len r = 0"
  shows "lfr_dequeue r = Some (None, r)"
proof -
  note Q = lfr_quietD [OF q]
  have "slot_sequence r ! slot_at r 0 = consumer_head r" using Q(5) [of 0] n by simp
  then show ?thesis
    using slot_at_less [OF Q(1), of 0] Q(1) by (simp add: lfr_dequeue_def Let_def load_sequence_def slot_at_def lfr_shape_def)
qed

lemma lfr_dequeue_ok:
  assumes q: "lfr_quiet k r" and n: "lfr_len r \<noteq> 0"
  shows "\<exists>r'. lfr_dequeue r = Some (Some (hd (lfr_items r)), r') \<and> lfr_quiet k r' \<and> lfr_items r' = tl (lfr_items r)"
proof -
  note Q = lfr_quietD [OF q]
  let ?n = "lfr_len r" and ?h = "consumer_head r"
  have k: "k < 32" and size: "lfr_size r = 2 ^ k" using Q(1) by (simp_all add: lfr_shape_def)
  have slot: "slot_of r ?h = slot_at r 0" by (simp add: slot_at_def)
  have l: "slot_at r i < length (slot_sequence r)" "slot_at r i < length (slot_value r)" for i
    using slot_at_less [OF Q(1)] Q(1) by (simp_all add: lfr_shape_def)
  define r' where "r' = r\<lparr>consumer_head := ?h + 1, consumer_tail := consumer_tail r + 1,
    slot_sequence := (slot_sequence r)[slot_at r 0 := ?h + 2 ^ k]\<rparr>"
  obtain v where v: "slot_value r ! slot_at r 0 = Some v" using Q(6) [of 0] n by auto
  have "slot_sequence r ! slot_at r 0 = ?h + 1" using Q(5) [of 0] n by simp
  then have e: "lfr_dequeue r = Some (Some v, r')"
    using l v by (simp add: lfr_dequeue_def Let_def slot load_sequence_def read_value_def store_sequence_def size r'_def)
  have at: "slot_at r' i = slot_at r (Suc i)" for i
    by (simp add: slot_at_def slot_of_def r'_def algebra_simps)
  have wrap: "slot_at r (2 ^ k) = slot_at r 0" using slot_of_add [OF Q(1), of ?h "2 ^ k"] slot_of_less [OF Q(1), of ?h]
    by (simp add: slot_at_def)
  have h': "producer_head r' - consumer_head r' = of_nat (?n - 1)"
    using n by (simp add: r'_def Q(7) of_nat_diff)
  have len: "lfr_len r' = ?n - 1"
    unfolding lfr_len_def [of r'] h' using of_nat_u32_Suc_less [OF _ k, of "?n - 1"] Q(4) by simp
  have s: "slot_sequence r' ! slot_at r' i = consumer_head r' + of_nat (if i < lfr_len r' then Suc i else i) \<and>
      (i < lfr_len r' \<longrightarrow> slot_value r' ! slot_at r' i \<noteq> None)" if i: "i < 2 ^ k" for i
  proof (cases "Suc i = 2 ^ k")
    case True
    then have "of_nat i = (2 ^ k - 1 :: u32)" by (metis of_nat_Suc of_nat_numeral of_nat_power add_diff_cancel_left')
    moreover have "\<not> i < ?n - 1" using True Q(4) by simp
    ultimately show ?thesis using l by (simp add: at len True wrap) (simp add: r'_def)
  next
    case False
    then have si: "Suc i < 2 ^ k" using i by simp
    then have "slot_at r (Suc i) \<noteq> slot_at r 0" using slot_at_inj [OF Q(1) si, of 0] by auto
    then have "slot_sequence r' ! slot_at r' i = slot_sequence r ! slot_at r (Suc i)"
      "slot_value r' ! slot_at r' i = slot_value r ! slot_at r (Suc i)" by (simp_all add: at) (simp_all add: r'_def)
    then show ?thesis using Q(5) [OF si] Q(6) [of "Suc i"] n
      by (simp add: len) (auto simp: r'_def algebra_simps less_diff_conv)
  qed
  have "lfr_quiet k r'"
    using s Q(1-4) len by (simp add: lfr_quiet_def) (simp add: r'_def lfr_shape_def)
  moreover have "lfr_items r = v # lfr_items r'"
  proof -
    have "[0..<?n] = 0 # map Suc [0..<?n - 1]" using n by (simp add: upt_conv_Cons map_Suc_upt)
    then show ?thesis unfolding lfr_items_def len using v by (simp add: at) (simp add: r'_def)
  qed
  ultimately show ?thesis using e by simp
qed

lemma lfr_items_length: "length (lfr_items r) = lfr_len r"
  by (simp add: lfr_items_def)

lemma lfr_is_full_iff:
  assumes "lfr_quiet k r"
  shows "lfr_is_full r \<longleftrightarrow> lfr_len r = 2 ^ k - 1"
proof -
  note Q = lfr_quietD [OF assms]
  have k: "k < 32" "lfr_mask r = 2 ^ k - 1" using Q(1) by (simp_all add: lfr_shape_def)
  have "lfr_mask r + consumer_tail r - producer_head r = of_nat (2 ^ k - 1 - lfr_len r)"
    using Q(4) by (simp add: k Q(3,7) of_nat_diff)
  moreover have "unat (of_nat (2 ^ k - 1 - lfr_len r) :: u32) = 2 ^ k - 1 - lfr_len r"
    using Q(4) by (intro of_nat_u32_Suc_less [OF _ k(1)]) simp
  ultimately show ?thesis using Q(4) by (auto simp: lfr_is_full_def available_to_write_def)
qed

lemma lfr_is_empty_iff: "lfr_quiet k r \<Longrightarrow> lfr_is_empty r \<longleftrightarrow> lfr_items r = []"
  using lfr_quietD(2) [of k r] lfr_items_length [of r]
  by (auto simp: lfr_is_empty_def available_to_read_def lfr_len_def)

definition lfr_push :: "'a lock_free_ring \<Rightarrow> 'a \<Rightarrow> 'a lock_free_ring" where
  "lfr_push r v = snd (the (lfr_enqueue v r))"

definition lfr_pop :: "'a lock_free_ring \<Rightarrow> 'a option \<times> 'a lock_free_ring" where
  "lfr_pop r = the (lfr_dequeue r)"

interpretation lfr: queue lfr_items "lfr_quiet k" lfr_is_full lfr_push lfr_pop for k
proof (unfold_locales, goal_cases)
  case (1 q x)
  then show ?case using lfr_enqueue_ok [of k q x] lfr_is_full_iff [of k q] by (auto simp: lfr_push_def)
next
  case (2 q x)
  then show ?case using lfr_enqueue_full [of k q x] lfr_is_full_iff [of k q] by (auto simp: lfr_push_def)
next
  case (3 q)
  then show ?case using lfr_dequeue_empty [of k q] lfr_items_length [of q] by (simp add: lfr_pop_def)
next
  case (4 q x xs)
  then show ?case using lfr_dequeue_ok [of k q] lfr_items_length [of q] by (auto simp: lfr_pop_def)
qed

lemma lfr_new_quiet:
  assumes "lfr_with_capacity n = Inr r"
  shows "\<exists>k. n = 2 ^ k \<and> lfr_quiet k r \<and> lfr_items r = []"
proof -
  obtain k where k: "0 < k" "k < 32" "n = 2 ^ k" using with_capacity_ok_iff [of n] assms by auto
  have r: "r = \<lparr>lfr_size = 2 ^ k, lfr_mask = 2 ^ k - 1, lfr_capacity = 2 ^ k - 1, producer_head = 0, producer_tail = 0,
    consumer_head = 0, consumer_tail = 0, slot_sequence = map of_nat [0..<2 ^ k], slot_value = replicate (2 ^ k) None\<rparr>"
    using assms k by (simp add: lfr_with_capacity_def split: if_splits)
  have sh: "lfr_shape k r" using k by (simp add: lfr_shape_def r)
  have "slot_at r i = i" if "i < 2 ^ k" for i
    using slot_of_add [OF sh, of 0 i] that by (simp add: slot_at_def slot_of_mod [OF sh]) (simp add: r slot_of_mod [OF sh])
  then show ?thesis using k sh by (simp add: lfr_quiet_def lfr_len_def lfr_items_def) (simp add: r)
qed

lemma lfr_enqueue_batch_spec:
  assumes "lfr_quiet k r"
  shows "\<exists>r'. lfr_enqueue_batch vs r = Some (min (length vs) (2 ^ k - 1 - length (lfr_items r)), r') \<and> lfr_quiet k r' \<and>
    lfr_items r' = lfr_items r @ take (2 ^ k - 1 - length (lfr_items r)) vs"
  using assms
proof (induction vs arbitrary: r)
  case (Cons v vs)
  show ?case
  proof (cases "lfr_len r = 2 ^ k - 1")
    case True
    then show ?thesis using lfr_enqueue_full [OF Cons.prems True, of v] Cons.prems by (simp add: lfr_items_length)
  next
    case False
    then obtain r1 where 1: "lfr_enqueue v r = Some (Inr (), r1)" "lfr_quiet k r1" "lfr_items r1 = lfr_items r @ [v]"
      using lfr_enqueue_ok [OF Cons.prems] by blast
    have "2 ^ k - 1 - length (lfr_items r) = Suc (2 ^ k - 1 - length (lfr_items r1))"
      using False lfr_quietD(4) [OF Cons.prems] 1(3) by (simp add: lfr_items_length)
    then show ?thesis using Cons.IH [OF 1(2)] 1 by auto
  qed
qed simp

lemma lfr_dequeue_batch_spec:
  assumes "lfr_quiet k r"
  shows "\<exists>r'. lfr_dequeue_batch n r = Some (take n (lfr_items r), r') \<and> lfr_quiet k r' \<and> lfr_items r' = drop n (lfr_items r)"
  using assms
proof (induction n arbitrary: r)
  case (Suc n)
  show ?case
  proof (cases "lfr_items r")
    case Nil
    then have "available_to_read r = 0" using lfr_is_empty_iff [OF Suc.prems] by (simp add: lfr_is_empty_def)
    then show ?thesis using Nil Suc.prems by simp
  next
    case (Cons v vs)
    then have "available_to_read r \<noteq> 0" using lfr_is_empty_iff [OF Suc.prems] by (simp add: lfr_is_empty_def)
    moreover obtain r1 where "lfr_dequeue r = Some (Some v, r1)" "lfr_quiet k r1" "lfr_items r1 = vs"
      using lfr_dequeue_ok [OF Suc.prems] lfr_items_length [of r] Cons by auto
    ultimately show ?thesis using Suc.IH [of r1] Cons by auto
  qed
qed simp


subsection \<open>Schedules\<close>

text \<open>Running given threads in a given order, one access each; a thread that has finished or faults stops the
  schedule.\<close>

fun schedule :: "nat list \<Rightarrow> 'a lf_system \<Rightarrow> 'a lf_system option" where
  "schedule [] s = Some s"
| "schedule (t # ts) s =
     do { (r, pc) \<leftarrow> pc_step False (sys_ring s) (sys_pc s t);
          schedule ts \<lparr>sys_ring = r, sys_pc = (sys_pc s)(t := pc),
            sys_reserved = sys_reserved s @ enq_event (sys_pc s t) pc,
            sys_taken = sys_taken s @ deq_event (sys_pc s t) pc\<rparr> }"

lemma schedule_reachable: "lf_reachable n s \<Longrightarrow> schedule ts s = Some s' \<Longrightarrow> lf_reachable n s'"
proof (induction ts arbitrary: s)
  case (Cons t ts)
  then obtain r pc where p: "pc_step False (sys_ring s) (sys_pc s t) = Some (r, pc)" by (auto simp: bind_eq_Some_conv)
  show ?case
    using Cons.IH [OF lf_reachable.step [OF Cons.prems(1) lf_step.access [OF p]]] Cons.prems(2) p by simp
qed simp

text \<open>Two producers that overtake each other and a consumer, on a ring of two slots.\<close>

definition demo_ring :: "nat lock_free_ring" where
  "demo_ring = \<lparr>lfr_size = 2, lfr_mask = 1, lfr_capacity = 1, producer_head = 0, producer_tail = 0,
     consumer_head = 0, consumer_tail = 0, slot_sequence = [0, 1], slot_value = [None, None]\<rparr>"

lemma demo_ring_new: "lfr_with_capacity 2 = Inr demo_ring"
proof -
  have "is_power_of_two 2" using trailing_zeros_pow2 [of 1] by (simp add: is_power_of_two_def)
  moreover have "[0..<2] = [0, 1 :: nat]" "replicate 2 None = [None, None :: nat option]" by (simp_all add: numeral_2_eq_2)
  ultimately show ?thesis by (simp add: lfr_with_capacity_def demo_ring_def u32_max_def)
qed

definition demo_start :: "nat lf_system" where
  "demo_start = (lf_init demo_ring)\<lparr>sys_pc := (\<lambda>_. Idle)(0 := EnqLoadHead 10, 1 := EnqLoadHead 11, 2 := DeqLoadHead)\<rparr>"

lemma demo_start_reachable: "lf_reachable 2 demo_start"
proof -
  let ?s0 = "lf_init demo_ring"
  let ?s1 = "?s0\<lparr>sys_pc := (sys_pc ?s0)(0 := EnqLoadHead 10)\<rparr>"
  let ?s2 = "?s1\<lparr>sys_pc := (sys_pc ?s1)(1 := EnqLoadHead 11)\<rparr>"
  let ?s3 = "?s2\<lparr>sys_pc := (sys_pc ?s2)(2 := DeqLoadHead)\<rparr>"
  have "lf_reachable 2 ?s0" by (rule lf_reachable.start [OF demo_ring_new])
  then have "lf_reachable 2 ?s1" by (rule lf_reachable.step) (rule lf_step.call_enqueue, simp add: lf_init_def)
  then have "lf_reachable 2 ?s2" by (rule lf_reachable.step) (rule lf_step.call_enqueue, simp add: lf_init_def)
  then have "lf_reachable 2 ?s3" by (rule lf_reachable.step) (rule lf_step.call_dequeue, simp add: lf_init_def)
  moreover have "?s3 = demo_start" by (simp add: demo_start_def lf_init_def)
  ultimately show ?thesis by simp
qed

lemma demo_run:
  "\<exists>s. schedule [0, 1, 0, 1, 0, 1, 1, 0, 1, 1, 1, 2, 2, 2, 2, 2, 2] demo_start = Some s \<and>
     sys_reserved s = [11] \<and> sys_taken s = [(0, 11)] \<and> sys_pc s = (\<lambda>_. Idle)(0 := EnqLoadHead 10, 1 := EnqOk, 2 := DeqSome 11)"
  by (simp add: demo_start_def demo_ring_def lf_init_def slot_of_def load_sequence_def store_sequence_def
      read_value_def write_value_def fun_upd_twist)

lemma demo_run_quiet:
  "\<exists>s. schedule [0, 1, 0, 1, 0, 1, 1, 0, 1, 1, 1, 2, 2, 2, 2, 2, 2, 0, 0, 0, 0, 0, 0, 0] demo_start = Some s \<and>
     sys_reserved s = [11, 10] \<and> sys_taken s = [(0, 11)] \<and> consumer_head (sys_ring s) = 1 \<and>
     sys_pc s = (\<lambda>_. Idle)(0 := EnqOk, 1 := EnqOk, 2 := DeqSome 11)"
  by (simp add: demo_start_def demo_ring_def lf_init_def slot_of_def load_sequence_def store_sequence_def
      read_value_def write_value_def fun_upd_twist)


subsection \<open>Properties\<close>

text \<open>
  C1. Whatever the interleaving of any number of producers and consumers, and as long as fewer than
  \<open>2 ^ 32\<close> minus the ring size values are enqueued in total (the limit the source documents): no thread faults,
  no two threads access the value of the same slot at the same time, and every value handed out is the one
  reserved at its position, each position at most once.
\<close>
theorem lock_free_ring_safe:
  assumes "lf_reachable n s" "length (sys_reserved s) + n < 2 ^ 32"
  shows "(\<forall>t weak. lf_active (sys_pc s t) \<longrightarrow> pc_step weak (sys_ring s) (sys_pc s t) \<noteq> None) \<and>
    (\<forall>t u i. touches (sys_ring s) (sys_pc s t) = Some i \<longrightarrow> touches (sys_ring s) (sys_pc s u) = Some i \<longrightarrow> t = u) \<and>
    distinct (map fst (sys_taken s)) \<and>
    (\<forall>h v. (h, v) \<in> set (sys_taken s) \<longrightarrow> h < length (sys_reserved s) \<and> v = sys_reserved s ! h)"
proof -
  obtain k where inv: "lf_inv k s" using lf_reachable_inv [OF assms] by blast
  note ok = lf_invD(3) [OF inv]
  note R = readersD [OF lf_okD(5) [OF ok]]
  have "h < length (sys_reserved s) \<and> v = sys_reserved s ! h" if "(h, v) \<in> set (sys_taken s)" for h v
    using R(4) [OF that] lf_okD(1) [OF ok] by simp
  then show ?thesis using lf_inv_no_fault [OF inv] lf_inv_race_free [OF inv] R(2) by blast
qed

theorem lock_free_ring_safe_witness:
  "\<exists>s. lf_reachable 2 s \<and> sys_taken s = [(0, 11)] \<and> (11 :: nat) = sys_reserved s ! 0"
proof -
  obtain s where s: "schedule [0, 1, 0, 1, 0, 1, 1, 0, 1, 1, 1, 2, 2, 2, 2, 2, 2] demo_start = Some s"
    "sys_reserved s = [11]" "sys_taken s = [(0, 11)]"
    using demo_run by blast
  have r: "lf_reachable 2 s" by (rule schedule_reachable [OF demo_start_reachable s(1)])
  then show ?thesis using lock_free_ring_safe [OF r] s(2,3) by (intro exI [of _ s]) simp
qed

text \<open>
  C8. Nothing is lost: in every reachable state in which all calls have returned, the positions handed out are
  exactly those before the consumer head, and every later reserved position up to the producer head is
  published in its slot with the value its producer enqueued.
\<close>
theorem lock_free_ring_no_loss:
  assumes r: "lf_reachable n s" "length (sys_reserved s) + n < 2 ^ 32" and quiet: "\<And>t. \<not> lf_active (sys_pc s t)"
  shows "fst ` set (sys_taken s) = {..<unat (consumer_head (sys_ring s))} \<and>
    unat (producer_head (sys_ring s)) = length (sys_reserved s) \<and>
    (\<forall>h. unat (consumer_head (sys_ring s)) \<le> h \<and> h < length (sys_reserved s) \<longrightarrow>
       unat (slot_sequence (sys_ring s) ! (h mod n)) = Suc h \<and> slot_value (sys_ring s) ! (h mod n) = Some (sys_reserved s ! h))"
proof -
  obtain k where n: "n = 2 ^ k" and inv: "lf_inv k s" using lf_reachable_inv [OF r] by blast
  note ok = lf_invD(3) [OF inv] and N = lfr_shapeD(1) [OF lf_invD(1) [OF inv]]
  note R = readersD [OF lf_okD(5) [OF ok]] and W = writersD(2) [OF lf_okD(4) [OF ok]]
  have none: "writing (sys_pc s t) = None" "reading (sys_pc s t) = None" for t
    using quiet [of t] by (cases "sys_pc s t"; simp)+
  have "h \<in> fst ` set (sys_taken s) \<longleftrightarrow> h < unat (consumer_head (sys_ring s))" for h
    using R(3) [of h] R(4) none by fastforce
  moreover have "unat (slot_sequence (sys_ring s) ! (h mod n)) = Suc h \<and> slot_value (sys_ring s) ! (h mod n) = Some (sys_reserved s ! h)"
    if h: "unat (consumer_head (sys_ring s)) \<le> h" "h < length (sys_reserved s)" for h
  proof -
    have q: "unat (slot_sequence (sys_ring s) ! (h mod 2 ^ k)) = Suc h" using W [OF h] none by simp
    moreover have "serves (2 ^ k) (unat (consumer_head (sys_ring s))) (sys_reserved s) (h mod 2 ^ k) (Suc h)
        (slot_value (sys_ring s) ! (h mod 2 ^ k))"
      using lf_okD(2) [OF ok, of "h mod 2 ^ k"] q by simp
    ultimately show ?thesis using serves_next [OF N] n by blast
  qed
  ultimately show ?thesis using lf_invD(2) [OF inv] by blast
qed

theorem lock_free_ring_no_loss_witness:
  "\<exists>s. lf_reachable 2 s \<and> fst ` set (sys_taken s) = {..<1} \<and> slot_value (sys_ring s) ! 1 = Some (10 :: nat)"
proof -
  obtain s where s: "schedule [0, 1, 0, 1, 0, 1, 1, 0, 1, 1, 1, 2, 2, 2, 2, 2, 2, 0, 0, 0, 0, 0, 0, 0] demo_start = Some s"
    "sys_reserved s = [11, 10]" "consumer_head (sys_ring s) = 1"
    "sys_pc s = (\<lambda>_. Idle)(0 := EnqOk, 1 := EnqOk, 2 := DeqSome 11)"
    using demo_run_quiet by blast
  have r: "lf_reachable 2 s" by (rule schedule_reachable [OF demo_start_reachable s(1)])
  have "\<not> lf_active (sys_pc s t)" for t by (simp add: s(4))
  from lock_free_ring_no_loss [OF r _ this] show ?thesis
    using r s(2,3) by (intro exI [of _ s]) simp
qed

text \<open>
  C36. Used by one thread, the ring is a bounded first-in-first-out queue that holds one value less than its
  size, at any number of operations and across the wrap-around of its counters: what was accepted is what was
  handed out followed by what waits; batches accept and hand out as many values as there is room and content.
\<close>
theorem lock_free_ring_fifo:
  assumes "lfr_with_capacity n = Inr r" "queue_run lfr_is_full lfr_push lfr_pop r ops = (accepted, popped, r')"
  shows "accepted = popped @ lfr_items r' \<and> length (lfr_items r') \<le> n - 1 \<and>
    (lfr_is_full r' \<longleftrightarrow> length (lfr_items r') = n - 1) \<and> (lfr_is_empty r' \<longleftrightarrow> lfr_items r' = []) \<and>
    (\<exists>r2. lfr_enqueue_batch vs r' = Some (min (length vs) (n - 1 - length (lfr_items r')), r2) \<and>
       lfr_items r2 = lfr_items r' @ take (n - 1 - length (lfr_items r')) vs) \<and>
    (\<exists>r2. lfr_dequeue_batch m r' = Some (take m (lfr_items r'), r2) \<and> lfr_items r2 = drop m (lfr_items r'))"
proof -
  obtain k where k: "n = 2 ^ k" "lfr_quiet k r" "lfr_items r = []" using lfr_new_quiet [OF assms(1)] by blast
  have f: "lfr_quiet k r'" "accepted = popped @ lfr_items r'" using lfr.run_fifo [OF k(2) assms(2)] k(3) by simp_all
  have "length (lfr_items r') < n" using lfr_quietD(4) [OF f(1)] k(1) by (simp add: lfr_items_length)
  then show ?thesis
    using f(2) k(1) lfr_is_full_iff [OF f(1)] lfr_is_empty_iff [OF f(1)] lfr_enqueue_batch_spec [OF f(1), of vs]
      lfr_dequeue_batch_spec [OF f(1), of m] by (auto simp: lfr_items_length)
qed

theorem lock_free_ring_fifo_witness:
  "\<exists>r'. queue_run lfr_is_full lfr_push lfr_pop demo_ring [Push 5] = ([5], [], r') \<and> lfr_is_full r' \<and> \<not> lfr_is_empty r'"
proof -
  obtain accepted popped r' where q: "queue_run lfr_is_full lfr_push lfr_pop demo_ring [Push 5] = (accepted, popped, r')"
    using prod_cases3 by blast
  then have a: "accepted = [5]" "popped = []"
    by (simp_all add: lfr_is_full_def available_to_write_def demo_ring_def split: if_splits)
  note f = lock_free_ring_fifo [OF demo_ring_new q, of "[]" 0]
  then have "lfr_items r' = [5]" unfolding a by simp
  then have "lfr_is_full r'" "\<not> lfr_is_empty r'" using f by simp_all
  then show ?thesis using q a by blast
qed


end
