(* ===== verification/LinkedList.thy ===== *)
theory LinkedList
  imports Queues
begin

text \<open>
  The doubly linked list of \<open>src/crates/hammer-infra/src/linked_list.rs\<close>, nodes on a heap and raw pointers between
  them, and the stack of \<open>src/crates/hammer-infra/src/stack.rs\<close>.  A pointer is an address, the heap a partial map;
  following a pointer to memory that is not allocated (or no longer) is undefined behaviour and modelled as
  \<open>None\<close>.  \<open>alloc\<close> is the address the allocator returns: an argument of the operations that allocate.
\<close>

subsection \<open>LinkedList\<close>

record 'a ll_node =
  ln_value :: 'a
  ln_prev :: "nat option"
  ln_next :: "nat option"

record 'a linked_list =
  ll_head :: "nat option"
  ll_tail :: "nat option"
  ll_len :: usize
  ll_heap :: "nat \<rightharpoonup> 'a ll_node"

definition ll_new :: "'a linked_list" where
  "ll_new = \<lparr>ll_head = None, ll_tail = None, ll_len = 0, ll_heap = Map.empty\<rparr>"

definition allocate_node :: "nat \<Rightarrow> 'a \<Rightarrow> nat option \<Rightarrow> nat option \<Rightarrow> 'a linked_list \<Rightarrow> 'a linked_list" where
  "allocate_node alloc value prev next l =
     l\<lparr>ll_heap := (ll_heap l)(alloc \<mapsto> \<lparr>ln_value = value, ln_prev = prev, ln_next = next\<rparr>)\<rparr>"

text \<open>A write through a pointer.\<close>

definition upd_node :: "nat \<Rightarrow> ('a ll_node \<Rightarrow> 'a ll_node) \<Rightarrow> 'a linked_list \<Rightarrow> 'a linked_list option" where
  "upd_node p f l = do { n \<leftarrow> ll_heap l p; Some (l\<lparr>ll_heap := (ll_heap l)(p \<mapsto> f n)\<rparr>) }"

definition ll_push_back :: "nat \<Rightarrow> 'a \<Rightarrow> 'a linked_list \<Rightarrow> 'a linked_list option" where
  "ll_push_back alloc value l =
     do { let t = ll_tail l;
          let l = allocate_node alloc value t None l;
          l \<leftarrow> (case t of
                 Some tail \<Rightarrow> upd_node tail (ln_next_update (\<lambda>_. Some alloc)) l
               | None \<Rightarrow> Some (l\<lparr>ll_head := Some alloc\<rparr>));
          Some (l\<lparr>ll_tail := Some alloc, ll_len := ll_len l + 1\<rparr>) }"

definition ll_push_front :: "nat \<Rightarrow> 'a \<Rightarrow> 'a linked_list \<Rightarrow> 'a linked_list option" where
  "ll_push_front alloc value l =
     do { let h = ll_head l;
          let l = allocate_node alloc value None h l;
          l \<leftarrow> (case h of
                 Some head \<Rightarrow> upd_node head (ln_prev_update (\<lambda>_. Some alloc)) l
               | None \<Rightarrow> Some (l\<lparr>ll_tail := Some alloc\<rparr>));
          Some (l\<lparr>ll_head := Some alloc, ll_len := ll_len l + 1\<rparr>) }"

definition ll_unlink :: "nat \<Rightarrow> 'a linked_list \<Rightarrow> ('a \<times> 'a linked_list) option" where
  "ll_unlink node l =
     do { n \<leftarrow> ll_heap l node;
          let prev = ln_prev n;
          let next = ln_next n;
          l \<leftarrow> (case prev of
                 Some p \<Rightarrow> upd_node p (ln_next_update (\<lambda>_. next)) l
               | None \<Rightarrow> Some (l\<lparr>ll_head := next\<rparr>));
          l \<leftarrow> (case next of
                 Some p \<Rightarrow> upd_node p (ln_prev_update (\<lambda>_. prev)) l
               | None \<Rightarrow> Some (l\<lparr>ll_tail := prev\<rparr>));
          n \<leftarrow> ll_heap l node;
          if ll_len l = 0 then None
          else Some (ln_value n, l\<lparr>ll_heap := (ll_heap l)(node := None), ll_len := ll_len l - 1\<rparr>) }"

definition ll_pop_front :: "'a linked_list \<Rightarrow> ('a option \<times> 'a linked_list) option" where
  "ll_pop_front l =
     (case ll_head l of
        None \<Rightarrow> Some (None, l)
      | Some node \<Rightarrow> do { (v, l) \<leftarrow> ll_unlink node l; Some (Some v, l) })"

definition ll_pop_back :: "'a linked_list \<Rightarrow> ('a option \<times> 'a linked_list) option" where
  "ll_pop_back l =
     (case ll_tail l of
        None \<Rightarrow> Some (None, l)
      | Some node \<Rightarrow> do { (v, l) \<leftarrow> ll_unlink node l; Some (Some v, l) })"

definition ll_front :: "'a linked_list \<Rightarrow> 'a option option" where
  "ll_front l = (case ll_head l of None \<Rightarrow> Some None | Some p \<Rightarrow> do { n \<leftarrow> ll_heap l p; Some (Some (ln_value n)) })"

definition ll_back :: "'a linked_list \<Rightarrow> 'a option option" where
  "ll_back l = (case ll_tail l of None \<Rightarrow> Some None | Some p \<Rightarrow> do { n \<leftarrow> ll_heap l p; Some (Some (ln_value n)) })"

text \<open>\<open>front_mut\<close> and \<open>back_mut\<close> hand out a reference; the caller's write through it is \<open>f\<close>.\<close>

definition ll_front_mut :: "('a \<Rightarrow> 'a) \<Rightarrow> 'a linked_list \<Rightarrow> 'a linked_list option" where
  "ll_front_mut f l = (case ll_head l of None \<Rightarrow> Some l | Some p \<Rightarrow> upd_node p (ln_value_update f) l)"

definition ll_back_mut :: "('a \<Rightarrow> 'a) \<Rightarrow> 'a linked_list \<Rightarrow> 'a linked_list option" where
  "ll_back_mut f l = (case ll_tail l of None \<Rightarrow> Some l | Some p \<Rightarrow> upd_node p (ln_value_update f) l)"

definition ll_is_empty :: "'a linked_list \<Rightarrow> bool" where
  "ll_is_empty l \<longleftrightarrow> ll_len l = 0"

text \<open>The iterators hold the next pointer.  A step of the mutable one writes through its item with \<open>f\<close>.\<close>

definition ll_iter_next :: "'a linked_list \<Rightarrow> nat option \<Rightarrow> ('a option \<times> nat option) option" where
  "ll_iter_next l next =
     (case next of
        None \<Rightarrow> Some (None, next)
      | Some p \<Rightarrow> do { n \<leftarrow> ll_heap l p; Some (Some (ln_value n), ln_next n) })"

definition ll_iter_mut_next ::
  "('a \<Rightarrow> 'a) \<Rightarrow> 'a linked_list \<Rightarrow> nat option \<Rightarrow> ('a linked_list \<times> 'a option \<times> nat option) option" where
  "ll_iter_mut_next f l next =
     (case next of
        None \<Rightarrow> Some (l, None, next)
      | Some p \<Rightarrow> do { n \<leftarrow> ll_heap l p; l \<leftarrow> upd_node p (ln_value_update f) l; Some (l, Some (ln_value n), ln_next n) })"

text \<open>Draining the iterators; a cyclic list would make them run forever, which is \<open>None\<close>.\<close>

partial_function (option) ll_iter_collect :: "'a linked_list \<Rightarrow> nat option \<Rightarrow> 'a list option" where
  "ll_iter_collect l next =
     do { (v, next) \<leftarrow> ll_iter_next l next;
          case v of None \<Rightarrow> Some [] | Some x \<Rightarrow> do { xs \<leftarrow> ll_iter_collect l next; Some (x # xs) } }"

partial_function (option) ll_iter_mut_all :: "('a \<Rightarrow> 'a) \<Rightarrow> 'a linked_list \<Rightarrow> nat option \<Rightarrow> 'a linked_list option" where
  "ll_iter_mut_all f l next =
     do { (l, v, next) \<leftarrow> ll_iter_mut_next f l next;
          case v of None \<Rightarrow> Some l | Some x \<Rightarrow> ll_iter_mut_all f l next }"

partial_function (option) ll_clear :: "'a linked_list \<Rightarrow> 'a linked_list option" where
  "ll_clear l = do { (v, l) \<leftarrow> ll_pop_front l; case v of None \<Rightarrow> Some l | Some x \<Rightarrow> ll_clear l }"


subsection \<open>Stack\<close>

record 'a stack_vec =
  st_values :: "'a list"

definition stack_new :: "'a stack_vec" where
  "stack_new = \<lparr>st_values = []\<rparr>"

definition stack_push :: "'a \<Rightarrow> 'a stack_vec \<Rightarrow> 'a stack_vec" where
  "stack_push v s = s\<lparr>st_values := st_values s @ [v]\<rparr>"

definition stack_pop :: "'a stack_vec \<Rightarrow> 'a option \<times> 'a stack_vec" where
  "stack_pop s =
     (if st_values s = [] then (None, s) else (Some (last (st_values s)), s\<lparr>st_values := butlast (st_values s)\<rparr>))"

definition stack_first :: "'a stack_vec \<Rightarrow> 'a option" where
  "stack_first s = (case st_values s of [] \<Rightarrow> None | x # _ \<Rightarrow> Some x)"

definition stack_last :: "'a stack_vec \<Rightarrow> 'a option" where
  "stack_last s = (if st_values s = [] then None else Some (last (st_values s)))"

definition stack_len :: "'a stack_vec \<Rightarrow> usize" where
  "stack_len s = length (st_values s)"

definition stack_is_empty :: "'a stack_vec \<Rightarrow> bool" where
  "stack_is_empty s \<longleftrightarrow> st_values s = []"

definition stack_from_iter :: "'a list \<Rightarrow> 'a stack_vec" where
  "stack_from_iter xs = \<lparr>st_values = xs\<rparr>"


subsection \<open>The nodes of a list\<close>

text \<open>The addresses \<open>as\<close> are linked in both directions, with \<open>p\<close> before and \<open>n\<close> after them.\<close>

fun chain :: "(nat \<rightharpoonup> 'a ll_node) \<Rightarrow> nat option \<Rightarrow> nat list \<Rightarrow> nat option \<Rightarrow> 'a list \<Rightarrow> bool" where
  "chain h p [] n xs \<longleftrightarrow> xs = []"
| "chain h p (a # as) n xs \<longleftrightarrow>
     (\<exists>x ys. xs = x # ys \<and>
        h a = Some \<lparr>ln_value = x, ln_prev = p, ln_next = (case as of [] \<Rightarrow> n | b # _ \<Rightarrow> Some b)\<rparr> \<and> chain h (Some a) as n ys)"

fun first_of :: "nat list \<Rightarrow> nat option \<Rightarrow> nat option" where
  "first_of [] d = d"
| "first_of (a # as) d = Some a"

fun last_of :: "nat list \<Rightarrow> nat option \<Rightarrow> nat option" where
  "last_of [] d = d"
| "last_of (a # as) d = last_of as (Some a)"

definition ll_rep :: "'a linked_list \<Rightarrow> nat list \<Rightarrow> 'a list \<Rightarrow> bool" where
  "ll_rep l as xs \<longleftrightarrow>
     chain (ll_heap l) None as None xs \<and> distinct as \<and> dom (ll_heap l) = set as \<and>
     ll_head l = first_of as None \<and> ll_tail l = last_of as None \<and> ll_len l = length xs"

lemma case_first_of: "(case as of [] \<Rightarrow> n | b # _ \<Rightarrow> Some b) = first_of as n"
  by (cases as) simp_all

lemma chain_Cons: "chain h p (a # as) n xs \<longleftrightarrow>
    (\<exists>x ys. xs = x # ys \<and> h a = Some \<lparr>ln_value = x, ln_prev = p, ln_next = first_of as n\<rparr> \<and> chain h (Some a) as n ys)"
  by (simp add: case_first_of)

declare chain.simps(2) [simp del]
declare chain_Cons [simp]

lemma chain_append:
  "chain h p (as @ bs) n zs \<longleftrightarrow>
     (\<exists>xs ys. zs = xs @ ys \<and> chain h p as (first_of bs n) xs \<and> chain h (last_of as p) bs n ys)"
proof (induction as arbitrary: p zs)
  case (Cons a as)
  have "first_of (as @ bs) n = first_of as (first_of bs n)" by (cases as) simp_all
  then show ?case using Cons.IH by (auto simp: Cons_eq_append_conv) blast+
qed simp

lemma chain_upd: "b \<notin> set as \<Longrightarrow> chain (h(b := v)) p as n xs = chain h p as n xs"
  by (induction as arbitrary: p xs) auto

lemma chain_length: "chain h p as n xs \<Longrightarrow> length as = length xs"
  by (induction as arbitrary: p xs) auto

lemma last_of_append [simp]: "last_of (as @ [a]) p = Some a"
  by (induction as arbitrary: p) auto

lemma first_of_append: "first_of (as @ bs) n = first_of as (first_of bs n)"
  by (cases as) simp_all

lemma last_of_rev: "last_of as None = Some t \<longleftrightarrow> (\<exists>bs. as = bs @ [t])"
  by (cases as rule: rev_cases) auto

lemma last_of_None: "last_of as None = None \<longleftrightarrow> as = []"
  by (cases as rule: rev_cases) auto

lemma chain_snoc:
  "chain h p (as @ [t]) n xs \<longleftrightarrow>
     (\<exists>x ys. xs = ys @ [x] \<and> chain h p as (Some t) ys \<and> h t = Some \<lparr>ln_value = x, ln_prev = last_of as p, ln_next = n\<rparr>)"
  by (auto simp: chain_append)

lemma chain_snoc2:
  "chain h p (as @ [t, u]) n (xs @ [x, y]) \<longleftrightarrow>
     chain h p as (Some t) xs \<and> h t = Some \<lparr>ln_value = x, ln_prev = last_of as p, ln_next = Some u\<rparr> \<and>
     h u = Some \<lparr>ln_value = y, ln_prev = Some t, ln_next = n\<rparr>"
  using chain_snoc [of h p "as @ [t]" u n "(xs @ [x]) @ [y]"] by (simp add: chain_snoc)

lemma last_of_snoc2 [simp]: "last_of (as @ [t, u]) p = Some u"
  using last_of_append [of "as @ [t]" u p] by simp

lemma single_heap: "dom h = {a} \<Longrightarrow> h(a := None) = Map.empty"
  by (auto simp: fun_eq_iff dom_def)

lemma ll_repD:
  assumes "ll_rep l as xs"
  shows "chain (ll_heap l) None as None xs" "distinct as" "dom (ll_heap l) = set as" "ll_head l = first_of as None"
    "ll_tail l = last_of as None" "ll_len l = length xs"
  using assms by (simp_all add: ll_rep_def)

lemma ll_push_back_spec:
  assumes r: "ll_rep l as xs" and a: "a \<notin> dom (ll_heap l)"
  shows "\<exists>l'. ll_push_back a v l = Some l' \<and> ll_rep l' (as @ [a]) (xs @ [v])"
proof (cases as rule: rev_cases)
  case Nil
  then show ?thesis using ll_repD [OF r]
    by (simp add: ll_push_back_def allocate_node_def ll_rep_def)
next
  case (snoc bs t)
  note R = ll_repD [OF r, unfolded snoc]
  obtain x ys where x: "xs = ys @ [x]" "chain (ll_heap l) None bs (Some t) ys"
    "ll_heap l t = Some \<lparr>ln_value = x, ln_prev = last_of bs None, ln_next = None\<rparr>"
    using R(1) unfolding chain_snoc by blast
  have ne: "a \<noteq> t" "a \<notin> set bs" "t \<notin> set bs" using a R(2,3) by auto
  show ?thesis
    using R x ne
    by (auto simp: ll_push_back_def allocate_node_def upd_node_def ll_rep_def chain_snoc2 chain_upd snoc first_of_append)
qed

lemma ll_push_front_spec:
  assumes r: "ll_rep l as xs" and a: "a \<notin> dom (ll_heap l)"
  shows "\<exists>l'. ll_push_front a v l = Some l' \<and> ll_rep l' (a # as) (v # xs)"
proof (cases as)
  case Nil
  then show ?thesis using ll_repD [OF r]
    by (simp add: ll_push_front_def allocate_node_def ll_rep_def)
next
  case (Cons t bs)
  note R = ll_repD [OF r, unfolded Cons]
  have ne: "a \<noteq> t" "a \<notin> set bs" "t \<notin> set bs" using a R(2,3) by auto
  show ?thesis
    using R ne by (auto simp: ll_push_front_def allocate_node_def upd_node_def ll_rep_def chain_upd Cons)
qed

lemma ll_pop_front_spec:
  assumes r: "ll_rep l (a # as) (x # xs)"
  shows "\<exists>l'. ll_pop_front l = Some (Some x, l') \<and> ll_rep l' as xs"
proof (cases as)
  case Nil
  then show ?thesis using ll_repD [OF r] by (auto simp: ll_pop_front_def ll_unlink_def ll_rep_def single_heap)
next
  case (Cons b bs)
  note R = ll_repD [OF r, unfolded Cons]
  have ne: "a \<noteq> b" "a \<notin> set bs" "b \<notin> set bs" using R(2) by auto
  show ?thesis
    using R ne by (auto simp: ll_pop_front_def ll_unlink_def upd_node_def ll_rep_def chain_upd Cons)
qed

lemma ll_pop_back_spec:
  assumes r: "ll_rep l (as @ [a]) (xs @ [x])"
  shows "\<exists>l'. ll_pop_back l = Some (Some x, l') \<and> ll_rep l' as xs"
proof (cases as rule: rev_cases)
  case Nil
  then show ?thesis using ll_repD [OF r] by (auto simp: ll_pop_back_def ll_unlink_def ll_rep_def single_heap)
next
  case (snoc bs b)
  note R = ll_repD [OF r, unfolded snoc]
  have ne: "a \<noteq> b" "a \<notin> set bs" "b \<notin> set bs" using R(2) by auto
  obtain y ys where y: "xs = ys @ [y]" "chain (ll_heap l) None bs (Some b) ys"
    "ll_heap l b = Some \<lparr>ln_value = y, ln_prev = last_of bs None, ln_next = Some a\<rparr>"
    "ll_heap l a = Some \<lparr>ln_value = x, ln_prev = Some b, ln_next = None\<rparr>"
    using R(1) unfolding chain_snoc by auto
  show ?thesis
    using R y ne by (auto simp: ll_pop_back_def ll_unlink_def upd_node_def ll_rep_def chain_upd chain_snoc snoc first_of_append)
qed

lemma ll_rep_fresh: "ll_rep l as xs \<Longrightarrow> a \<notin> set as \<Longrightarrow> ll_heap l a = None"
  using ll_repD(3) by (metis domIff)

lemma ll_rep_lengths: "ll_rep l as xs \<Longrightarrow> length as = length xs"
  using chain_length ll_repD(1) by blast

lemma ll_pop_front_cases:
  assumes "ll_rep l as xs"
  shows "\<exists>l'. ll_pop_front l = Some (case xs of [] \<Rightarrow> None | x # _ \<Rightarrow> Some x, l') \<and> ll_rep l' (tl as) (tl xs)"
proof (cases xs)
  case Nil
  then show ?thesis using ll_rep_lengths [OF assms] ll_repD(4) [OF assms] assms by (auto simp: ll_pop_front_def)
next
  case (Cons x ys)
  then obtain a bs where "as = a # bs" using ll_rep_lengths [OF assms] by (cases as) auto
  then show ?thesis using ll_pop_front_spec [of l a bs x ys] assms Cons by simp
qed

lemma ll_pop_back_cases:
  assumes "ll_rep l as xs"
  shows "\<exists>l'. ll_pop_back l = Some (if xs = [] then None else Some (last xs), l') \<and> ll_rep l' (butlast as) (butlast xs)"
proof (cases xs rule: rev_cases)
  case Nil
  then show ?thesis using ll_rep_lengths [OF assms] ll_repD(5) [OF assms] assms by (auto simp: ll_pop_back_def)
next
  case (snoc ys x)
  then obtain bs a where "as = bs @ [a]" using ll_rep_lengths [OF assms] by (cases as rule: rev_cases) auto
  then show ?thesis using ll_pop_back_spec [of l bs a ys x] assms snoc by simp
qed

lemma ll_collect_chain: "chain (ll_heap l) p as None xs \<Longrightarrow> ll_iter_collect l (first_of as None) = Some xs"
proof (induction as arbitrary: p xs)
  case Nil
  then show ?case by (subst ll_iter_collect.simps) (simp add: ll_iter_next_def)
next
  case (Cons a as)
  then show ?case by (subst ll_iter_collect.simps) (auto simp: ll_iter_next_def)
qed

lemma chain_map:
  assumes "chain h p as n xs" "distinct as" "\<And>a. a \<in> set as \<Longrightarrow> h' a = map_option (ln_value_update f) (h a)"
  shows "chain h' p as n (map f xs)"
  using assms by (induction as arbitrary: p xs) auto

lemma ll_iter_mut_chain:
  assumes "chain (ll_heap l) p as None xs" "distinct as"
  shows "ll_iter_mut_all f l (first_of as None) =
    Some (l\<lparr>ll_heap := (\<lambda>a. if a \<in> set as then map_option (ln_value_update f) (ll_heap l a) else ll_heap l a)\<rparr>)"
  using assms
proof (induction as arbitrary: l p xs)
  case Nil
  then show ?case by (subst ll_iter_mut_all.simps) (simp add: ll_iter_mut_next_def)
next
  case (Cons a as)
  obtain x ys where x: "ll_heap l a = Some \<lparr>ln_value = x, ln_prev = p, ln_next = first_of as None\<rparr>"
      "chain (ll_heap l) (Some a) as None ys"
    using Cons.prems(1) by auto
  let ?l = "l\<lparr>ll_heap := (ll_heap l)(a \<mapsto> \<lparr>ln_value = f x, ln_prev = p, ln_next = first_of as None\<rparr>)\<rparr>"
  have "ll_iter_mut_all f l (first_of (a # as) None) = ll_iter_mut_all f ?l (first_of as None)"
    by (subst ll_iter_mut_all.simps) (simp add: ll_iter_mut_next_def upd_node_def x(1))
  also have "\<dots> = Some (?l\<lparr>ll_heap := (\<lambda>b. if b \<in> set as then map_option (ln_value_update f) (ll_heap ?l b) else ll_heap ?l b)\<rparr>)"
  proof (rule Cons.IH)
    show "chain (ll_heap ?l) (Some a) as None ys" using x(2) Cons.prems(2) by (simp add: chain_upd del: fun_upd_apply)
  qed (use Cons.prems(2) in simp)
  finally show ?case using Cons.prems(2) x(1) by (auto simp: fun_eq_iff)
qed

lemma ll_clear_spec: "ll_rep l as xs \<Longrightarrow> ll_clear l = Some ll_new"
proof (induction xs arbitrary: l as)
  case Nil
  then have "as = []" using ll_rep_lengths by fastforce
  then have "l = ll_new" using Nil by (cases l) (auto simp: ll_rep_def ll_new_def)
  then show ?case by (subst ll_clear.simps) (simp add: ll_pop_front_def ll_new_def)
next
  case (Cons x xs)
  obtain l' where "ll_pop_front l = Some (Some x, l')" "ll_rep l' (tl as) xs" using ll_pop_front_cases [OF Cons.prems] by auto
  then show ?case using Cons.IH by (subst ll_clear.simps) simp
qed

lemma ll_front_mut_spec:
  assumes r: "ll_rep l as xs"
  shows "\<exists>l'. ll_front_mut f l = Some l' \<and> ll_rep l' as (case xs of [] \<Rightarrow> [] | x # ys \<Rightarrow> f x # ys)"
proof (cases as)
  case Nil
  then show ?thesis using r ll_repD(4) [OF r] ll_rep_lengths [OF r] by (auto simp: ll_front_mut_def)
next
  case (Cons a bs)
  then show ?thesis using ll_repD [OF r] by (auto simp: ll_front_mut_def upd_node_def ll_rep_def chain_upd fun_upd_same simp del: fun_upd_apply)
qed

lemma ll_back_mut_spec:
  assumes r: "ll_rep l as xs"
  shows "\<exists>l'. ll_back_mut f l = Some l' \<and> ll_rep l' as (if xs = [] then [] else butlast xs @ [f (last xs)])"
proof (cases as rule: rev_cases)
  case Nil
  then show ?thesis using r ll_repD(5) [OF r] ll_rep_lengths [OF r] by (auto simp: ll_back_mut_def)
next
  case (snoc bs a)
  then show ?thesis using ll_repD [OF r]
    by (auto simp: ll_back_mut_def upd_node_def ll_rep_def chain_snoc chain_upd fun_upd_same simp del: fun_upd_apply)
qed

lemma stack_pop_push [simp]: "stack_pop (stack_push v s) = (Some v, s)"
  by (simp add: stack_pop_def stack_push_def)

lemma stack_last_push [simp]: "stack_last (stack_push v s) = Some v"
  by (simp add: stack_last_def stack_push_def)

lemma stack_from_iter_push: "stack_from_iter (xs @ [x]) = stack_push x (stack_from_iter xs)"
  by (simp add: stack_from_iter_def stack_push_def)

text \<open>Popping until the stack is empty gives the values pushed, last first.\<close>

fun stack_drain :: "nat \<Rightarrow> 'a stack_vec \<Rightarrow> 'a list" where
  "stack_drain 0 s = []"
| "stack_drain (Suc n) s = (case stack_pop s of (None, _) \<Rightarrow> [] | (Some v, s) \<Rightarrow> v # stack_drain n s)"

lemma stack_len_from_iter [simp]: "stack_len (stack_from_iter xs) = length xs"
  by (simp add: stack_len_def stack_from_iter_def)

lemma stack_drain_rev: "stack_drain (stack_len (stack_from_iter xs)) (stack_from_iter xs) = rev xs"
proof (induction xs rule: rev_induct)
  case (snoc x xs)
  have "stack_len (stack_from_iter (xs @ [x])) = Suc (stack_len (stack_from_iter xs))" by simp
  then show ?case using snoc by (simp only: stack_from_iter_push stack_drain.simps stack_pop_push) simp
qed simp

text \<open>
  C12. The linked list is a double-ended queue without dangling pointers or leaks.  From a list that holds
  \<open>xs\<close>, with an address the allocator has free: pushing and popping at either end, looking at the ends,
  writing through the ends, iterating and iterating mutably follow only live pointers and do what they do on \<open>xs\<close>; popping an empty list
  gives nothing; and \<open>clear\<close> returns every node, leaving the empty heap.
\<close>
theorem linked_list_deque:
  assumes l: "ll_rep l as xs" and a: "ll_heap l a = None"
  shows "(\<exists>l'. ll_push_back a v l = Some l' \<and> ll_rep l' (as @ [a]) (xs @ [v])) \<and>
    (\<exists>l'. ll_push_front a v l = Some l' \<and> ll_rep l' (a # as) (v # xs)) \<and>
    (\<exists>l'. ll_pop_front l = Some (case xs of [] \<Rightarrow> None | x # _ \<Rightarrow> Some x, l') \<and> ll_rep l' (tl as) (tl xs)) \<and>
    (\<exists>l'. ll_pop_back l = Some (if xs = [] then None else Some (last xs), l') \<and> ll_rep l' (butlast as) (butlast xs)) \<and>
    ll_front l = Some (case xs of [] \<Rightarrow> None | x # _ \<Rightarrow> Some x) \<and>
    ll_back l = Some (if xs = [] then None else Some (last xs)) \<and>
    (\<exists>l'. ll_front_mut f l = Some l' \<and> ll_rep l' as (case xs of [] \<Rightarrow> [] | x # ys \<Rightarrow> f x # ys)) \<and>
    (\<exists>l'. ll_back_mut f l = Some l' \<and> ll_rep l' as (if xs = [] then [] else butlast xs @ [f (last xs)])) \<and>
    ll_len l = length xs \<and> (ll_is_empty l \<longleftrightarrow> xs = []) \<and>
    ll_iter_collect l (ll_head l) = Some xs \<and>
    (\<exists>l'. ll_iter_mut_all f l (ll_head l) = Some l' \<and> ll_rep l' as (map f xs)) \<and>
    ll_clear l = Some ll_new"
proof -
  note R = ll_repD [OF l]
  have "ll_front l = Some (case xs of [] \<Rightarrow> None | x # _ \<Rightarrow> Some x)"
    using R(1,4) by (cases as) (auto simp: ll_front_def)
  moreover have "ll_back l = Some (if xs = [] then None else Some (last xs))"
    using R(1,5) by (cases as rule: rev_cases) (auto simp: ll_back_def chain_snoc)
  moreover have "\<exists>l'. ll_iter_mut_all f l (ll_head l) = Some l' \<and> ll_rep l' as (map f xs)"
  proof -
    let ?h = "\<lambda>a. if a \<in> set as then map_option (ln_value_update f) (ll_heap l a) else ll_heap l a"
    have "chain ?h None as None (map f xs)" by (rule chain_map [OF R(1,2)]) simp
    moreover have "dom ?h = set as" using R(3) by (auto simp: dom_def split: if_splits)
    ultimately have "ll_rep (l\<lparr>ll_heap := ?h\<rparr>) as (map f xs)" using R by (simp add: ll_rep_def)
    then show ?thesis using ll_iter_mut_chain [OF R(1,2), of f] R(4) by auto
  qed
  ultimately show ?thesis
    using ll_push_back_spec [OF l, of a v] ll_push_front_spec [OF l, of a v] ll_pop_front_cases [OF l] ll_pop_back_cases [OF l]
      ll_collect_chain [OF R(1)] R(4,6) ll_clear_spec [OF l] ll_front_mut_spec [OF l] ll_back_mut_spec [OF l] a by (simp add: ll_is_empty_def domIff)
qed

theorem linked_list_deque_witness:
  "\<exists>l1 l2. ll_push_back 7 ''a'' ll_new = Some l1 \<and> ll_push_front 3 ''b'' l1 = Some l2 \<and>
    ll_iter_collect l2 (ll_head l2) = Some [''b'', ''a''] \<and> ll_clear l2 = Some ll_new"
proof -
  have 0: "ll_rep ll_new [] ([] :: string list)" by (simp add: ll_rep_def ll_new_def)
  obtain l1 where 1: "ll_push_back 7 ''a'' ll_new = Some l1" "ll_rep l1 [7] [''a'']"
    using linked_list_deque [OF 0, of 7 "''a''"] by (auto simp: ll_new_def)
  have f: "ll_heap l1 3 = None" by (rule ll_rep_fresh [OF 1(2)]) simp
  obtain l2 where 2: "ll_push_front 3 ''b'' l1 = Some l2" "ll_rep l2 [3, 7] [''b'', ''a'']"
    using linked_list_deque [OF 1(2) f, of "''b''"] by auto
  have g: "ll_heap l2 0 = None" by (rule ll_rep_fresh [OF 2(2)]) simp
  show ?thesis using 1 2 linked_list_deque [OF 2(2) g] by auto
qed

end
