(* ===== verification/MapInterface.thy ===== *)
theory MapInterface
  imports Prelude
begin

text \<open>
  The interface of a keyed container that works in place: \<open>put\<close> and \<open>del\<close> give the value they displace, \<open>get\<close>
  looks a key up, and a panic is \<open>None\<close>.  A provider promises the laws of a map on the keys it accepts, as long
  as it holds fewer than \<open>cap\<close> entries; a client may then run any sequence of operations against the map.
\<close>

datatype ('k, 'v) map_op = Put 'k 'v | Del 'k | Get 'k

fun op_key :: "('k, 'v) map_op \<Rightarrow> 'k" where
  "op_key (Put k v) = k"
| "op_key (Del k) = k"
| "op_key (Get k) = k"

fun map_spec :: "('k, 'v) map_op list \<Rightarrow> ('k \<rightharpoonup> 'v) \<Rightarrow> 'v option list \<times> ('k \<rightharpoonup> 'v)" where
  "map_spec [] m = ([], m)"
| "map_spec (Put k v # ops) m = (case map_spec ops (m(k \<mapsto> v)) of (rs, m') \<Rightarrow> (m k # rs, m'))"
| "map_spec (Del k # ops) m = (case map_spec ops (m(k := None)) of (rs, m') \<Rightarrow> (m k # rs, m'))"
| "map_spec (Get k # ops) m = (case map_spec ops m of (rs, m') \<Rightarrow> (m k # rs, m'))"

fun map_run ::
  "('k \<Rightarrow> 'v \<Rightarrow> 's \<Rightarrow> ('v option \<times> 's) option) \<Rightarrow> ('k \<Rightarrow> 's \<Rightarrow> ('v option \<times> 's) option) \<Rightarrow> ('s \<Rightarrow> 'k \<Rightarrow> 'v option) \<Rightarrow>
     ('k, 'v) map_op list \<Rightarrow> 's \<Rightarrow> ('v option list \<times> 's) option" where
  "map_run put del get [] s = Some ([], s)"
| "map_run put del get (Put k v # ops) s =
     do { (r, s) \<leftarrow> put k v s; (rs, s) \<leftarrow> map_run put del get ops s; Some (r # rs, s) }"
| "map_run put del get (Del k # ops) s =
     do { (r, s) \<leftarrow> del k s; (rs, s) \<leftarrow> map_run put del get ops s; Some (r # rs, s) }"
| "map_run put del get (Get k # ops) s =
     do { (rs, s') \<leftarrow> map_run put del get ops s; Some (get s k # rs, s') }"

fun puts :: "('k, 'v) map_op list \<Rightarrow> nat" where
  "puts [] = 0"
| "puts (Put k v # ops) = Suc (puts ops)"
| "puts (op # ops) = puts ops"

locale keyed_map =
  fixes entries_of :: "'s \<Rightarrow> 'k \<rightharpoonup> 'v"
    and inv :: "'s \<Rightarrow> bool"
    and valid :: "'k \<Rightarrow> bool"
    and cap :: nat
    and put :: "'k \<Rightarrow> 'v \<Rightarrow> 's \<Rightarrow> ('v option \<times> 's) option"
    and del :: "'k \<Rightarrow> 's \<Rightarrow> ('v option \<times> 's) option"
    and get :: "'s \<Rightarrow> 'k \<Rightarrow> 'v option"
  assumes put: "inv s \<Longrightarrow> valid k \<Longrightarrow> card (dom (entries_of s)) < cap \<Longrightarrow>
      \<exists>s'. put k v s = Some (entries_of s k, s') \<and> inv s' \<and> entries_of s' = (entries_of s)(k \<mapsto> v)"
    and del: "inv s \<Longrightarrow> valid k \<Longrightarrow> \<exists>s'. del k s = Some (entries_of s k, s') \<and> inv s' \<and> entries_of s' = (entries_of s)(k := None)"
    and get: "inv s \<Longrightarrow> valid k \<Longrightarrow> get s k = entries_of s k"
    and finite_entries: "inv s \<Longrightarrow> finite (dom (entries_of s))"
begin

lemma card_put: "finite (dom m) \<Longrightarrow> card (dom (m(k \<mapsto> v))) \<le> Suc (card (dom m))"
  by (simp add: card_insert_if)

lemma card_del: "finite (dom m) \<Longrightarrow> card (dom (m(k := None))) \<le> card (dom m)"
  by (simp add: card_Diff1_le)

text \<open>Any sequence of operations on accepted keys behaves as on the map, while it stays below the capacity.\<close>

lemma run_refines:
  assumes "inv s" "\<forall>op \<in> set ops. valid (op_key op)" "card (dom (entries_of s)) + puts ops \<le> cap"
  shows "\<exists>s'. map_run put del get ops s = Some (fst (map_spec ops (entries_of s)), s') \<and> inv s' \<and>
    entries_of s' = snd (map_spec ops (entries_of s))"
  using assms
proof (induction ops arbitrary: s)
  case (Cons op ops)
  note fin = finite_entries [OF Cons.prems(1)]
  show ?case
  proof (cases op)
    case (Put k v)
    obtain s1 where 1: "put k v s = Some (entries_of s k, s1)" "inv s1" "entries_of s1 = (entries_of s)(k \<mapsto> v)"
      using put [OF Cons.prems(1), of k v] Cons.prems(2,3) Put by auto
    have "card (dom (entries_of s1)) + puts ops \<le> cap"
      unfolding 1(3) using card_put [OF fin, of k v] Cons.prems(3) Put by (simp del: dom_fun_upd)
    then obtain s' where "map_run put del get ops s1 = Some (fst (map_spec ops (entries_of s1)), s')" "inv s'"
        "entries_of s' = snd (map_spec ops (entries_of s1))"
      using Cons.IH [OF 1(2)] Cons.prems(2) by auto
    then show ?thesis using 1 Put by (auto split: prod.splits)
  next
    case (Del k)
    obtain s1 where 1: "del k s = Some (entries_of s k, s1)" "inv s1" "entries_of s1 = (entries_of s)(k := None)"
      using del [OF Cons.prems(1), of k] Cons.prems(2) Del by auto
    have "card (dom (entries_of s1)) + puts ops \<le> cap"
      unfolding 1(3) using card_del [OF fin, of k] Cons.prems(3) Del by (simp del: dom_fun_upd)
    then obtain s' where "map_run put del get ops s1 = Some (fst (map_spec ops (entries_of s1)), s')" "inv s'"
        "entries_of s' = snd (map_spec ops (entries_of s1))"
      using Cons.IH [OF 1(2)] Cons.prems(2) by auto
    then show ?thesis using 1 Del by (auto split: prod.splits)
  next
    case (Get k)
    then show ?thesis using Cons.IH [of s] Cons.prems get [OF Cons.prems(1), of k] by (auto split: prod.splits)
  qed
qed simp

end

end
