(* ===== verification/SparseVec.thy ===== *)
theory SparseVec
  imports MapInterface
begin

text \<open>
  The sparsely indexed vector of \<open>src/crates/hammer-infra/src/sparse_vec.rs\<close>: a bitmap of the registered indices,
  the running number of members per bitmap word, and the values densely in index order.  A failed assertion or
  an index out of range is \<open>None\<close>.  The abstraction is the map from registered indices to values.
\<close>

record 'a sparse_vec =
  sv_members :: "u64 list"
  sv_counts :: "u32 list"
  sv_values :: "'a list"
  sv_index_bits :: nat

definition sv_with_index_bits :: "nat \<Rightarrow> 'a sparse_vec option" where
  "sv_with_index_bits bits =
     (if bits \<le> 64
      then let words = (if bits = 0 then 1 else 2 ^ (bits - 6)) in
           Some \<lparr>sv_members = replicate words 0, sv_counts = replicate words 0, sv_values = [], sv_index_bits = bits\<rparr>
      else None)"




definition sv_len :: "'a sparse_vec \<Rightarrow> usize" where
  "sv_len s = length (sv_values s)"

definition sv_is_empty :: "'a sparse_vec \<Rightarrow> bool" where
  "sv_is_empty s \<longleftrightarrow> sv_values s = []"

definition sv_dense_index :: "'a sparse_vec \<Rightarrow> usize \<Rightarrow> usize \<Rightarrow> usize" where
  "sv_dense_index s word b =
     (let lower = (if b = 0 then 0 else count_ones ((sv_members s ! word) AND (push_bit b 1 - 1)));
          prior = (if take word (sv_counts s) = [] then 0 else unat (last (take word (sv_counts s))))
      in prior + lower)"

definition sv_member :: "'a sparse_vec \<Rightarrow> usize \<Rightarrow> usize option" where
  "sv_member s index =
     (let word = index div 64; b = index mod 64 in
      if word \<ge> length (sv_members s) \<or> (sv_members s ! word) AND push_bit b 1 = 0 then None
      else Some (sv_dense_index s word b))"

definition sv_contains :: "'a sparse_vec \<Rightarrow> usize \<Rightarrow> bool" where
  "sv_contains s index \<longleftrightarrow> sv_member s index \<noteq> None"

definition sv_get :: "'a sparse_vec \<Rightarrow> usize \<Rightarrow> 'a option" where
  "sv_get s index =
     do { dense \<leftarrow> sv_member s index;
          if dense < length (sv_values s) then Some (sv_values s ! dense) else None }"

text \<open>\<open>get_mut\<close> hands out a reference; the caller's write through it is \<open>f\<close>.\<close>

definition sv_get_mut :: "'a sparse_vec \<Rightarrow> usize \<Rightarrow> ('a \<Rightarrow> 'a) \<Rightarrow> 'a sparse_vec option" where
  "sv_get_mut s index f =
     do { dense \<leftarrow> sv_member s index;
          if dense < length (sv_values s) then Some (s\<lparr>sv_values := (sv_values s)[dense := f (sv_values s ! dense)]\<rparr>)
          else None }"

definition sv_assert_index :: "'a sparse_vec \<Rightarrow> usize \<Rightarrow> unit option" where
  "sv_assert_index s index = (if index < 2 ^ min (sv_index_bits s) 63 then Some () else None)"

text \<open>The checked increment (decrement) of the counts from a word on.\<close>

fun counts_inc :: "u32 list \<Rightarrow> u32 list option" where
  "counts_inc [] = Some []"
| "counts_inc (c # cs) = (if unat c < u32_max then do { cs \<leftarrow> counts_inc cs; Some ((c + 1) # cs) } else None)"

fun counts_dec :: "u32 list \<Rightarrow> u32 list option" where
  "counts_dec [] = Some []"
| "counts_dec (c # cs) = (if unat c > 0 then do { cs \<leftarrow> counts_dec cs; Some ((c - 1) # cs) } else None)"

definition sv_insert :: "usize \<Rightarrow> 'a \<Rightarrow> 'a sparse_vec \<Rightarrow> ('a option \<times> 'a sparse_vec) option" where
  "sv_insert index value s =
     do { sv_assert_index s index;
          let word = index div 64;
          let b = index mod 64;
          let m = push_bit b 1;
          if word \<ge> length (sv_members s) then None
          else if (sv_members s ! word) AND m \<noteq> 0 then
            let dense = sv_dense_index s word b in
            if dense < length (sv_values s)
            then Some (Some (sv_values s ! dense), s\<lparr>sv_values := (sv_values s)[dense := value]\<rparr>)
            else None
          else
            do { let dense = sv_dense_index s word b;
                 let members = (sv_members s)[word := (sv_members s ! word) OR m];
                 tail \<leftarrow> counts_inc (drop word (sv_counts s));
                 if dense \<le> length (sv_values s)
                 then Some (None, s\<lparr>sv_members := members, sv_counts := take word (sv_counts s) @ tail,
                                     sv_values := take dense (sv_values s) @ value # drop dense (sv_values s)\<rparr>)
                 else None } }"

definition sv_remove :: "usize \<Rightarrow> 'a sparse_vec \<Rightarrow> ('a option \<times> 'a sparse_vec) option" where
  "sv_remove index s =
     (let word = index div 64; b = index mod 64 in
      if word \<ge> length (sv_members s) \<or> (sv_members s ! word) AND push_bit b 1 = 0 then Some (None, s)
      else
        do { let dense = sv_dense_index s word b;
             let members = (sv_members s)[word := (sv_members s ! word) AND NOT (push_bit b 1)];
             tail \<leftarrow> counts_dec (drop word (sv_counts s));
             if dense < length (sv_values s)
             then Some (Some (sv_values s ! dense),
                        s\<lparr>sv_members := members, sv_counts := take word (sv_counts s) @ tail,
                          sv_values := take dense (sv_values s) @ drop (Suc dense) (sv_values s)\<rparr>)
             else None })"


subsection \<open>The set of registered indices\<close>

definition sv_indices :: "'a sparse_vec \<Rightarrow> nat set" where
  "sv_indices s = {i. i div 64 < length (sv_members s) \<and> bit (sv_members s ! (i div 64)) (i mod 64)}"

definition rank :: "nat set \<Rightarrow> nat \<Rightarrow> nat" where
  "rank S n = card {i \<in> S. i < n}"

definition sv_ok :: "'a sparse_vec \<Rightarrow> bool" where
  "sv_ok s \<longleftrightarrow>
     sv_index_bits s \<le> 64 \<and> 2 ^ min (sv_index_bits s) 63 \<le> 64 * length (sv_members s) \<and>
     length (sv_counts s) = length (sv_members s) \<and>
     (\<forall>w < length (sv_counts s). unat (sv_counts s ! w) = rank (sv_indices s) (64 * Suc w)) \<and>
     length (sv_values s) = card (sv_indices s)"

definition sv_map :: "'a sparse_vec \<Rightarrow> nat \<rightharpoonup> 'a" where
  "sv_map s i = (if i \<in> sv_indices s then Some (sv_values s ! rank (sv_indices s) i) else None)"

lemma and_push_bit_1: "(w :: u64) AND push_bit b 1 = 0 \<longleftrightarrow> \<not> bit w b" if "b < 64"
  using that by (simp add: bit_iff_and_push_bit_not_eq_0)

lemma finite_indices: "finite (sv_indices s)"
proof (rule finite_subset)
  show "sv_indices s \<subseteq> {..<64 * length (sv_members s)}" by (auto simp: sv_indices_def)
qed simp

lemma indices_bound: "i \<in> sv_indices s \<Longrightarrow> i < 64 * length (sv_members s)"
  by (auto simp: sv_indices_def)

lemma rank_all: "rank (sv_indices s) (64 * length (sv_members s)) = card (sv_indices s)"
  by (auto simp: rank_def intro!: arg_cong [of _ _ card] dest: indices_bound)

lemma rank_mono: "finite S \<Longrightarrow> m \<le> n \<Longrightarrow> rank S m \<le> rank S n"
  by (auto simp: rank_def intro!: card_mono)

lemma rank_less: "finite S \<Longrightarrow> i \<in> S \<Longrightarrow> rank S i < card S"
  by (auto simp: rank_def intro!: psubset_card_mono)

lemma rank_le: "finite S \<Longrightarrow> rank S i \<le> card S"
  by (auto simp: rank_def intro!: card_mono)

lemma rank_inj: "finite S \<Longrightarrow> i \<in> S \<Longrightarrow> i < j \<Longrightarrow> rank S i < rank S j"
  by (auto simp: rank_def intro!: psubset_card_mono)

lemma rank_insert: "finite S \<Longrightarrow> i \<notin> S \<Longrightarrow> rank (insert i S) n = (if i < n then Suc (rank S n) else rank S n)"
proof -
  assume f: "finite S" and i: "i \<notin> S"
  have "{j \<in> insert i S. j < n} = (if i < n then insert i {j \<in> S. j < n} else {j \<in> S. j < n})" by auto
  then show ?thesis using f i by (simp add: rank_def)
qed

lemma rank_remove: "finite S \<Longrightarrow> i \<in> S \<Longrightarrow> rank (S - {i}) n = (if i < n then rank S n - 1 else rank S n)"
proof -
  assume f: "finite S" and i: "i \<in> S"
  have "{j \<in> S - {i}. j < n} = (if i < n then {j \<in> S. j < n} - {i} else {j \<in> S. j < n})" by auto
  then show ?thesis using f i by (simp add: rank_def)
qed

lemma rank_split: "rank S (64 * w + b) = rank S (64 * w) + card {i \<in> S. 64 * w \<le> i \<and> i < 64 * w + b}" if "finite S"
proof -
  have "{i \<in> S. i < 64 * w + b} = {i \<in> S. i < 64 * w} \<union> {i \<in> S. 64 * w \<le> i \<and> i < 64 * w + b}" by auto
  then show ?thesis using that by (simp add: rank_def card_Un_disjoint disjoint_iff)
qed

lemma lower_members:
  assumes "w < length (sv_members s)" "b < 64"
  shows "card {i \<in> sv_indices s. 64 * w \<le> i \<and> i < 64 * w + b} = count_ones ((sv_members s ! w) AND (push_bit b 1 - 1))"
proof -
  have m: "push_bit b 1 - 1 = (mask b :: u64)" by (simp add: mask_eq_exp_minus_1 push_bit_eq_mult)
  have "{i \<in> sv_indices s. 64 * w \<le> i \<and> i < 64 * w + b} = (\<lambda>j. 64 * w + j) ` {j. bit ((sv_members s ! w) AND mask b) j}"
    (is "?A = ?f ` ?B")
  proof (rule set_eqI, rule iffI)
    fix i assume i: "i \<in> ?A"
    then obtain j where j: "i = 64 * w + j" "j < b" by (metis (no_types, lifting) le_Suc_ex mem_Collect_eq nat_add_left_cancel_less)
    then have "i div 64 = w" "i mod 64 = j" using assms(2) by simp_all
    then have "j \<in> ?B" using i j(2) assms(2) by (simp add: sv_indices_def bit_simps)
    then show "i \<in> ?f ` ?B" using j(1) by blast
  next
    fix i assume "i \<in> ?f ` ?B"
    then obtain j where j: "i = 64 * w + j" "bit (sv_members s ! w) j" "j < b" by (auto simp: bit_simps)
    then have "i div 64 = w" "i mod 64 = j" using assms(2) by simp_all
    then show "i \<in> ?A" using j assms(1) by (simp add: sv_indices_def)
  qed
  moreover have "card (?f ` ?B) = card ?B" by (rule card_image) (simp add: inj_on_def)
  ultimately show ?thesis unfolding m by (simp add: count_ones_card)
qed

lemma dense_index_rank:
  assumes ok: "sv_ok s" and w: "w < length (sv_members s)" and b: "b < 64"
  shows "sv_dense_index s w b = rank (sv_indices s) (64 * w + b)"
proof -
  have "(if take w (sv_counts s) = [] then 0 else unat (last (take w (sv_counts s)))) = rank (sv_indices s) (64 * w)"
  proof (cases w)
    case 0
    then show ?thesis by (simp add: rank_def)
  next
    case (Suc v)
    then have "last (take w (sv_counts s)) = sv_counts s ! v"
      using ok w by (simp add: sv_ok_def take_Suc_conv_app_nth)
    then show ?thesis using ok w Suc by (auto simp: sv_ok_def)
  qed
  then show ?thesis
    using rank_split [OF finite_indices, of s w b] lower_members [OF w b] by (simp add: sv_dense_index_def Let_def)
qed


subsection \<open>The operations on the map\<close>

lemma member_iff: "i \<in> sv_indices s \<longleftrightarrow> \<not> (i div 64 \<ge> length (sv_members s) \<or> (sv_members s ! (i div 64)) AND push_bit (i mod 64) 1 = 0)"
  by (simp only: and_push_bit_1 [of "i mod 64"] mod_less_divisor) (auto simp: sv_indices_def)

lemma member_spec: "sv_ok s \<Longrightarrow> sv_member s i = (if i \<in> sv_indices s then Some (rank (sv_indices s) i) else None)"
proof -
  assume ok: "sv_ok s"
  have "sv_dense_index s (i div 64) (i mod 64) = rank (sv_indices s) i" if "i div 64 < length (sv_members s)"
    using dense_index_rank [OF ok that, of "i mod 64"] by simp
  then show ?thesis unfolding sv_member_def Let_def member_iff by auto
qed

lemma indices_set_bit:
  assumes "i div 64 < length (sv_members s)"
  shows "sv_indices (s\<lparr>sv_members := (sv_members s)[i div 64 := (sv_members s ! (i div 64)) OR push_bit (i mod 64) 1]\<rparr>) =
    insert i (sv_indices s)"
proof (rule set_eqI)
  fix j
  have "j = i" if "j div 64 = i div 64" "j mod 64 = i mod 64" using that by (metis div_mult_mod_eq)
  moreover have "bit (push_bit (i mod 64) (1 :: u64)) (j mod 64) \<longleftrightarrow> j mod 64 = i mod 64"
    by (auto simp: bit_exp_iff)
  ultimately show "j \<in> sv_indices (s\<lparr>sv_members := (sv_members s)[i div 64 := (sv_members s ! (i div 64)) OR push_bit (i mod 64) 1]\<rparr>)
      \<longleftrightarrow> j \<in> insert i (sv_indices s)"
    using assms by (cases "j div 64 = i div 64") (auto simp: sv_indices_def bit_or_iff simp del: push_bit_of_1)
qed

lemma indices_clear_bit:
  assumes "i div 64 < length (sv_members s)"
  shows "sv_indices (s\<lparr>sv_members := (sv_members s)[i div 64 := (sv_members s ! (i div 64)) AND NOT (push_bit (i mod 64) 1)]\<rparr>) =
    sv_indices s - {i}"
proof (rule set_eqI)
  fix j
  have "j = i" if "j div 64 = i div 64" "j mod 64 = i mod 64" using that by (metis div_mult_mod_eq)
  moreover have "bit (NOT (push_bit (i mod 64) (1 :: u64))) (j mod 64) \<longleftrightarrow> j mod 64 \<noteq> i mod 64"
    by (auto simp: bit_not_iff bit_exp_iff)
  ultimately show "j \<in> sv_indices (s\<lparr>sv_members := (sv_members s)[i div 64 := (sv_members s ! (i div 64)) AND NOT (push_bit (i mod 64) 1)]\<rparr>)
      \<longleftrightarrow> j \<in> sv_indices s - {i}"
    using assms by (cases "j div 64 = i div 64") (auto simp: sv_indices_def bit_and_iff simp del: push_bit_of_1)
qed

lemma sv_indices_cong [simp]:
  "sv_indices (s\<lparr>sv_counts := c\<rparr>) = sv_indices s" "sv_indices (s\<lparr>sv_values := v\<rparr>) = sv_indices s"
  by (simp_all add: sv_indices_def)

lemma counts_inc_spec: "(\<And>c. c \<in> set cs \<Longrightarrow> unat c < u32_max) \<Longrightarrow> counts_inc cs = Some (map (\<lambda>c. c + 1) cs)"
  by (induction cs) auto

lemma counts_dec_spec: "(\<And>c. c \<in> set cs \<Longrightarrow> unat c > 0) \<Longrightarrow> counts_dec cs = Some (map (\<lambda>c. c - 1) cs)"
  by (induction cs) auto

lemma unat_plus1: "unat (c :: u32) < u32_max \<Longrightarrow> unat (c + 1) = Suc (unat c)"
  using unat_of_nat_u32 [of "Suc (unat c)"] by (simp add: u32_max_def add.commute)

lemma unat_minus1: "unat (c :: u32) > 0 \<Longrightarrow> unat (c - 1) = unat c - 1"
  by (metis unat_minus_one unat_0 less_irrefl)

lemma nth_split: "n < length xs \<Longrightarrow> (take k xs @ map f (drop k xs)) ! n = (if n < k then xs ! n else f (xs ! n))"
  by (cases "n < k") (auto simp: nth_append min_def)

lemma sv_okD:
  assumes "sv_ok s"
  shows "sv_index_bits s \<le> 64" "2 ^ min (sv_index_bits s) 63 \<le> 64 * length (sv_members s)"
    "length (sv_counts s) = length (sv_members s)"
    "\<And>w. w < length (sv_members s) \<Longrightarrow> unat (sv_counts s ! w) = rank (sv_indices s) (64 * Suc w)"
    "length (sv_values s) = card (sv_indices s)"
  using assms by (simp_all add: sv_ok_def)

lemma word_boundary: "(i :: nat) < 64 * Suc k \<longleftrightarrow> \<not> k < i div 64"
  using div_less_iff_less_mult [of 64 i "Suc k"] by (simp add: not_less less_Suc_eq_le mult.commute)

lemma sv_insert_present:
  assumes ok: "sv_ok s" and b: "i < 2 ^ min (sv_index_bits s) 63" and i: "sv_map s i = Some old"
  shows "\<exists>s'. sv_insert i v s = Some (Some old, s') \<and> sv_ok s' \<and> sv_map s' = (sv_map s)(i \<mapsto> v) \<and> sv_index_bits s' = sv_index_bits s"
proof -
  note O = sv_okD [OF ok]
  have m: "i \<in> sv_indices s" "old = sv_values s ! rank (sv_indices s) i" using i by (simp_all add: sv_map_def split: if_splits)
  have w: "i div 64 < length (sv_members s)" "(sv_members s ! (i div 64)) AND push_bit (i mod 64) 1 \<noteq> 0"
    using m(1) unfolding member_iff by simp_all
  have d: "sv_dense_index s (i div 64) (i mod 64) = rank (sv_indices s) i"
    using dense_index_rank [OF ok w(1), of "i mod 64"] by simp
  have r: "rank (sv_indices s) i < length (sv_values s)" using rank_less [OF finite_indices m(1)] O(5) by simp
  let ?s = "s\<lparr>sv_values := (sv_values s)[rank (sv_indices s) i := v]\<rparr>"
  have "sv_insert i v s = Some (Some old, ?s)"
    using b w r m(2) by (simp add: sv_insert_def sv_assert_index_def d Let_def del: push_bit_of_1)
  moreover have "sv_ok ?s" using ok by (simp add: sv_ok_def)
  moreover have "sv_map ?s = (sv_map s)(i \<mapsto> v)"
  proof
    fix j
    have "rank (sv_indices s) j \<noteq> rank (sv_indices s) i" if "j \<in> sv_indices s" "j \<noteq> i"
      using rank_inj [OF finite_indices that(1), of i] rank_inj [OF finite_indices m(1), of j] that(2)
      by (cases i j rule: linorder_cases) auto
    then show "sv_map ?s j = ((sv_map s)(i \<mapsto> v)) j" using m(1) r by (auto simp: sv_map_def)
  qed
  ultimately show ?thesis by fastforce
qed

lemma nth_insert_at:
  assumes "d \<le> length xs" "r \<le> length xs"
  shows "(take d xs @ v # drop d xs) ! r = (if r < d then xs ! r else if r = d then v else xs ! (r - 1))"
  using assms by (auto simp: nth_append min_def nth_Cons' not_less)

lemma sv_insert_fresh:
  assumes ok: "sv_ok s" and b: "i < 2 ^ min (sv_index_bits s) 63" and i: "sv_map s i = None" and n: "sv_len s < u32_max"
  shows "\<exists>s'. sv_insert i v s = Some (None, s') \<and> sv_ok s' \<and> sv_map s' = (sv_map s)(i \<mapsto> v) \<and> sv_index_bits s' = sv_index_bits s"
proof -
  note O = sv_okD [OF ok] and F = finite_indices [of s]
  let ?S = "sv_indices s"
  have m: "i \<notin> ?S" using i by (simp add: sv_map_def split: if_splits)
  have w: "i div 64 < length (sv_members s)" using b O(2) by linarith
  have z: "(sv_members s ! (i div 64)) AND push_bit (i mod 64) 1 = 0" using m w unfolding member_iff by simp
  have d: "sv_dense_index s (i div 64) (i mod 64) = rank ?S i" using dense_index_rank [OF ok w, of "i mod 64"] by simp
  have r: "rank ?S i \<le> length (sv_values s)" using rank_le [OF F] O(5) by simp
  let ?cs = "map (\<lambda>c. c + 1) (drop (i div 64) (sv_counts s))"
  have small: "unat (sv_counts s ! k) < u32_max" if "k < length (sv_members s)" for k
    using O(4) [OF that] rank_le [OF F, of "64 * Suc k"] O(5) n by (simp add: sv_len_def)
  have cs: "counts_inc (drop (i div 64) (sv_counts s)) = Some ?cs"
    by (rule counts_inc_spec) (use small O(3) in \<open>auto simp: in_set_conv_nth\<close>)
  define s' where "s' = s\<lparr>sv_members := (sv_members s)[i div 64 := (sv_members s ! (i div 64)) OR push_bit (i mod 64) 1],
    sv_counts := take (i div 64) (sv_counts s) @ ?cs, sv_values := take (rank ?S i) (sv_values s) @ v # drop (rank ?S i) (sv_values s)\<rparr>"
  have S': "sv_indices s' = insert i ?S" unfolding s'_def by (simp add: indices_set_bit [OF w] del: push_bit_of_1)
  have e: "sv_insert i v s = Some (None, s')"
    using b w z r cs by (simp add: sv_insert_def sv_assert_index_def d Let_def s'_def del: push_bit_of_1)
  have "unat (sv_counts s' ! k) = rank (insert i ?S) (64 * Suc k)" if k: "k < length (sv_members s)" for k
  proof -
    have "i < 64 * Suc k \<longleftrightarrow> \<not> k < i div 64" by (rule word_boundary)
    moreover have "sv_counts s' ! k = (if k < i div 64 then sv_counts s ! k else sv_counts s ! k + 1)"
      using nth_split [of k "sv_counts s" "i div 64" "\<lambda>c. c + 1"] k O(3) by (simp add: s'_def)
    ultimately show ?thesis using O(4) [OF k] unat_plus1 [OF small [OF k]] rank_insert [OF F m] by simp
  qed
  moreover have "length (sv_counts s') = length (sv_members s)" "length (sv_members s') = length (sv_members s)"
    "length (sv_values s') = Suc (length (sv_values s))" "sv_index_bits s' = sv_index_bits s"
    using w r O(3) by (simp_all add: s'_def)
  ultimately have "sv_ok s'" using O F m S' unfolding sv_ok_def by simp
  moreover have "sv_map s' = (sv_map s)(i \<mapsto> v)"
  proof
    fix j
    consider "j = i" | "j \<in> ?S" "j < i" | "j \<in> ?S" "i < j" | "j \<notin> ?S" "j \<noteq> i" using m by force
    then show "sv_map s' j = ((sv_map s)(i \<mapsto> v)) j"
    proof cases
      case 1
      then show ?thesis using nth_insert_at [OF r r] by (simp add: sv_map_def S' rank_insert [OF F m]) (simp add: s'_def)
    next
      case 2
      have "rank ?S j < rank ?S i" by (rule rank_inj [OF F 2])
      then show ?thesis using 2 nth_insert_at [OF r, of "rank ?S j"] r
        by (simp add: sv_map_def S' rank_insert [OF F m]) (simp add: s'_def)
    next
      case 3
      have "rank ?S i \<le> rank ?S j" using rank_mono [OF F, of i j] 3 by simp
      moreover have "Suc (rank ?S j) \<le> length (sv_values s)" using rank_less [OF F 3(1)] O(5) by simp
      ultimately show ?thesis using 3 nth_insert_at [OF r, of "Suc (rank ?S j)"]
        by (simp add: sv_map_def S' rank_insert [OF F m]) (simp add: s'_def)
    next
      case 4
      then show ?thesis by (simp add: sv_map_def S')
    qed
  qed
  ultimately show ?thesis using e by (auto simp: s'_def)
qed

lemma nth_remove_at:
  assumes "d < length xs" "Suc r < length xs"
  shows "(take d xs @ drop (Suc d) xs) ! r = (if r < d then xs ! r else xs ! Suc r)"
  using assms by (auto simp: nth_append min_def not_less)

lemma sv_remove_spec:
  assumes ok: "sv_ok s"
  shows "\<exists>s'. sv_remove i s = Some (sv_map s i, s') \<and> sv_ok s' \<and> sv_map s' = (sv_map s)(i := None) \<and> sv_index_bits s' = sv_index_bits s"
proof (cases "i \<in> sv_indices s")
  case False
  then have "sv_remove i s = Some (None, s)" unfolding sv_remove_def Let_def member_iff by auto
  then show ?thesis using ok False by (auto simp: sv_map_def fun_eq_iff)
next
  case True
  note O = sv_okD [OF ok] and F = finite_indices [of s]
  let ?S = "sv_indices s"
  have w: "i div 64 < length (sv_members s)" "(sv_members s ! (i div 64)) AND push_bit (i mod 64) 1 \<noteq> 0"
    using True unfolding member_iff by simp_all
  have d: "sv_dense_index s (i div 64) (i mod 64) = rank ?S i" using dense_index_rank [OF ok w(1), of "i mod 64"] by simp
  have r: "rank ?S i < length (sv_values s)" using rank_less [OF F True] O(5) by simp
  let ?cs = "map (\<lambda>c. c - 1) (drop (i div 64) (sv_counts s))"
  have pos: "unat (sv_counts s ! k) > 0" if "k < length (sv_members s)" "i div 64 \<le> k" for k
  proof -
    have "i < 64 * Suc k" using that(2) by (simp only: word_boundary not_less)
    then show ?thesis using O(4) [OF that(1)] rank_inj [OF F True, of "64 * Suc k"] by simp
  qed
  have cs: "counts_dec (drop (i div 64) (sv_counts s)) = Some ?cs"
    by (rule counts_dec_spec) (use pos O(3) in \<open>auto simp: in_set_conv_nth\<close>)
  define s' where "s' = s\<lparr>sv_members := (sv_members s)[i div 64 := (sv_members s ! (i div 64)) AND NOT (push_bit (i mod 64) 1)],
    sv_counts := take (i div 64) (sv_counts s) @ ?cs, sv_values := take (rank ?S i) (sv_values s) @ drop (Suc (rank ?S i)) (sv_values s)\<rparr>"
  have S': "sv_indices s' = ?S - {i}" unfolding s'_def by (simp add: indices_clear_bit [OF w(1)] del: push_bit_of_1)
  have e: "sv_remove i s = Some (Some (sv_values s ! rank ?S i), s')"
    using w r cs by (simp add: sv_remove_def d Let_def s'_def del: push_bit_of_1)
  have "unat (sv_counts s' ! k) = rank (?S - {i}) (64 * Suc k)" if k: "k < length (sv_members s)" for k
  proof -
    have "i < 64 * Suc k \<longleftrightarrow> \<not> k < i div 64" by (rule word_boundary)
    moreover have "sv_counts s' ! k = (if k < i div 64 then sv_counts s ! k else sv_counts s ! k - 1)"
      using nth_split [of k "sv_counts s" "i div 64" "\<lambda>c. c - 1"] k O(3) by (simp add: s'_def)
    ultimately show ?thesis using O(4) [OF k] unat_minus1 [OF pos [OF k]] rank_remove [OF F True] by simp
  qed
  moreover have "length (sv_counts s') = length (sv_members s)" "length (sv_members s') = length (sv_members s)"
    "length (sv_values s') = length (sv_values s) - 1" "sv_index_bits s' = sv_index_bits s"
    using w r O(3) by (simp_all add: s'_def)
  ultimately have "sv_ok s'" using O F True S' unfolding sv_ok_def by simp
  moreover have "sv_map s' = (sv_map s)(i := None)"
  proof
    fix j
    consider "j = i" | "j \<in> ?S" "j < i" | "j \<in> ?S" "i < j" | "j \<notin> ?S" "j \<noteq> i" using True by force
    then show "sv_map s' j = ((sv_map s)(i := None)) j"
    proof cases
      case 2
      have "rank ?S j < rank ?S i" by (rule rank_inj [OF F 2])
      then show ?thesis using 2 nth_remove_at [OF r, of "rank ?S j"] r
        by (simp add: sv_map_def S' rank_remove [OF F True]) (simp add: s'_def)
    next
      case 3
      have l: "rank ?S i < rank ?S j" by (rule rank_inj [OF F True 3(2)])
      then obtain q where q: "rank ?S j = Suc q" "rank ?S i \<le> q" by (cases "rank ?S j") auto
      moreover have "rank ?S j < length (sv_values s)" using rank_less [OF F 3(1)] O(5) by simp
      ultimately show ?thesis using 3 nth_remove_at [OF r, of q]
        by (simp add: sv_map_def S' rank_remove [OF F True]) (simp add: s'_def)
    qed (simp_all add: sv_map_def S')
  qed
  ultimately show ?thesis using e True by (auto simp: s'_def sv_map_def)
qed

lemma sv_get_spec: "sv_ok s \<Longrightarrow> sv_get s i = sv_map s i"
  using rank_less [OF finite_indices, of i s] by (auto simp: sv_get_def member_spec sv_map_def sv_okD(5))

lemma sv_new_spec:
  "bits \<le> 64 \<Longrightarrow> \<exists>s. sv_with_index_bits bits = Some s \<and> sv_ok s \<and> sv_map s = Map.empty \<and> sv_index_bits s = bits"
proof -
  assume b: "bits \<le> 64"
  let ?s = "the (sv_with_index_bits bits) :: 'a sparse_vec"
  have e: "sv_with_index_bits bits = Some ?s" using b by (simp add: sv_with_index_bits_def Let_def)
  have f: "sv_indices ?s = {}" "sv_index_bits ?s = bits"
    using b by (auto simp: sv_indices_def sv_with_index_bits_def Let_def)
  have "(2 :: nat) ^ min bits 63 \<le> 64 * (if bits = 0 then 1 else 2 ^ (bits - 6))"
  proof (cases "bits \<le> 6")
    case True
    then have "(2 :: nat) ^ min bits 63 \<le> 2 ^ 6" by (intro power_increasing) auto
    moreover have "(1 :: nat) \<le> (if bits = 0 then 1 else 2 ^ (bits - 6))" by simp
    ultimately show ?thesis by (simp add: True)
  next
    case False
    then have "(64 :: nat) * 2 ^ (bits - 6) = 2 ^ bits" using power_add [of "2 :: nat" 6 "bits - 6"] by simp
    moreover have "(2 :: nat) ^ min bits 63 \<le> 2 ^ bits" by (intro power_increasing) auto
    ultimately show ?thesis using False by simp
  qed
  then have "sv_ok ?s" using b f by (simp add: sv_ok_def rank_def) (simp add: sv_with_index_bits_def Let_def)
  then show ?thesis using e f by (intro exI [of _ ?s]) (auto simp: sv_map_def)
qed

lemma dom_sv_map: "dom (sv_map s) = sv_indices s"
  by (auto simp: sv_map_def split: if_splits)

interpretation sv: keyed_map sv_map "\<lambda>s. sv_ok s \<and> sv_index_bits s = bits" "\<lambda>i. i < 2 ^ min bits 63" u32_max
    sv_insert sv_remove sv_get for bits
proof (unfold_locales, goal_cases)
  case (1 s k v)
  then have "sv_len s < u32_max" by (simp add: dom_sv_map sv_len_def sv_okD(5))
  then show ?case using 1 sv_insert_present [of s k _ v] sv_insert_fresh [of s k v] by (cases "sv_map s k") auto
next
  case (2 s k)
  then show ?case using sv_remove_spec [of s k] by auto
next
  case (3 s k)
  then show ?case by (simp add: sv_get_spec)
next
  case (4 s)
  then show ?case by (simp add: dom_sv_map finite_indices)
qed



text \<open>
  C10. A sparse vector is a finite map from indices to values.  Over any sequence of insertions, removals and
  lookups of indices in its index space (fewer than \<open>2 ^ 32\<close> insertions) nothing panics, every operation answers
  what it answers on the map, and the dense length is the number of registered indices; an insertion outside
  the index space panics.
\<close>
theorem sparse_vec_refines_map:
  fixes ops :: "(nat, 'a) map_op list"
  assumes bits: "bits \<le> 64" and keys: "\<forall>op \<in> set ops. op_key op < 2 ^ min bits 63" and n: "puts ops \<le> u32_max"
  shows "\<exists>s s'. sv_with_index_bits bits = Some s \<and>
    map_run sv_insert sv_remove sv_get ops s = Some (fst (map_spec ops Map.empty), s') \<and>
    sv_map s' = snd (map_spec ops Map.empty) \<and> sv_len s' = card (dom (sv_map s')) \<and>
    (\<forall>i. sv_contains s' i \<longleftrightarrow> i \<in> dom (sv_map s')) \<and>
    (\<forall>i v. 2 ^ min bits 63 \<le> i \<longrightarrow> sv_insert i v s' = None)"
proof -
  obtain s :: "'a sparse_vec" where s: "sv_with_index_bits bits = Some s" "sv_ok s" "sv_map s = Map.empty" "sv_index_bits s = bits"
    using sv_new_spec [OF bits] by blast
  obtain s' where s': "map_run sv_insert sv_remove sv_get ops s = Some (fst (map_spec ops (sv_map s)), s')"
    "sv_ok s' \<and> sv_index_bits s' = bits" "sv_map s' = snd (map_spec ops (sv_map s))"
    using sv.run_refines [of s bits ops] s keys n by auto
  have "sv_insert i v s' = None" if "2 ^ min bits 63 \<le> i" for i v
    using s'(2) that by (simp add: sv_insert_def sv_assert_index_def)
  moreover have "sv_contains s' i \<longleftrightarrow> i \<in> dom (sv_map s')" for i
    using s'(2) by (simp add: sv_contains_def member_spec dom_sv_map)
  moreover have "sv_len s' = card (dom (sv_map s'))" using s'(2) by (simp add: dom_sv_map sv_len_def sv_okD(5))
  ultimately show ?thesis using s s' by auto
qed

theorem sparse_vec_refines_map_witness:
  "\<exists>s s'. sv_with_index_bits 8 = Some s \<and>
    map_run sv_insert sv_remove sv_get [Put 200 ''a'', Put 3 ''b'', Get 200, Del 200, Get 200] s =
      Some ([None, None, Some ''a'', Some ''a'', None], s') \<and> sv_map s' = [3 \<mapsto> ''b'']"
  using sparse_vec_refines_map [of 8 "[Put 200 ''a'', Put 3 ''b'', Get 200, Del 200, Get 200]"]
  by (auto simp: u32_max_def fun_upd_twist)



end
