(* ===== verification/Mtrie.thy ===== *)
theory Mtrie
  imports Prelude
begin

text \<open>
  The IPv4 multi-way trie of \<open>crates/hammer-infra/src/mtrie.rs\<close>: a 16-bit root ply and pooled
  8-bit child plies (strides 16-8-8), with leaves tagged in their low bit. The fixed-size arrays are
  lists whose length the invariant fixes; an assertion that fails and an index outside
  \<open>plies\<close> are \<open>None\<close>. Prefix lengths (\<open>u8\<close>, asserted to be at most 32) are
  natural numbers; the subtractions on them are guarded by the code's conditions.
  \<open>lookup\<close> after one \<open>insert\<close> is an update of the covered keys (last writer wins), and
  \<open>lookup\<close> after \<open>from_entries\<close> is longest-prefix match.
\<close>

subsection \<open>Leaves\<close>

type_synonym mtrie_leaf = u32

definition leaf_MISS :: mtrie_leaf where
  "leaf_MISS = 0"

definition leaf_terminal :: "u32 \<Rightarrow> mtrie_leaf" where
  "leaf_terminal adj = push_bit 1 adj OR 1"

definition leaf_non_terminal :: "usize \<Rightarrow> mtrie_leaf" where
  "leaf_non_terminal ply = push_bit 1 (of_nat ply + 1)"

definition leaf_is_terminal :: "mtrie_leaf \<Rightarrow> bool" where
  "leaf_is_terminal leaf \<longleftrightarrow> leaf AND 1 = 1"

definition leaf_adj_index :: "mtrie_leaf \<Rightarrow> u32 option" where
  "leaf_adj_index leaf = (if leaf AND 1 = 1 then Some (drop_bit 1 leaf) else None)"

definition leaf_ply_index :: "mtrie_leaf \<Rightarrow> usize option" where
  "leaf_ply_index leaf =
     (if leaf \<noteq> 0 \<and> leaf AND 1 = 0 then Some (unat (drop_bit 1 leaf) - 1) else None)"

definition root_stride :: "u32 \<Rightarrow> usize" where
  "root_stride key = unat (drop_bit 16 key)"

definition first_stride :: "u32 \<Rightarrow> usize" where
  "first_stride key = unat (drop_bit 8 key AND 0xff)"

definition second_stride :: "u32 \<Rightarrow> usize" where
  "second_stride key = unat (key AND 0xff)"


subsection \<open>Plies\<close>

record mtrie16_ply =
  p16_leaves :: "mtrie_leaf list"
  p16_prefix_lens :: "nat list"

record mtrie8_ply =
  p8_leaves :: "mtrie_leaf list"
  p8_prefix_lens :: "nat list"
  p8_n_non_empty :: int
  p8_base_len :: nat

definition ply16_filled :: "mtrie_leaf \<Rightarrow> nat \<Rightarrow> mtrie16_ply" where
  "ply16_filled leaf prefix_len =
     \<lparr>p16_leaves = replicate (2 ^ 16) leaf, p16_prefix_lens = replicate (2 ^ 16) prefix_len\<rparr>"

definition ply8_filled :: "mtrie_leaf \<Rightarrow> nat \<Rightarrow> mtrie8_ply" where
  "ply8_filled inherited base_len =
     \<lparr>p8_leaves = replicate (2 ^ 8) inherited, p8_prefix_lens = replicate (2 ^ 8) base_len,
       p8_n_non_empty = 0, p8_base_len = base_len\<rparr>"

text \<open>\<open>base & !(span - 1)\<close> on 64-bit words, with \<open>span = 1 << bits\<close>.\<close>

definition span_start :: "usize \<Rightarrow> nat \<Rightarrow> usize" where
  "span_start base bits = unat ((of_nat base :: u64) AND NOT (push_bit bits 1 - 1))"

definition ply16_fill_stride :: "mtrie16_ply \<Rightarrow> usize \<Rightarrow> nat \<Rightarrow> nat \<Rightarrow> mtrie_leaf \<Rightarrow> mtrie16_ply" where
  "ply16_fill_stride ply base prefix_bits stride_bits leaf =
     (let span = 2 ^ (stride_bits - prefix_bits);
          start = span_start base (stride_bits - prefix_bits)
      in foldl (\<lambda>ply slot. ply\<lparr>p16_leaves := (p16_leaves ply)[slot := leaf],
                                p16_prefix_lens := (p16_prefix_lens ply)[slot := prefix_bits]\<rparr>)
           ply [start..<start + span])"

definition ply8_fill_slot :: "nat \<Rightarrow> mtrie_leaf \<Rightarrow> mtrie8_ply \<Rightarrow> usize \<Rightarrow> mtrie8_ply" where
  "ply8_fill_slot prefix_bits leaf ply slot =
     (let was_empty = p8_prefix_lens ply ! slot \<le> p8_base_len ply;
          now_non_empty = prefix_bits > p8_base_len ply
      in ply\<lparr>p8_leaves := (p8_leaves ply)[slot := leaf],
             p8_prefix_lens := (p8_prefix_lens ply)[slot := prefix_bits],
             p8_n_non_empty :=
               (case (was_empty, now_non_empty) of
                  (True, True) \<Rightarrow> p8_n_non_empty ply + 1
                | (False, False) \<Rightarrow> p8_n_non_empty ply - 1
                | _ \<Rightarrow> p8_n_non_empty ply)\<rparr>)"

definition ply8_fill_stride :: "mtrie8_ply \<Rightarrow> usize \<Rightarrow> nat \<Rightarrow> nat \<Rightarrow> mtrie_leaf \<Rightarrow> mtrie8_ply" where
  "ply8_fill_stride ply base prefix_bits stride_bits leaf =
     (let span = 2 ^ (stride_bits - prefix_bits);
          start = span_start base (stride_bits - prefix_bits)
      in foldl (ply8_fill_slot prefix_bits leaf) ply [start..<start + span])"


subsection \<open>The trie\<close>

record mtrie =
  mt_root :: mtrie16_ply
  mt_plies :: "mtrie8_ply list"

definition mtrie_empty :: mtrie where
  "mtrie_empty = \<lparr>mt_root = ply16_filled leaf_MISS 0, mt_plies = []\<rparr>"

definition alloc_ply :: "mtrie \<Rightarrow> mtrie_leaf \<Rightarrow> nat \<Rightarrow> usize \<times> mtrie" where
  "alloc_ply t inherited base_len =
     (length (mt_plies t), t\<lparr>mt_plies := mt_plies t @ [ply8_filled inherited base_len]\<rparr>)"

definition ensure_root_ply :: "mtrie \<Rightarrow> usize \<Rightarrow> nat \<Rightarrow> usize \<times> mtrie" where
  "ensure_root_ply t root_slot cover_len =
     (let leaf = p16_leaves (mt_root t) ! root_slot in
      case leaf_ply_index leaf of
        Some idx \<Rightarrow> (idx, t)
      | None \<Rightarrow>
          let cover = max (p16_prefix_lens (mt_root t) ! root_slot) cover_len;
              (idx, t) = alloc_ply t leaf cover;
              root = mt_root t
          in (idx, t\<lparr>mt_root := root\<lparr>p16_leaves := (p16_leaves root)[root_slot := leaf_non_terminal idx],
                                     p16_prefix_lens := (p16_prefix_lens root)[root_slot := cover_len]\<rparr>\<rparr>))"

text \<open>\<open>self.plies[parent_ply]\<close> panics outside the pool.\<close>

definition ensure_child_ply :: "mtrie \<Rightarrow> usize \<Rightarrow> usize \<Rightarrow> nat \<Rightarrow> (usize \<times> mtrie) option" where
  "ensure_child_ply t parent_ply slot cover_len =
     (if \<not> parent_ply < length (mt_plies t) then None
      else let parent = mt_plies t ! parent_ply;
               leaf = p8_leaves parent ! slot
           in case leaf_ply_index leaf of
                Some idx \<Rightarrow> Some (idx, t)
              | None \<Rightarrow>
                  let cover = max (p8_prefix_lens parent ! slot) cover_len;
                      (idx, t) = alloc_ply t leaf cover
                  in Some (idx, t\<lparr>mt_plies := (mt_plies t)[parent_ply :=
                       parent\<lparr>p8_leaves := (p8_leaves parent)[slot := leaf_non_terminal idx],
                              p8_prefix_lens := (p8_prefix_lens parent)[slot := cover_len],
                              p8_n_non_empty := p8_n_non_empty parent + 1\<rparr>]\<rparr>))"

definition fill_ply :: "mtrie \<Rightarrow> usize \<Rightarrow> usize \<Rightarrow> nat \<Rightarrow> nat \<Rightarrow> mtrie_leaf \<Rightarrow> mtrie option" where
  "fill_ply t ply base prefix_bits stride_bits leaf =
     (if \<not> ply < length (mt_plies t) then None
      else Some (t\<lparr>mt_plies := (mt_plies t)[ply :=
             ply8_fill_stride (mt_plies t ! ply) base prefix_bits stride_bits leaf]\<rparr>))"

definition mtrie_insert :: "mtrie \<Rightarrow> u32 \<Rightarrow> nat \<Rightarrow> u32 \<Rightarrow> mtrie option" where
  "mtrie_insert t key prefix_len v =
     (if \<not> prefix_len \<le> 32 then None
      else let terminal = leaf_terminal v in
      if prefix_len \<le> 16
      then Some (t\<lparr>mt_root := ply16_fill_stride (mt_root t) (root_stride key) prefix_len 16 terminal\<rparr>)
      else let (first_ply, t) = ensure_root_ply t (root_stride key) 16 in
      if prefix_len \<le> 24
      then fill_ply t first_ply (first_stride key) (prefix_len - 16) 8 terminal
      else case ensure_child_ply t first_ply (first_stride key) 24 of
             None \<Rightarrow> None
           | Some (second_ply, t) \<Rightarrow>
               fill_ply t second_ply (second_stride key) (prefix_len - 16 - 8) 8 terminal)"

text \<open>\<open>leaf.ply_index().and_then(|idx| self.plies.get(idx))\<close>\<close>

definition leaf_ply :: "mtrie \<Rightarrow> mtrie_leaf \<Rightarrow> mtrie8_ply option" where
  "leaf_ply t leaf =
     (case leaf_ply_index leaf of
        None \<Rightarrow> None
      | Some idx \<Rightarrow> if idx < length (mt_plies t) then Some (mt_plies t ! idx) else None)"

definition mtrie_lookup :: "mtrie \<Rightarrow> u32 \<Rightarrow> u32 option" where
  "mtrie_lookup t key =
     (let leaf = p16_leaves (mt_root t) ! root_stride key in
      if leaf_is_terminal leaf then leaf_adj_index leaf
      else case leaf_ply t leaf of
             None \<Rightarrow> None
           | Some ply \<Rightarrow>
               let leaf = p8_leaves ply ! first_stride key in
               if leaf_is_terminal leaf then leaf_adj_index leaf
               else case leaf_ply t leaf of
                      None \<Rightarrow> None
                    | Some ply \<Rightarrow> leaf_adj_index (p8_leaves ply ! second_stride key))"


subsection \<open>PackedMtrie\<close>

text \<open>The conversions of the trait \<open>PackedMtrieValue\<close> are the parameters \<open>into\<close> and
  \<open>from\<close>.\<close>

record 'v mtrie_entry =
  me_key :: u32
  me_prefix_len :: nat
  me_value :: 'v

definition mtrie_entry_new :: "u32 \<Rightarrow> nat \<Rightarrow> 'v \<Rightarrow> 'v mtrie_entry option" where
  "mtrie_entry_new key prefix_len v =
     (if prefix_len \<le> 32 then Some \<lparr>me_key = key, me_prefix_len = prefix_len, me_value = v\<rparr> else None)"

definition packed_insert :: "('v \<Rightarrow> u32) \<Rightarrow> mtrie \<Rightarrow> u32 \<Rightarrow> nat \<Rightarrow> 'v \<Rightarrow> mtrie option" where
  "packed_insert into_leaf t key prefix_len v = mtrie_insert t key prefix_len (into_leaf v)"

definition packed_lookup :: "(u32 \<Rightarrow> 'v) \<Rightarrow> mtrie \<Rightarrow> u32 \<Rightarrow> 'v option" where
  "packed_lookup from_leaf t key = map_option from_leaf (mtrie_lookup t key)"

fun packed_insert_all :: "('v \<Rightarrow> u32) \<Rightarrow> mtrie \<Rightarrow> 'v mtrie_entry list \<Rightarrow> mtrie option" where
  "packed_insert_all into_leaf t [] = Some t"
| "packed_insert_all into_leaf t (e # es) =
     (case packed_insert into_leaf t (me_key e) (me_prefix_len e) (me_value e) of
        None \<Rightarrow> None
      | Some t \<Rightarrow> packed_insert_all into_leaf t es)"

definition packed_from_entries :: "('v \<Rightarrow> u32) \<Rightarrow> 'v mtrie_entry list \<Rightarrow> mtrie option" where
  "packed_from_entries into_leaf entries =
     packed_insert_all into_leaf mtrie_empty (sort_key me_prefix_len entries)"


subsection \<open>Specification\<close>

definition prefix_matches :: "u32 \<Rightarrow> nat \<Rightarrow> u32 \<Rightarrow> bool" where
  "prefix_matches net prefix_len key \<longleftrightarrow> drop_bit (32 - prefix_len) key = drop_bit (32 - prefix_len) net"

text \<open>Longest-prefix match over a list of entries; among equally long matches the last entry
  counts.\<close>

fun lpm_from :: "'v mtrie_entry option \<Rightarrow> 'v mtrie_entry list \<Rightarrow> u32 \<Rightarrow> 'v mtrie_entry option" where
  "lpm_from best [] key = best"
| "lpm_from best (e # es) key =
     (if prefix_matches (me_key e) (me_prefix_len e) key \<and>
         (case best of None \<Rightarrow> True | Some b \<Rightarrow> me_prefix_len b \<le> me_prefix_len e)
      then lpm_from (Some e) es key
      else lpm_from best es key)"

definition lpm :: "'v mtrie_entry list \<Rightarrow> u32 \<Rightarrow> 'v mtrie_entry option" where
  "lpm es key = lpm_from None es key"

subsection \<open>Leaf encoding\<close>

lemma shift_or_bits:
  fixes v :: u32
  assumes "0 < n" "n < 32"
  shows "(push_bit n v OR 1) AND 1 = 1" "push_bit n v AND 1 = 0"
    "drop_bit n (push_bit n v OR 1) = take_bit (32 - n) v" "drop_bit n (push_bit n v) = take_bit (32 - n) v"
  by (rule bit_eqI; use assms in \<open>auto simp: bit_simps\<close>)+

lemma leaf_terminal_simps [simp]:
  "leaf_is_terminal (leaf_terminal v)" "leaf_adj_index (leaf_terminal v) = Some (take_bit 31 v)"
  "leaf_ply_index (leaf_terminal v) = None"
  using shift_or_bits [of 1 v]
  by (simp_all add: leaf_is_terminal_def leaf_terminal_def leaf_adj_index_def leaf_ply_index_def del: push_bit_of_Suc_0)

lemma leaf_MISS_simps [simp]:
  "\<not> leaf_is_terminal leaf_MISS" "leaf_adj_index leaf_MISS = None" "leaf_ply_index leaf_MISS = None"
  by (simp_all add: leaf_is_terminal_def leaf_MISS_def leaf_adj_index_def leaf_ply_index_def)

lemma leaf_non_terminal_simps:
  assumes "i < 2 ^ 31 - 1"
  shows "\<not> leaf_is_terminal (leaf_non_terminal i)" "leaf_ply_index (leaf_non_terminal i) = Some i"
proof -
  define w where "w = (of_nat i + 1 :: u32)"
  have u: "unat w = Suc i"
    using assms unat_of_nat_u32 [of "Suc i"] by (simp add: w_def add.commute)
  have "take_bit 31 w = w"
    unfolding word_unat_eq_iff unsigned_take_bit_eq using u assms by (simp add: take_bit_eq_mod)
  then have b: "drop_bit 1 (push_bit 1 w) = w" and a: "push_bit 1 w AND 1 = 0"
    using shift_or_bits [of 1 w] by simp_all
  have c: "push_bit 1 w \<noteq> 0" using b u by (metis drop_bit_of_0 nat.distinct(1) unsigned_0)
  show "\<not> leaf_is_terminal (leaf_non_terminal i)"
    by (simp only: leaf_is_terminal_def leaf_non_terminal_def a flip: w_def) simp
  show "leaf_ply_index (leaf_non_terminal i) = Some i"
    using u c by (simp only: leaf_ply_index_def leaf_non_terminal_def a b flip: w_def) simp
qed

lemma leaf_terminal_no_ply: "leaf_is_terminal leaf \<Longrightarrow> leaf_ply_index leaf = None"
  by (simp add: leaf_is_terminal_def leaf_ply_index_def)

lemma leaf_adj_index_not_terminal: "\<not> leaf_is_terminal leaf \<Longrightarrow> leaf_adj_index leaf = None"
  by (simp add: leaf_is_terminal_def leaf_adj_index_def)


subsection \<open>Strides and prefixes\<close>

lemma unat_drop_bit_div: "unat (drop_bit n (w :: u32)) = unat w div 2 ^ n"
  unfolding unat_drop_bit_eq by (rule drop_bit_eq_div)

lemma strides_nat:
  "root_stride key = unat key div 2 ^ 16"
  "first_stride key = unat key div 2 ^ 8 mod 2 ^ 8"
  "second_stride key = unat key mod 2 ^ 8"
proof -
  have m: "w AND 0xff = take_bit 8 w" for w :: u32
    by (simp add: take_bit_eq_mask mask_eq_exp_minus_1)
  show "root_stride key = unat key div 2 ^ 16"
    by (simp only: root_stride_def unat_drop_bit_div)
  show "first_stride key = unat key div 2 ^ 8 mod 2 ^ 8"
    by (simp only: first_stride_def m unsigned_take_bit_eq unat_drop_bit_div) (simp only: take_bit_eq_mod)
  show "second_stride key = unat key mod 2 ^ 8"
    by (simp only: second_stride_def m unsigned_take_bit_eq) (simp only: take_bit_eq_mod)
qed

lemma stride_less: "root_stride key < 2 ^ 16" "first_stride key < 2 ^ 8" "second_stride key < 2 ^ 8"
  using unat_u32_less [of key] by (simp_all add: strides_nat less_mult_imp_div_less)

lemma span_start_eq:
  assumes "base < 2 ^ 64" "bits < 64"
  shows "span_start base bits = base div 2 ^ bits * 2 ^ bits"
proof -
  have "(push_bit bits 1 - 1 :: u64) = mask bits" by (simp add: mask_eq_exp_minus_1)
  then have "span_start base bits = unat ((of_nat base :: u64) AND NOT (mask bits))"
    by (simp add: span_start_def)
  also have "(of_nat base :: u64) AND NOT (mask bits) = push_bit bits (drop_bit bits (of_nat base))"
    by (rule bit_eqI) (auto simp: bit_simps)
  also have "unat \<dots> = base div 2 ^ bits * 2 ^ bits"
  proof -
    have "base div 2 ^ bits * 2 ^ bits < 2 ^ 64"
      using assms(1) by (meson div_times_less_eq_dividend order_le_less_trans)
    moreover have "unat (of_nat base :: u64) = base"
      using assms(1) by (simp add: unat_of_nat take_bit_eq_mod)
    ultimately show ?thesis
      by (simp only: unsigned_push_bit_eq unat_drop_bit_eq) (simp add: push_bit_eq_mult drop_bit_eq_div take_bit_eq_mod)
  qed
  finally show ?thesis .
qed

lemma div_split:
  fixes x y s t :: nat
  assumes "0 < s" "0 < t"
  shows "x div s = y div s \<longleftrightarrow>
     x div (s * t) = y div (s * t) \<and> x mod (s * t) div s = y mod (s * t) div s"
proof -
  have d: "z div (s * t) = z div s div t" "z mod (s * t) div s = z div s mod t" for z :: nat
    using assms by (simp_all add: div_mult2_eq mod_mult2_eq)
  show ?thesis unfolding d by (metis div_mod_decomp)
qed

lemma in_span_iff:
  fixes i b s :: nat
  assumes "0 < s"
  shows "b div s * s \<le> i \<and> i < b div s * s + s \<longleftrightarrow> i div s = b div s"
proof
  assume "b div s * s \<le> i \<and> i < b div s * s + s"
  then show "i div s = b div s"
    by (metis add.commute div_nat_eqI mult.commute mult_Suc)
next
  assume "i div s = b div s"
  then show "b div s * s \<le> i \<and> i < b div s * s + s"
    using assms div_times_less_eq_dividend [of i s] dividend_less_div_times [of s i] by (simp add: add.commute)
qed

lemma prefix_matches_nat:
  "prefix_matches net len key \<longleftrightarrow> unat key div 2 ^ (32 - len) = unat net div 2 ^ (32 - len)"
  by (simp only: prefix_matches_def unat_drop_bit_div flip: unat_inj_iff)

subsection \<open>Filling a span\<close>

lemma span_mem:
  assumes "base < 2 ^ 64" "bits < 64"
  shows "i \<in> {span_start base bits..<span_start base bits + 2 ^ bits} \<longleftrightarrow> i div 2 ^ bits = base div 2 ^ bits"
  using in_span_iff [of "2 ^ bits" base i] assms by (simp add: span_start_eq)

lemma ply16_fill_stride_leaves:
  assumes "base < 2 ^ 16" "length (p16_leaves ply) = 2 ^ 16"
  shows "i < 2 ^ 16 \<Longrightarrow> p16_leaves (ply16_fill_stride ply base pb 16 leaf) ! i =
      (if i div 2 ^ (16 - pb) = base div 2 ^ (16 - pb) then leaf else p16_leaves ply ! i)"
    "length (p16_leaves (ply16_fill_stride ply base pb 16 leaf)) = 2 ^ 16"
    "length (p16_prefix_lens (ply16_fill_stride ply base pb 16 leaf)) = length (p16_prefix_lens ply)"
proof -
  have f: "p16_leaves (foldl (\<lambda>ply slot. ply\<lparr>p16_leaves := (p16_leaves ply)[slot := leaf],
                                p16_prefix_lens := (p16_prefix_lens ply)[slot := pb]\<rparr>) ply ks) =
      foldl (\<lambda>ss k. ss[k := leaf]) (p16_leaves ply) ks"
    "length (p16_prefix_lens (foldl (\<lambda>ply slot. ply\<lparr>p16_leaves := (p16_leaves ply)[slot := leaf],
                                p16_prefix_lens := (p16_prefix_lens ply)[slot := pb]\<rparr>) ply ks)) =
      length (p16_prefix_lens ply)" for ply :: mtrie16_ply and ks
    by (induction ks arbitrary: ply) simp_all
  have m: "j \<in> set [span_start base (16 - pb)..<span_start base (16 - pb) + 2 ^ (16 - pb)] \<longleftrightarrow>
      j div 2 ^ (16 - pb) = base div 2 ^ (16 - pb)" for j
    using span_mem [of base "16 - pb" j] assms(1) by simp
  show "p16_leaves (ply16_fill_stride ply base pb 16 leaf) ! i =
      (if i div 2 ^ (16 - pb) = base div 2 ^ (16 - pb) then leaf else p16_leaves ply ! i)" if "i < 2 ^ 16"
    unfolding ply16_fill_stride_def Let_def f
    by (subst foldl_list_update) (use that assms m in \<open>simp_all del: set_upt\<close>)
  show "length (p16_leaves (ply16_fill_stride ply base pb 16 leaf)) = 2 ^ 16"
    "length (p16_prefix_lens (ply16_fill_stride ply base pb 16 leaf)) = length (p16_prefix_lens ply)"
    unfolding ply16_fill_stride_def Let_def f by (simp_all add: foldl_list_update assms)
qed

lemma ply8_fill_stride_leaves:
  assumes "base < 2 ^ 8" "length (p8_leaves ply) = 2 ^ 8"
  shows "i < 2 ^ 8 \<Longrightarrow> p8_leaves (ply8_fill_stride ply base pb 8 leaf) ! i =
      (if i div 2 ^ (8 - pb) = base div 2 ^ (8 - pb) then leaf else p8_leaves ply ! i)"
    "length (p8_leaves (ply8_fill_stride ply base pb 8 leaf)) = 2 ^ 8"
    "length (p8_prefix_lens (ply8_fill_stride ply base pb 8 leaf)) = length (p8_prefix_lens ply)"
proof -
  have f: "p8_leaves (foldl (ply8_fill_slot pb leaf) ply ks) =
      foldl (\<lambda>ss k. ss[k := leaf]) (p8_leaves ply) ks"
    "length (p8_prefix_lens (foldl (ply8_fill_slot pb leaf) ply ks)) = length (p8_prefix_lens ply)"
    for ply :: mtrie8_ply and ks
    by (induction ks arbitrary: ply) (simp_all add: ply8_fill_slot_def Let_def)
  have m: "j \<in> set [span_start base (8 - pb)..<span_start base (8 - pb) + 2 ^ (8 - pb)] \<longleftrightarrow>
      j div 2 ^ (8 - pb) = base div 2 ^ (8 - pb)" for j
    using span_mem [of base "8 - pb" j] assms(1) by simp
  show "p8_leaves (ply8_fill_stride ply base pb 8 leaf) ! i =
      (if i div 2 ^ (8 - pb) = base div 2 ^ (8 - pb) then leaf else p8_leaves ply ! i)" if "i < 2 ^ 8"
    unfolding ply8_fill_stride_def Let_def f
    by (subst foldl_list_update) (use that assms m in \<open>simp_all del: set_upt\<close>)
  show "length (p8_leaves (ply8_fill_stride ply base pb 8 leaf)) = 2 ^ 8"
    "length (p8_prefix_lens (ply8_fill_stride ply base pb 8 leaf)) = length (p8_prefix_lens ply)"
    unfolding ply8_fill_stride_def Let_def f by (simp_all add: foldl_list_update assms)
qed


subsection \<open>The invariant\<close>

text \<open>Every ply hangs off one slot: of the root, or of a ply that hangs off the root. Plies of the
  second level hold no references.\<close>

datatype ply_owner = RootSlot nat | PlySlot nat nat

definition rleaf :: "mtrie \<Rightarrow> nat \<Rightarrow> mtrie_leaf" where
  "rleaf t r = p16_leaves (mt_root t) ! r"

definition pleaf :: "mtrie \<Rightarrow> nat \<Rightarrow> nat \<Rightarrow> mtrie_leaf" where
  "pleaf t i s = p8_leaves (mt_plies t ! i) ! s"

definition mtrie_shape :: "mtrie \<Rightarrow> bool" where
  "mtrie_shape t \<longleftrightarrow>
     length (p16_leaves (mt_root t)) = 2 ^ 16 \<and> length (p16_prefix_lens (mt_root t)) = 2 ^ 16 \<and>
     list_all (\<lambda>ply. length (p8_leaves ply) = 2 ^ 8 \<and> length (p8_prefix_lens ply) = 2 ^ 8) (mt_plies t)"

definition mtrie_owned :: "(nat \<Rightarrow> ply_owner) \<Rightarrow> mtrie \<Rightarrow> bool" where
  "mtrie_owned own t \<longleftrightarrow>
     (\<forall>r i. r < 2 ^ 16 \<longrightarrow> leaf_ply_index (rleaf t r) = Some i \<longrightarrow>
        i < length (mt_plies t) \<and> own i = RootSlot r) \<and>
     (\<forall>i s j. i < length (mt_plies t) \<longrightarrow> s < 2 ^ 8 \<longrightarrow> leaf_ply_index (pleaf t i s) = Some j \<longrightarrow>
        j < length (mt_plies t) \<and> own j = PlySlot i s \<and> (\<exists>r. own i = RootSlot r))"

definition mtrie_inv :: "mtrie \<Rightarrow> bool" where
  "mtrie_inv t \<longleftrightarrow> mtrie_shape t \<and> (\<exists>own. mtrie_owned own t)"

lemma leaf_ply_eq: "leaf_ply_index leaf = Some i \<Longrightarrow> i < length (mt_plies t) \<Longrightarrow> leaf_ply t leaf = Some (mt_plies t ! i)"
  by (simp add: leaf_ply_def)

lemma leaf_ply_None: "leaf_ply_index leaf = None \<Longrightarrow> leaf_ply t leaf = None"
  by (simp add: leaf_ply_def)

lemma leaf_ply_index_Some: "leaf_ply_index leaf = Some i \<Longrightarrow> \<not> leaf_is_terminal leaf"
  using leaf_terminal_no_ply by fastforce

text \<open>Under the invariant a lookup is a walk over the references.\<close>

lemma mtrie_lookup_eq:
  assumes "mtrie_owned own t"
  shows "mtrie_lookup t key =
    (case leaf_ply_index (rleaf t (root_stride key)) of
       None \<Rightarrow> leaf_adj_index (rleaf t (root_stride key))
     | Some p \<Rightarrow>
         (case leaf_ply_index (pleaf t p (first_stride key)) of
            None \<Rightarrow> leaf_adj_index (pleaf t p (first_stride key))
          | Some q \<Rightarrow> leaf_adj_index (pleaf t q (second_stride key))))"
proof (cases "leaf_ply_index (rleaf t (root_stride key))")
  case None
  then show ?thesis
    by (auto simp: mtrie_lookup_def rleaf_def Let_def leaf_ply_None leaf_adj_index_not_terminal)
next
  case (Some p)
  then have p: "p < length (mt_plies t)" "\<not> leaf_is_terminal (rleaf t (root_stride key))"
    using assms stride_less(1) [of key] leaf_ply_index_Some unfolding mtrie_owned_def by blast+
  show ?thesis
  proof (cases "leaf_ply_index (pleaf t p (first_stride key))")
    case None
    then show ?thesis using Some p leaf_ply_eq [OF Some p(1)]
      by (auto simp: mtrie_lookup_def rleaf_def pleaf_def Let_def leaf_ply_None leaf_adj_index_not_terminal)
  next
    case s: (Some q)
    then have q: "q < length (mt_plies t)" "\<not> leaf_is_terminal (pleaf t p (first_stride key))"
      using assms p(1) stride_less(2) [of key] leaf_ply_index_Some unfolding mtrie_owned_def by blast+
    then show ?thesis using Some p leaf_ply_eq [OF Some p(1)] s leaf_ply_eq [OF s q(1)]
      by (simp add: mtrie_lookup_def rleaf_def pleaf_def Let_def)
  qed
qed

subsection \<open>Allocation of child plies keeps every lookup\<close>

lemma shape_ply: "mtrie_shape t \<Longrightarrow> i < length (mt_plies t) \<Longrightarrow>
    length (p8_leaves (mt_plies t ! i)) = 2 ^ 8 \<and> length (p8_prefix_lens (mt_plies t ! i)) = 2 ^ 8"
  by (simp add: mtrie_shape_def list_all_length)

lemma owned_root:
  "mtrie_owned own t \<Longrightarrow> r < 2 ^ 16 \<Longrightarrow> leaf_ply_index (rleaf t r) = Some i \<Longrightarrow>
     i < length (mt_plies t) \<and> own i = RootSlot r"
  unfolding mtrie_owned_def by blast

lemma owned_ply:
  "mtrie_owned own t \<Longrightarrow> i < length (mt_plies t) \<Longrightarrow> s < 2 ^ 8 \<Longrightarrow>
     leaf_ply_index (pleaf t i s) = Some j \<Longrightarrow>
     j < length (mt_plies t) \<and> own j = PlySlot i s \<and> (\<exists>r. own i = RootSlot r)"
  unfolding mtrie_owned_def by blast

text \<open>A trie \<open>t'\<close> that differs from \<open>t\<close> by one new ply \<open>n\<close>, filled with the
  leaf it replaced, and by the reference to it.\<close>

lemma ensure_root_ply_spec:
  assumes shape: "mtrie_shape t" and own: "mtrie_owned own t" and r: "r < 2 ^ 16"
    and room: "length (mt_plies t) < 2 ^ 31 - 1" and run: "ensure_root_ply t r cover = (p, t')"
  obtains own' where "mtrie_shape t'" "mtrie_owned own' t'"
    "leaf_ply_index (rleaf t' r) = Some p" "own' p = RootSlot r" "p < length (mt_plies t')"
    "\<And>key. mtrie_lookup t' key = mtrie_lookup t key"
    "length (mt_plies t') \<le> Suc (length (mt_plies t))"
proof (cases "leaf_ply_index (rleaf t r)")
  case (Some idx)
  then have "p = idx \<and> t' = t" using run by (simp add: ensure_root_ply_def rleaf_def)
  then show ?thesis using that [of own] shape own Some owned_root [OF own r Some] by simp
next
  case None
  let ?n = "length (mt_plies t)"
  let ?nt = "leaf_non_terminal ?n"
  have nt: "leaf_ply_index ?nt = Some ?n" "\<not> leaf_is_terminal ?nt"
    using leaf_non_terminal_simps [OF room] by simp_all
  have pn: "p = ?n" and plies: "\<exists>b. mt_plies t' = mt_plies t @ [ply8_filled (rleaf t r) b]"
    and root: "p16_leaves (mt_root t') = (p16_leaves (mt_root t))[r := ?nt]"
      "length (p16_prefix_lens (mt_root t')) = length (p16_prefix_lens (mt_root t))"
    using run None by (auto simp: ensure_root_ply_def rleaf_def alloc_ply_def Let_def)
  have len: "length (mt_plies t') = Suc ?n" using plies by auto
  have R: "rleaf t' r' = (if r' = r then ?nt else rleaf t r')" if "r' < 2 ^ 16" for r'
    using that r shape unfolding mtrie_shape_def by (simp add: rleaf_def root)
  have P: "pleaf t' i s = (if i = ?n then rleaf t r else pleaf t i s)" if "i \<le> ?n" "s < 2 ^ 8" for i s
    using that plies by (auto simp: pleaf_def nth_append ply8_filled_def)
  define own' where "own' = own(?n := RootSlot r)"
  have sh: "mtrie_shape t'"
    using shape plies unfolding mtrie_shape_def by (auto simp: root ply8_filled_def)
  have ow: "mtrie_owned own' t'"
    unfolding mtrie_owned_def
  proof (intro conjI allI impI)
    fix r' i assume a: "r' < 2 ^ 16" "leaf_ply_index (rleaf t' r') = Some i"
    show "i < length (mt_plies t')" "own' i = RootSlot r'"
      using a R [of r'] owned_root [OF own a(1), of i] nt by (auto simp: len own'_def split: if_splits)
  next
    fix i s j assume a: "i < length (mt_plies t')" "s < 2 ^ 8" "leaf_ply_index (pleaf t' i s) = Some j"
    then have i: "i < ?n" "leaf_ply_index (pleaf t i s) = Some j"
      using P [of i s] None len by (auto split: if_splits)
    show "j < length (mt_plies t')" "own' j = PlySlot i s" "\<exists>r. own' i = RootSlot r"
      using owned_ply [OF own i(1) a(2) i(2)] i(1) by (auto simp: len own'_def)
  qed
  have "mtrie_lookup t' key = mtrie_lookup t key" for key
  proof (cases "leaf_ply_index (rleaf t (root_stride key))")
    case n: None
    then show ?thesis
      unfolding mtrie_lookup_eq [OF own] mtrie_lookup_eq [OF ow]
      using R [OF stride_less(1), of key] P [of ?n, OF _ stride_less(2), of key] None nt by auto
  next
    case (Some i)
    have i: "i < ?n" "root_stride key \<noteq> r" using owned_root [OF own stride_less(1) Some] Some None by auto
    have q: "q < ?n" if "leaf_ply_index (pleaf t i (first_stride key)) = Some q" for q
      using owned_ply [OF own i(1) stride_less(2) that] by simp
    show ?thesis
      unfolding mtrie_lookup_eq [OF own] mtrie_lookup_eq [OF ow]
      using Some i R [OF stride_less(1), of key] P [of i, OF _ stride_less(2), of key]
        P [OF _ stride_less(3), of _ key] q by (auto split: option.splits dest!: q)
  qed
  then show ?thesis using that [of own'] sh ow R [OF r] nt len pn by (simp add: own'_def)
qed

lemma ensure_child_ply_spec:
  assumes shape: "mtrie_shape t" and own: "mtrie_owned own t" and s: "s < 2 ^ 8"
    and p: "p < length (mt_plies t)" "own p = RootSlot r"
    and room: "length (mt_plies t) < 2 ^ 31 - 1"
  obtains q t' own' where "ensure_child_ply t p s cover = Some (q, t')"
    "mtrie_shape t'" "mtrie_owned own' t'"
    "leaf_ply_index (pleaf t' p s) = Some q" "own' q = PlySlot p s" "q < length (mt_plies t')"
    "\<And>key. mtrie_lookup t' key = mtrie_lookup t key" "\<And>r. rleaf t' r = rleaf t r"
    "length (mt_plies t') \<le> Suc (length (mt_plies t))"
proof (cases "leaf_ply_index (pleaf t p s)")
  case (Some idx)
  then have "ensure_child_ply t p s cover = Some (idx, t)"
    using p by (simp add: ensure_child_ply_def pleaf_def Let_def)
  then show ?thesis using that [of idx t own] shape own Some owned_ply [OF own p(1) s Some] by simp
next
  case None
  let ?n = "length (mt_plies t)"
  let ?nt = "leaf_non_terminal ?n"
  have nt: "leaf_ply_index ?nt = Some ?n" "\<not> leaf_is_terminal ?nt"
    using leaf_non_terminal_simps [OF room] by simp_all
  obtain t' b where run: "ensure_child_ply t p s cover = Some (?n, t')" and
    plies: "mt_plies t' = (mt_plies t)[p := (mt_plies t ! p)
       \<lparr>p8_leaves := (p8_leaves (mt_plies t ! p))[s := ?nt],
        p8_prefix_lens := (p8_prefix_lens (mt_plies t ! p))[s := cover],
        p8_n_non_empty := p8_n_non_empty (mt_plies t ! p) + 1\<rparr>] @ [ply8_filled (pleaf t p s) b]"
    and root: "mt_root t' = mt_root t"
    using p None that by (simp add: ensure_child_ply_def pleaf_def alloc_ply_def Let_def list_update_append)
  have len: "length (mt_plies t') = Suc ?n" using plies by auto
  have R: "rleaf t' r' = rleaf t r'" for r' by (simp add: rleaf_def root)
  have P: "pleaf t' i u = (if i = ?n then pleaf t p s else if i = p \<and> u = s then ?nt else pleaf t i u)"
    if "i \<le> ?n" "u < 2 ^ 8" for i u
    using that p(1) s shape_ply [OF shape p(1)]
    by (auto simp: pleaf_def plies nth_append nth_list_update ply8_filled_def)
  define own' where "own' = own(?n := PlySlot p s)"
  have sh: "mtrie_shape t'"
    using shape p(1) unfolding mtrie_shape_def root
    by (auto simp: plies ply8_filled_def list_all_length nth_list_update nth_append)
  have ow: "mtrie_owned own' t'"
    unfolding mtrie_owned_def
  proof (intro conjI allI impI)
    fix r' i assume a: "r' < 2 ^ 16" "leaf_ply_index (rleaf t' r') = Some i"
    show "i < length (mt_plies t')" "own' i = RootSlot r'"
      using a R [of r'] owned_root [OF own a(1), of i] by (auto simp: len own'_def)
  next
    fix i u j assume a: "i < length (mt_plies t')" "u < 2 ^ 8" "leaf_ply_index (pleaf t' i u) = Some j"
    then have "i < ?n \<and> (i = p \<and> u = s \<and> j = ?n \<or> leaf_ply_index (pleaf t i u) = Some j)"
      using P [of i u] None nt len by (auto split: if_splits)
    then show "j < length (mt_plies t')" "own' j = PlySlot i u" "\<exists>r. own' i = RootSlot r"
      using owned_ply [OF own _ a(2), of i j] p by (auto simp: len own'_def)
  qed
  have np: "leaf_ply_index (pleaf t i u) = Some q \<Longrightarrow> i < ?n \<Longrightarrow> u < 2 ^ 8 \<Longrightarrow> q \<noteq> p" for i u q
    using owned_ply [OF own, of i u q] p(2) by auto
  have "mtrie_lookup t' key = mtrie_lookup t key" for key
  proof -
    let ?r = "root_stride key" and ?f = "first_stride key" and ?u = "second_stride key"
    show ?thesis
    proof (cases "leaf_ply_index (rleaf t ?r)")
      case n: None
      then show ?thesis unfolding mtrie_lookup_eq [OF own] mtrie_lookup_eq [OF ow] R by simp
    next
      case (Some i)
      have i: "i < ?n" using owned_root [OF own stride_less(1) Some] by simp
      show ?thesis
      proof (cases "leaf_ply_index (pleaf t i ?f)")
        case n: None
        then show ?thesis
          unfolding mtrie_lookup_eq [OF own] mtrie_lookup_eq [OF ow] R
          using Some i P [of i ?f] P [of ?n ?u] nt stride_less(2,3) [of key] by simp
      next
        case f: (Some q)
        have q: "q < ?n" "q \<noteq> p" "\<not> (i = p \<and> ?f = s)"
          using owned_ply [OF own i stride_less(2) f] np [OF f i stride_less(2)] f None by auto
        then show ?thesis
          unfolding mtrie_lookup_eq [OF own] mtrie_lookup_eq [OF ow] R
          using Some i f P [of i ?f] P [of q ?u] stride_less(2,3) [of key] by auto
      qed
    qed
  qed
  then show ?thesis using that [OF run sh ow] P [of p s] p s nt len R by (simp add: own'_def)
qed

subsection \<open>Insertion\<close>

lemma fill_ply_spec:
  assumes shape: "mtrie_shape t" and own: "mtrie_owned own t" and p: "p < length (mt_plies t)"
    and base: "base < 2 ^ 8"
  obtains t' where "fill_ply t p base pb 8 (leaf_terminal v) = Some t'"
    "mtrie_shape t'" "mtrie_owned own t'" "\<And>r. rleaf t' r = rleaf t r"
    "\<And>i s. s < 2 ^ 8 \<Longrightarrow> pleaf t' i s =
       (if i = p \<and> s div 2 ^ (8 - pb) = base div 2 ^ (8 - pb) then leaf_terminal v else pleaf t i s)"
    "length (mt_plies t') = length (mt_plies t)"
proof -
  let ?ply = "ply8_fill_stride (mt_plies t ! p) base pb 8 (leaf_terminal v)"
  let ?t = "t\<lparr>mt_plies := (mt_plies t)[p := ?ply]\<rparr>"
  have run: "fill_ply t p base pb 8 (leaf_terminal v) = Some ?t"
    using p by (simp add: fill_ply_def)
  have fill: "s < 2 ^ 8 \<Longrightarrow> p8_leaves ?ply ! s =
        (if s div 2 ^ (8 - pb) = base div 2 ^ (8 - pb) then leaf_terminal v else p8_leaves (mt_plies t ! p) ! s)"
      "length (p8_leaves ?ply) = 2 ^ 8" "length (p8_prefix_lens ?ply) = 2 ^ 8" for s
    using ply8_fill_stride_leaves [OF base, of "mt_plies t ! p"] shape_ply [OF shape p] by simp_all
  have R: "rleaf ?t r = rleaf t r" for r by (simp add: rleaf_def)
  have P: "pleaf ?t i s =
      (if i = p \<and> s div 2 ^ (8 - pb) = base div 2 ^ (8 - pb) then leaf_terminal v else pleaf t i s)"
    if "s < 2 ^ 8" for i s
    using that p fill(1) [OF that] by (auto simp: pleaf_def nth_list_update)
  have "mtrie_shape ?t"
    using shape p fill(2,3) unfolding mtrie_shape_def by (simp add: list_all_length nth_list_update)
  moreover have "mtrie_owned own ?t"
    unfolding mtrie_owned_def R
  proof (intro conjI allI impI)
    fix i s j assume a: "i < length (mt_plies ?t)" "s < 2 ^ 8" "leaf_ply_index (pleaf ?t i s) = Some j"
    then have "leaf_ply_index (pleaf t i s) = Some j" using P [OF a(2), of i] by (auto split: if_splits)
    then show "j < length (mt_plies ?t)" "own j = PlySlot i s" "\<exists>r. own i = RootSlot r"
      using owned_ply [OF own _ a(2)] a(1) by auto
  qed (use owned_root [OF own] in auto)
  ultimately show ?thesis using that [OF run] R P by simp
qed

lemma matches_root:
  assumes "len \<le> 16"
  shows "prefix_matches net len key \<longleftrightarrow>
     root_stride key div 2 ^ (16 - len) = root_stride net div 2 ^ (16 - len)"
proof -
  have "(2 :: nat) ^ (32 - len) = 2 ^ 16 * 2 ^ (16 - len)"
    using assms by (simp only: power_add [symmetric]) simp
  then show ?thesis by (simp only: prefix_matches_nat strides_nat div_mult2_eq)
qed

lemma div_stride:
  fixes x y :: nat
  assumes "b \<le> 8"
  shows "x div 2 ^ (8 - b) = y div 2 ^ (8 - b) \<longleftrightarrow>
     x div 2 ^ 8 = y div 2 ^ 8 \<and> x mod 2 ^ 8 div 2 ^ (8 - b) = y mod 2 ^ 8 div 2 ^ (8 - b)"
proof -
  have "(2 :: nat) ^ (8 - b) * 2 ^ b = 2 ^ 8" using assms by (simp only: power_add [symmetric]) simp
  then show ?thesis using div_split [of "2 ^ (8 - b)" "2 ^ b" x y] by simp
qed

lemma matches_first:
  assumes "16 \<le> len" "len \<le> 24"
  shows "prefix_matches net len key \<longleftrightarrow> root_stride key = root_stride net \<and>
     first_stride key div 2 ^ (8 - (len - 16)) = first_stride net div 2 ^ (8 - (len - 16))"
proof -
  have e: "(2 :: nat) ^ (32 - len) = 2 ^ 8 * 2 ^ (8 - (len - 16))"
    using assms by (simp only: power_add [symmetric]) simp
  have "x div 2 ^ 8 div 2 ^ 8 = x div 2 ^ 16" for x :: nat
    by (simp only: div_mult2_eq [symmetric] power_add [symmetric]) simp
  then show ?thesis
    using div_stride [of "len - 16" "unat key div 2 ^ 8" "unat net div 2 ^ 8"] assms
    unfolding prefix_matches_nat strides_nat e div_mult2_eq by simp
qed

lemma matches_second:
  assumes "24 \<le> len" "len \<le> 32"
  shows "prefix_matches net len key \<longleftrightarrow> root_stride key = root_stride net \<and>
     first_stride key = first_stride net \<and>
     second_stride key div 2 ^ (8 - (len - 16 - 8)) = second_stride net div 2 ^ (8 - (len - 16 - 8))"
proof -
  have e: "(2 :: nat) ^ (32 - len) = 2 ^ (8 - (len - 16 - 8))" using assms by simp
  have "x div 2 ^ 8 = y div 2 ^ 8 \<longleftrightarrow> x div 2 ^ 16 = y div 2 ^ 16 \<and> x div 2 ^ 8 mod 2 ^ 8 = y div 2 ^ 8 mod 2 ^ 8"
    for x y :: nat
    using div_split [of 1 "2 ^ 8" "x div 2 ^ 8" "y div 2 ^ 8"]
    by (simp only: div_mult2_eq [symmetric] power_add [symmetric]) simp
  then show ?thesis
    using div_stride [of "len - 16 - 8" "unat key" "unat net"] assms
    unfolding prefix_matches_nat strides_nat e by simp
qed

definition lookup_update :: "(u32 \<Rightarrow> u32 option) \<Rightarrow> u32 \<Rightarrow> nat \<Rightarrow> u32 \<Rightarrow> u32 \<Rightarrow> u32 option" where
  "lookup_update m net len v key = (if prefix_matches net len key then Some (take_bit 31 v) else m key)"

lemma insert_root:
  assumes shape: "mtrie_shape t" and own: "mtrie_owned own t" and len: "len \<le> 16"
  obtains t' where "mtrie_insert t net len v = Some t'" "mtrie_shape t'" "mtrie_owned own t'"
    "mtrie_lookup t' = lookup_update (mtrie_lookup t) net len v" "length (mt_plies t') = length (mt_plies t)"
proof -
  let ?ply = "ply16_fill_stride (mt_root t) (root_stride net) len 16 (leaf_terminal v)"
  let ?t = "t\<lparr>mt_root := ?ply\<rparr>"
  have run: "mtrie_insert t net len v = Some ?t" using len by (simp add: mtrie_insert_def Let_def)
  have l16: "length (p16_leaves (mt_root t)) = 2 ^ 16" using shape unfolding mtrie_shape_def by blast
  note fill = ply16_fill_stride_leaves [OF stride_less(1) l16]
  have R: "rleaf ?t r = (if r div 2 ^ (16 - len) = root_stride net div 2 ^ (16 - len)
      then leaf_terminal v else rleaf t r)" if "r < 2 ^ 16" for r
    using fill(1) [OF that] by (simp add: rleaf_def)
  have P: "pleaf ?t i s = pleaf t i s" for i s by (simp add: pleaf_def)
  have "mtrie_shape ?t" using shape fill(2,3) unfolding mtrie_shape_def by simp
  moreover have ow: "mtrie_owned own ?t"
    unfolding mtrie_owned_def P
  proof (intro conjI allI impI)
    fix r i assume a: "r < 2 ^ 16" "leaf_ply_index (rleaf ?t r) = Some i"
    then have "leaf_ply_index (rleaf t r) = Some i" using R [OF a(1)] by (auto split: if_splits)
    then show "i < length (mt_plies ?t)" "own i = RootSlot r" using owned_root [OF own a(1)] by auto
  qed (use owned_ply [OF own] in auto)
  moreover have "mtrie_lookup ?t key = lookup_update (mtrie_lookup t) net len v key" for key
    unfolding lookup_update_def mtrie_lookup_eq [OF own] mtrie_lookup_eq [OF ow] P matches_root [OF len]
      R [OF stride_less(1)] by simp
  ultimately show ?thesis using that [OF run] by (auto simp: fun_eq_iff)
qed

lemma insert_first:
  assumes shape: "mtrie_shape t" and own: "mtrie_owned own t" and len: "16 < len" "len \<le> 24"
    and room: "length (mt_plies t) < 2 ^ 31 - 1"
  obtains t' own' where "mtrie_insert t net len v = Some t'" "mtrie_shape t'" "mtrie_owned own' t'"
    "mtrie_lookup t' = lookup_update (mtrie_lookup t) net len v"
    "length (mt_plies t') \<le> Suc (length (mt_plies t))"
proof -
  let ?r = "root_stride net" and ?f = "first_stride net"
  obtain p t1 where e: "ensure_root_ply t ?r 16 = (p, t1)" by force
  obtain own1 where t1: "mtrie_shape t1" "mtrie_owned own1 t1" "leaf_ply_index (rleaf t1 ?r) = Some p"
    "own1 p = RootSlot ?r" "p < length (mt_plies t1)" "\<And>key. mtrie_lookup t1 key = mtrie_lookup t key"
    "length (mt_plies t1) \<le> Suc (length (mt_plies t))"
    using ensure_root_ply_spec [OF shape own stride_less(1) room e] by blast
  obtain t2 where t2: "fill_ply t1 p ?f (len - 16) 8 (leaf_terminal v) = Some t2"
    "mtrie_shape t2" "mtrie_owned own1 t2" "\<And>r. rleaf t2 r = rleaf t1 r"
    "\<And>i s. s < 2 ^ 8 \<Longrightarrow> pleaf t2 i s =
       (if i = p \<and> s div 2 ^ (8 - (len - 16)) = ?f div 2 ^ (8 - (len - 16)) then leaf_terminal v else pleaf t1 i s)"
    "length (mt_plies t2) = length (mt_plies t1)"
    using fill_ply_spec [OF t1(1,2,5) stride_less(2)] by blast
  have run: "mtrie_insert t net len v = Some t2"
    using len t2(1) by (simp add: mtrie_insert_def e)
  have "mtrie_lookup t2 key = lookup_update (mtrie_lookup t1) net len v key" for key
  proof (cases "leaf_ply_index (rleaf t1 (root_stride key))")
    case None
    then have "root_stride key \<noteq> ?r" using t1(3) by auto
    then show ?thesis
      unfolding lookup_update_def mtrie_lookup_eq [OF t2(3)] mtrie_lookup_eq [OF t1(2)] t2(4)
        matches_first [OF less_imp_le [OF len(1)] len(2)] using None by simp
  next
    case (Some i)
    have i: "i < length (mt_plies t1)" "own1 i = RootSlot (root_stride key)"
      using owned_root [OF t1(2) stride_less(1) Some] by auto
    have ip: "i = p \<longleftrightarrow> root_stride key = ?r" using Some t1(3,4) i by auto
    have q: "q \<noteq> p" if "leaf_ply_index (pleaf t1 i (first_stride key)) = Some q" for q
      using owned_ply [OF t1(2) i(1) stride_less(2) that] t1(4) by auto
    show ?thesis
      unfolding lookup_update_def mtrie_lookup_eq [OF t2(3)] mtrie_lookup_eq [OF t1(2)] t2(4)
        matches_first [OF less_imp_le [OF len(1)] len(2)] t2(5) [OF stride_less(2)] t2(5) [OF stride_less(3)]
      using Some ip q by (auto split: option.splits)
  qed
  then have "mtrie_lookup t2 = lookup_update (mtrie_lookup t) net len v"
    using t1(6) by (auto simp: lookup_update_def)
  then show ?thesis using that [OF run t2(2,3)] t2(6) t1(7) by simp
qed

lemma insert_second:
  assumes shape: "mtrie_shape t" and own: "mtrie_owned own t" and len: "24 < len" "len \<le> 32"
    and room: "length (mt_plies t) + 1 < 2 ^ 31 - 1"
  obtains t' own' where "mtrie_insert t net len v = Some t'" "mtrie_shape t'" "mtrie_owned own' t'"
    "mtrie_lookup t' = lookup_update (mtrie_lookup t) net len v"
    "length (mt_plies t') \<le> length (mt_plies t) + 2"
proof -
  let ?r = "root_stride net" and ?f = "first_stride net" and ?s = "second_stride net"
  obtain p t1 where e: "ensure_root_ply t ?r 16 = (p, t1)" by force
  have room1: "length (mt_plies t) < 2 ^ 31 - 1" using room by simp
  obtain own1 where t1: "mtrie_shape t1" "mtrie_owned own1 t1" "leaf_ply_index (rleaf t1 ?r) = Some p"
    "own1 p = RootSlot ?r" "p < length (mt_plies t1)" "\<And>key. mtrie_lookup t1 key = mtrie_lookup t key"
    "length (mt_plies t1) \<le> Suc (length (mt_plies t))"
    using ensure_root_ply_spec [OF shape own stride_less(1) room1 e] by blast
  have room2: "length (mt_plies t1) < 2 ^ 31 - 1" using room t1(7) by simp
  obtain q t2 own2 where t2: "ensure_child_ply t1 p ?f 24 = Some (q, t2)"
    "mtrie_shape t2" "mtrie_owned own2 t2" "leaf_ply_index (pleaf t2 p ?f) = Some q"
    "own2 q = PlySlot p ?f" "q < length (mt_plies t2)"
    "\<And>key. mtrie_lookup t2 key = mtrie_lookup t1 key" "\<And>r. rleaf t2 r = rleaf t1 r"
    "length (mt_plies t2) \<le> Suc (length (mt_plies t1))"
    using ensure_child_ply_spec [OF t1(1,2) stride_less(2) t1(5,4) room2] by blast
  obtain t3 where t3: "fill_ply t2 q ?s (len - 16 - 8) 8 (leaf_terminal v) = Some t3"
    "mtrie_shape t3" "mtrie_owned own2 t3" "\<And>r. rleaf t3 r = rleaf t2 r"
    "\<And>i s. s < 2 ^ 8 \<Longrightarrow> pleaf t3 i s =
       (if i = q \<and> s div 2 ^ (8 - (len - 16 - 8)) = ?s div 2 ^ (8 - (len - 16 - 8)) then leaf_terminal v
        else pleaf t2 i s)"
    "length (mt_plies t3) = length (mt_plies t2)"
    using fill_ply_spec [OF t2(2,3,6) stride_less(3)] by blast
  have run: "mtrie_insert t net len v = Some t3"
    using len t2(1) t3(1) by (simp add: mtrie_insert_def e)
  have rp: "leaf_ply_index (rleaf t2 ?r) = Some p" using t1(3) t2(8) by simp
  note m = matches_second [OF less_imp_le [OF len(1)] len(2)]
  have "mtrie_lookup t3 key = lookup_update (mtrie_lookup t2) net len v key" for key
  proof (cases "leaf_ply_index (rleaf t2 (root_stride key))")
    case None
    then have "root_stride key \<noteq> ?r" using rp by auto
    then show ?thesis
      unfolding lookup_update_def mtrie_lookup_eq [OF t3(3)] mtrie_lookup_eq [OF t2(3)] t3(4) m using None by simp
  next
    case (Some i)
    have i: "i < length (mt_plies t2)" "own2 i = RootSlot (root_stride key)" "i \<noteq> q"
      using owned_root [OF t2(3) stride_less(1) Some] t2(5) by auto
    have ip: "i = p \<longleftrightarrow> root_stride key = ?r"
      using Some rp i owned_root [OF t2(3) stride_less(1) rp] by auto
    have iq: "j = q \<longleftrightarrow> i = p \<and> first_stride key = ?f"
      if "leaf_ply_index (pleaf t2 i (first_stride key)) = Some j" for j
      using owned_ply [OF t2(3) i(1) stride_less(2) that] t2(4,5) that by auto
    have nq: "leaf_ply_index (pleaf t2 i (first_stride key)) = None \<Longrightarrow> \<not> (i = p \<and> first_stride key = ?f)"
      using t2(4) by auto
    show ?thesis
      unfolding lookup_update_def mtrie_lookup_eq [OF t3(3)] mtrie_lookup_eq [OF t2(3)] t3(4) m
        t3(5) [OF stride_less(2)] t3(5) [OF stride_less(3)]
      using Some i(3) ip iq nq by (auto split: option.splits)
  qed
  then have "mtrie_lookup t3 = lookup_update (mtrie_lookup t) net len v"
    using t1(6) t2(7) by (auto simp: lookup_update_def)
  then show ?thesis using that [OF run t3(2,3)] t3(6) t1(7) t2(9) by simp
qed

lemma mtrie_invI: "mtrie_shape t \<Longrightarrow> mtrie_owned own t \<Longrightarrow> mtrie_inv t"
  unfolding mtrie_inv_def by blast

lemma mtrie_insert_ok:
  assumes "mtrie_inv t" "len \<le> 32" "length (mt_plies t) + 1 < 2 ^ 31 - 1"
  shows "\<exists>t'. mtrie_insert t net len v = Some t' \<and> mtrie_inv t' \<and>
     mtrie_lookup t' = lookup_update (mtrie_lookup t) net len v \<and>
     length (mt_plies t') \<le> length (mt_plies t) + 2"
proof -
  obtain own where own: "mtrie_shape t" "mtrie_owned own t" using assms(1) by (auto simp: mtrie_inv_def)
  consider "len \<le> 16" | "16 < len" "len \<le> 24" | "24 < len" by linarith
  then show ?thesis
  proof cases
    case 1
    obtain t' where "mtrie_insert t net len v = Some t'" "mtrie_shape t'" "mtrie_owned own t'"
      "mtrie_lookup t' = lookup_update (mtrie_lookup t) net len v" "length (mt_plies t') = length (mt_plies t)"
      by (rule insert_root [OF own 1, of net v])
    then show ?thesis using mtrie_invI by simp
  next
    case 2
    have room: "length (mt_plies t) < 2 ^ 31 - 1" using assms(3) by simp
    obtain t' own' where "mtrie_insert t net len v = Some t'" "mtrie_shape t'" "mtrie_owned own' t'"
      "mtrie_lookup t' = lookup_update (mtrie_lookup t) net len v"
      "length (mt_plies t') \<le> Suc (length (mt_plies t))"
      by (rule insert_first [OF own 2 room, of net v])
    then show ?thesis using mtrie_invI by simp
  next
    case 3
    obtain t' own' where "mtrie_insert t net len v = Some t'" "mtrie_shape t'" "mtrie_owned own' t'"
      "mtrie_lookup t' = lookup_update (mtrie_lookup t) net len v"
      "length (mt_plies t') \<le> length (mt_plies t) + 2"
      by (rule insert_second [OF own 3 assms(2,3), of net v])
    then show ?thesis using mtrie_invI by simp
  qed
qed

lemma mtrie_inv_empty: "mtrie_inv mtrie_empty"
proof -
  have "mtrie_owned (\<lambda>_. RootSlot 0) mtrie_empty"
    by (simp add: mtrie_owned_def mtrie_empty_def ply16_filled_def rleaf_def)
  moreover have "mtrie_shape mtrie_empty"
    by (simp add: mtrie_shape_def mtrie_empty_def ply16_filled_def)
  ultimately show ?thesis by (auto simp: mtrie_inv_def)
qed

lemma mtrie_lookup_empty: "mtrie_lookup mtrie_empty key = None"
proof -
  have "p16_leaves (mt_root mtrie_empty) ! root_stride key = leaf_MISS"
    using stride_less(1) [of key] by (simp add: mtrie_empty_def ply16_filled_def)
  then show ?thesis by (simp add: mtrie_lookup_def leaf_ply_def)
qed

subsection \<open>Longest-prefix match\<close>

abbreviation entry_matches :: "u32 \<Rightarrow> 'v mtrie_entry \<Rightarrow> bool" where
  "entry_matches key e \<equiv> prefix_matches (me_key e) (me_prefix_len e) key"

lemma packed_insert_all_ok:
  assumes "mtrie_inv t" "list_all (\<lambda>e. me_prefix_len e \<le> 32) es"
    "length (mt_plies t) + 2 * length es < 2 ^ 31 - 1"
  shows "\<exists>t'. packed_insert_all into_leaf t es = Some t' \<and> mtrie_inv t' \<and>
     mtrie_lookup t' key =
       foldl (\<lambda>m e. if entry_matches key e then Some (take_bit 31 (into_leaf (me_value e))) else m)
         (mtrie_lookup t key) es"
  using assms
proof (induction es arbitrary: t)
  case (Cons e es)
  obtain t' where t': "mtrie_insert t (me_key e) (me_prefix_len e) (into_leaf (me_value e)) = Some t'"
    "mtrie_inv t'"
    "mtrie_lookup t' = lookup_update (mtrie_lookup t) (me_key e) (me_prefix_len e) (into_leaf (me_value e))"
    "length (mt_plies t') \<le> length (mt_plies t) + 2"
    using mtrie_insert_ok [OF Cons.prems(1), of "me_prefix_len e" "me_key e" "into_leaf (me_value e)"] Cons.prems by auto
  show ?case
    using Cons.IH [OF t'(2)] Cons.prems t'(1,3,4) by (simp add: packed_insert_def lookup_update_def)
qed simp

lemma foldl_last_match:
  "foldl (\<lambda>m e. if P e then Some (g e) else m) m es =
     (if filter P es = [] then m else Some (g (last (filter P es))))"
  by (induction es rule: rev_induct) auto

lemma lpm_from_snoc:
  "lpm_from best (es @ [e]) key =
     (if entry_matches key e \<and>
         (case lpm_from best es key of None \<Rightarrow> True | Some b \<Rightarrow> me_prefix_len b \<le> me_prefix_len e)
      then Some e else lpm_from best es key)"
  by (induction es arbitrary: best) auto

lemma lpm_spec:
  "case lpm es key of
     None \<Rightarrow> filter (entry_matches key) es = []
   | Some b \<Rightarrow> b \<in> set es \<and> entry_matches key b \<and>
       (\<forall>e \<in> set es. entry_matches key e \<longrightarrow> me_prefix_len e \<le> me_prefix_len b) \<and>
       b = last (filter (\<lambda>e. entry_matches key e \<and> me_prefix_len e = me_prefix_len b) es)"
proof (induction es rule: rev_induct)
  case (snoc e es)
  show ?case
  proof (cases "lpm es key")
    case None
    then have "entry_matches key e' \<Longrightarrow> e' \<notin> set es" for e' using snoc.IH by (auto simp: filter_empty_conv)
    then show ?thesis using None by (auto simp: lpm_def lpm_from_snoc filter_empty_conv)
  next
    case (Some b)
    then have b: "b \<in> set es" "entry_matches key b"
      "\<forall>e \<in> set es. entry_matches key e \<longrightarrow> me_prefix_len e \<le> me_prefix_len b"
      "b = last (filter (\<lambda>e. entry_matches key e \<and> me_prefix_len e = me_prefix_len b) es)"
      using snoc.IH by simp_all
    show ?thesis
    proof (cases "entry_matches key e \<and> me_prefix_len b \<le> me_prefix_len e")
      case True
      then show ?thesis using Some b(3) by (auto simp: lpm_def lpm_from_snoc)
    next
      case False
      then show ?thesis using Some b by (auto simp: lpm_def lpm_from_snoc)
    qed
  qed
qed (simp add: lpm_def)

lemma last_filter_conj:
  assumes "filter P xs \<noteq> []" "Q (last (filter P xs))"
  shows "last (filter (\<lambda>x. P x \<and> Q x) xs) = last (filter P xs)"
proof -
  have "filter (\<lambda>x. P x \<and> Q x) xs = filter Q (filter P xs)" by (simp add: conj_commute)
  also have "\<dots> = filter Q (butlast (filter P xs) @ [last (filter P xs)])"
    using assms(1) by simp
  finally show ?thesis using assms(2) by simp
qed

lemma sorted_last_max:
  assumes "sorted (map f xs)" "x \<in> set xs"
  shows "f x \<le> f (last xs)"
proof (cases xs rule: rev_cases)
  case (snoc ys y)
  then show ?thesis using assms by (auto simp: sorted_append)
qed (use assms in simp)

text \<open>In an order sorted by prefix length (stably) the longest match is the last match.\<close>

lemma lpm_sorted:
  "map_option g (lpm es key) =
     (let ms = filter (entry_matches key) (sort_key me_prefix_len es) in
      if ms = [] then None else Some (g (last ms)))"
proof (cases "lpm es key")
  case None
  then have "filter (entry_matches key) es = []" using lpm_spec [of key es] by simp
  then have "filter (entry_matches key) (sort_key me_prefix_len es) = []"
    by (simp add: filter_empty_conv)
  then show ?thesis using None by simp
next
  case (Some b)
  let ?ms = "filter (entry_matches key) (sort_key me_prefix_len es)"
  have b: "b \<in> set es" "entry_matches key b"
    "\<forall>e \<in> set es. entry_matches key e \<longrightarrow> me_prefix_len e \<le> me_prefix_len b"
    "b = last (filter (\<lambda>e. entry_matches key e \<and> me_prefix_len e = me_prefix_len b) es)"
    using lpm_spec [of key es] Some by simp_all
  have ne: "?ms \<noteq> []" using b(1,2) by (auto simp: filter_empty_conv)
  have "sorted (map me_prefix_len ?ms)" by (simp add: sorted_filter)
  then have "me_prefix_len b \<le> me_prefix_len (last ?ms)" using sorted_last_max [of me_prefix_len ?ms b] b(1,2) by simp
  moreover have "last ?ms \<in> set ?ms" using ne last_in_set by blast
  ultimately have "me_prefix_len (last ?ms) = me_prefix_len b" using b(3) by fastforce
  then have "last ?ms = last (filter (\<lambda>e. entry_matches key e \<and> me_prefix_len e = me_prefix_len b)
      (sort_key me_prefix_len es))"
    using last_filter_conj [OF ne, of "\<lambda>e. me_prefix_len e = me_prefix_len b"] by simp
  also have "filter (\<lambda>e. entry_matches key e \<and> me_prefix_len e = me_prefix_len b) (sort_key me_prefix_len es) =
      filter (\<lambda>e. entry_matches key e \<and> me_prefix_len e = me_prefix_len b) es"
  proof -
    have "filter (\<lambda>e. entry_matches key e \<and> me_prefix_len e = me_prefix_len b) ys =
        filter (entry_matches key) (filter (\<lambda>e. me_prefix_len e = me_prefix_len b) ys)"
      for ys :: "'b mtrie_entry list"
      by (simp add: conj_commute)
    then show ?thesis by (simp only: sort_key_stable)
  qed
  also have "last \<dots> = b" by (rule b(4) [symmetric])
  finally show ?thesis using Some ne by (simp add: Let_def)
qed

subsection \<open>Properties\<close>

text \<open>\<open>fill_stride\<close> compares the length within the ply with the absolute covering length, so
  writing routes never raises the count of non-empty slots.\<close>

lemma ply8_fill_stride_never_counts:
  assumes "8 \<le> p8_base_len ply" "pb \<le> 8"
  shows "p8_n_non_empty (ply8_fill_stride ply base pb 8 leaf) \<le> p8_n_non_empty ply"
proof -
  have "p8_n_non_empty (foldl (ply8_fill_slot pb leaf) ply ks) \<le> p8_n_non_empty ply" for ks
    using assms(1)
  proof (induction ks arbitrary: ply)
    case (Cons k ks)
    have "p8_n_non_empty (ply8_fill_slot pb leaf ply k) \<le> p8_n_non_empty ply"
      "p8_base_len (ply8_fill_slot pb leaf ply k) = p8_base_len ply"
      using Cons.prems assms(2) by (auto simp: ply8_fill_slot_def Let_def split: bool.split)
    then show ?case using Cons.IH [of "ply8_fill_slot pb leaf ply k"] Cons.prems by simp
  qed simp
  then show ?thesis by (simp add: ply8_fill_stride_def Let_def)
qed

text \<open>C3. A trie built from a list of entries answers every lookup with longest-prefix match: the
  value of the longest entry that covers the address (the last one listed among equally long ones),
  and nothing when no entry covers it. The leaf encoding keeps the low 31 bits of the value.\<close>

theorem mtrie_longest_prefix_match:
  assumes "list_all (\<lambda>e. me_prefix_len e \<le> 32) es" "2 * length es < 2 ^ 31 - 1"
  shows "\<exists>t. packed_from_entries into_leaf es = Some t \<and>
     packed_lookup from_leaf t key =
       map_option (\<lambda>e. from_leaf (take_bit 31 (into_leaf (me_value e)))) (lpm es key)"
proof -
  let ?s = "sort_key me_prefix_len es"
  have "list_all (\<lambda>e. me_prefix_len e \<le> 32) ?s" using assms(1) by (simp add: list_all_iff)
  moreover have "length (mt_plies mtrie_empty) + 2 * length ?s < 2 ^ 31 - 1"
    using assms(2) by (simp add: mtrie_empty_def)
  ultimately obtain t where t: "packed_insert_all into_leaf mtrie_empty ?s = Some t"
    "mtrie_lookup t key =
       foldl (\<lambda>m e. if entry_matches key e then Some (take_bit 31 (into_leaf (me_value e))) else m)
         (mtrie_lookup mtrie_empty key) ?s"
    using packed_insert_all_ok [OF mtrie_inv_empty, of ?s into_leaf key] by auto
  then show ?thesis
    by (simp add: packed_from_entries_def packed_lookup_def mtrie_lookup_empty foldl_last_match lpm_sorted Let_def)
qed

theorem mtrie_longest_prefix_match_witness:
  "\<exists>t. packed_from_entries id
       [\<lparr>me_key = 0x0a010200, me_prefix_len = 24, me_value = 7\<rparr>,
        \<lparr>me_key = 0x0a000000, me_prefix_len = 8, me_value = 5\<rparr>,
        \<lparr>me_key = 0x0a010203, me_prefix_len = 32, me_value = 9\<rparr>] = Some t \<and>
     packed_lookup id t 0x0a010204 = Some (7 :: u32)"
  using mtrie_longest_prefix_match [of
      "[\<lparr>me_key = 0x0a010200, me_prefix_len = 24, me_value = 7\<rparr>,
        \<lparr>me_key = 0x0a000000, me_prefix_len = 8, me_value = 5\<rparr>,
        \<lparr>me_key = 0x0a010203, me_prefix_len = 32, me_value = 9\<rparr>] :: u32 mtrie_entry list"
      id id "0x0a010204"]
  by (simp add: lpm_def prefix_matches_def)

text \<open>C14. One insertion, in any order and over any trie that satisfies the invariant: it does not
  panic, keeps the invariant, makes exactly the covered addresses resolve to the new value and
  leaves every other lookup as it was, and allocates at most two plies. A length above 32 panics.\<close>

theorem mtrie_insert_correct:
  assumes "mtrie_inv t" "length (mt_plies t) + 1 < 2 ^ 31 - 1"
  shows "if len \<le> 32
    then \<exists>t'. mtrie_insert t net len v = Some t' \<and> mtrie_inv t' \<and>
           mtrie_lookup t' = (\<lambda>key. if prefix_matches net len key then Some (take_bit 31 v) else mtrie_lookup t key) \<and>
           length (mt_plies t') \<le> length (mt_plies t) + 2
    else mtrie_insert t net len v = None"
proof (cases "len \<le> 32")
  case True
  have "lookup_update m net len v = (\<lambda>key. if prefix_matches net len key then Some (take_bit 31 v) else m key)" for m
    by (simp add: lookup_update_def fun_eq_iff)
  then show ?thesis using mtrie_insert_ok [OF assms(1) True assms(2), of net v] True by simp
qed (simp add: mtrie_insert_def)

theorem mtrie_insert_correct_witness:
  "\<exists>t. mtrie_insert mtrie_empty 0xc0a80100 24 3 = Some t \<and> mtrie_lookup t 0xc0a80142 = Some 3 \<and>
     mtrie_lookup t 0xc0a80242 = None"
proof -
  have "length (mt_plies mtrie_empty) + 1 < 2 ^ 31 - 1" by (simp add: mtrie_empty_def)
  from mtrie_insert_correct [OF mtrie_inv_empty this, of 24 "0xc0a80100" 3] show ?thesis
    by (auto simp: prefix_matches_def mtrie_lookup_empty)
qed

end
