(* ===== verification/Checksum.thy ===== *)
theory Checksum
  imports Prelude
begin

text \<open>
  The Internet checksum of \<open>crates/hammer-infra/src/checksum.rs\<close> with the vector helpers of
  \<open>simd.rs\<close> it uses: the streaming state with a pending odd byte, the lane-wise and the
  64-bit-word accumulators, the end-around-carry fold, and the run-time choice of the vector
  width. The endianness of the target is the parameter \<open>le\<close>: it decides what a raw load
  reads. The reference is the 16-bit ones'-complement acc of RFC 1071 over the concatenated
  bytes; every width computes it, however the bytes are split into parts.
\<close>

subsection \<open>Loads and byte order\<close>

text \<open>\<open>ptr::read_unaligned\<close> of a \<open>u16\<close> and of a \<open>u64\<close>.\<close>

definition read_u16 :: "bool \<Rightarrow> u8 \<Rightarrow> u8 \<Rightarrow> u16" where
  "read_u16 le b0 b1 = (if le then u16_from_be b1 b0 else u16_from_be b0 b1)"

fun read_le :: "u8 list \<Rightarrow> u64" where
  "read_le [] = 0"
| "read_le (b # bs) = ucast b OR push_bit 8 (read_le bs)"

definition read_u64 :: "bool \<Rightarrow> u8 list \<Rightarrow> u64" where
  "read_u64 le bs = (if le then read_le bs else read_le (rev bs))"

definition swap_bytes_u16 :: "u16 \<Rightarrow> u16" where
  "swap_bytes_u16 v = push_bit 8 v OR drop_bit 8 v"

definition swap_bytes_in_each_u16 :: "u64 \<Rightarrow> u64" where
  "swap_bytes_in_each_u16 v =
     push_bit 8 (v AND 0x00ff00ff00ff00ff) OR drop_bit 8 (v AND 0xff00ff00ff00ff00)"


subsection \<open>Accumulators\<close>

fun accumulate_pairs :: "u64 \<Rightarrow> u8 list \<Rightarrow> u64" where
  "accumulate_pairs acc (b0 # b1 # bs) = accumulate_pairs (acc + ucast (u16_from_be b0 b1)) bs"
| "accumulate_pairs acc _ = acc"

function accumulate_u64_loop :: "bool \<Rightarrow> u64 \<Rightarrow> u8 list \<Rightarrow> u64" where
  "accumulate_u64_loop le acc bytes =
     (if 8 \<le> length bytes
      then let swapped = swap_bytes_in_each_u16 (read_u64 le (take 8 bytes))
           in accumulate_u64_loop le
                (acc + (swapped AND 0xffff) + (drop_bit 16 swapped AND 0xffff) +
                 (drop_bit 32 swapped AND 0xffff) + drop_bit 48 swapped)
                (drop 8 bytes)
      else accumulate_pairs acc bytes)"
  by pat_completeness auto
termination
  by (relation "measure (\<lambda>(_, _, bytes). length bytes)") auto

declare accumulate_u64_loop.simps [simp del]

definition accumulate_u64_words :: "bool \<Rightarrow> u8 list \<Rightarrow> u64" where
  "accumulate_u64_words le bytes = accumulate_u64_loop le 0 bytes"

text \<open>The lanes of one vector: raw \<open>u16\<close> loads, then a byte swap per lane on a little-endian
  target, widened and summed as \<open>u32\<close>.\<close>

fun read_lanes :: "bool \<Rightarrow> u8 list \<Rightarrow> u16 list" where
  "read_lanes le (b0 # b1 # bs) = read_u16 le b0 b1 # read_lanes le bs"
| "read_lanes le _ = []"

definition simd_reduce_sum :: "u32 list \<Rightarrow> u32" where
  "simd_reduce_sum lanes = foldl (+) 0 lanes"

definition vector_sum :: "bool \<Rightarrow> u8 list \<Rightarrow> u32" where
  "vector_sum le bytes =
     (let words = read_lanes le bytes;
          words = (if le then map swap_bytes_u16 words else words)
      in simd_reduce_sum (map ucast words))"

text \<open>The const assertion \<open>LANES > 0\<close> is the first test.\<close>

function accumulate_simd_loop :: "bool \<Rightarrow> usize \<Rightarrow> u64 \<Rightarrow> u8 list \<Rightarrow> u64" where
  "accumulate_simd_loop le lanes acc bytes =
     (if 0 < lanes \<and> lanes * 2 \<le> length bytes
      then accumulate_simd_loop le lanes (acc + ucast (vector_sum le (take (lanes * 2) bytes)))
             (drop (lanes * 2) bytes)
      else acc + accumulate_u64_words le bytes)"
  by pat_completeness auto
termination
  by (relation "measure (\<lambda>(_, _, _, bytes). length bytes)") auto

declare accumulate_simd_loop.simps [simp del]

definition accumulate_simd :: "bool \<Rightarrow> usize \<Rightarrow> u8 list \<Rightarrow> u64" where
  "accumulate_simd le lanes bytes = accumulate_simd_loop le lanes 0 bytes"

text \<open>The widths the const assertion admits.\<close>

datatype simd_bytes = Simd1 | Simd16 | Simd32 | Simd64

definition accumulate_for_simd :: "bool \<Rightarrow> simd_bytes \<Rightarrow> u8 list \<Rightarrow> u64" where
  "accumulate_for_simd le w bytes =
     (case w of
        Simd64 \<Rightarrow> accumulate_simd le 32 bytes
      | Simd32 \<Rightarrow> accumulate_simd le 16 bytes
      | Simd16 \<Rightarrow> accumulate_simd le 8 bytes
      | Simd1 \<Rightarrow> accumulate_u64_words le bytes)"


subsection \<open>Folding and the streaming state\<close>

lemma fold_div_mod_less:
  fixes n :: nat
  assumes "n div 65536 \<noteq> 0"
  shows "n mod 65536 + n div 65536 < n"
proof -
  have "n = 65536 * (n div 65536) + n mod 65536" by simp
  then show ?thesis using assms by linarith
qed

lemma fold_step_less:
  fixes acc :: u64
  assumes "drop_bit 16 acc \<noteq> 0"
  shows "unat ((acc AND 0xffff) + drop_bit 16 acc) = unat acc mod 2 ^ 16 + unat acc div 2 ^ 16"
    "unat acc mod 2 ^ 16 + unat acc div 2 ^ 16 < unat acc"
proof -
  have m: "unat (acc AND 0xffff) = unat acc mod 2 ^ 16"
  proof -
    have "acc AND 0xffff = take_bit 16 acc" by (simp add: take_bit_eq_mask mask_eq_exp_minus_1)
    then show ?thesis by (simp only: unsigned_take_bit_eq) (simp only: take_bit_eq_mod)
  qed
  have d: "unat (drop_bit 16 acc) = unat acc div 2 ^ 16"
    unfolding unat_drop_bit_eq by (rule drop_bit_eq_div)
  have "unat acc div 65536 \<noteq> 0" using assms d by (auto simp: unat_eq_zero [symmetric])
  then show less: "unat acc mod 2 ^ 16 + unat acc div 2 ^ 16 < unat acc"
    using fold_div_mod_less [of "unat acc"] by simp
  have "unat acc < 2 ^ 64" using unsigned_less [of acc] by simp
  with less have "unat acc mod 2 ^ 16 + unat acc div 2 ^ 16 < 2 ^ 64" by (rule less_trans)
  then show "unat ((acc AND 0xffff) + drop_bit 16 acc) = unat acc mod 2 ^ 16 + unat acc div 2 ^ 16"
    by (simp only: unat_word_ariths m d) simp
qed

function fold_checksum_sum :: "u64 \<Rightarrow> u64" where
  "fold_checksum_sum acc =
     (if drop_bit 16 acc \<noteq> 0 then fold_checksum_sum ((acc AND 0xffff) + drop_bit 16 acc) else acc)"
  by pat_completeness auto
termination
  by (relation "measure unat") (simp_all only: wf_measure in_measure fold_step_less simp_thms)

declare fold_checksum_sum.simps [simp del]

definition finish_checksum :: "u64 \<Rightarrow> u16" where
  "finish_checksum acc = NOT (ucast (fold_checksum_sum acc))"

record internet_checksum =
  ic_sum :: u64
  ic_trailing_high :: "u8 option"

definition internet_checksum_default :: internet_checksum where
  "internet_checksum_default = \<lparr>ic_sum = 0, ic_trailing_high = None\<rparr>"

definition internet_checksum_finish :: "internet_checksum \<Rightarrow> u64" where
  "internet_checksum_finish c =
     (let acc = (case ic_trailing_high c of
                   Some high \<Rightarrow> ic_sum c + push_bit 8 (ucast high)
                 | None \<Rightarrow> ic_sum c)
      in ucast (finish_checksum acc))"

function accumulate_chunks :: "bool \<Rightarrow> simd_bytes \<Rightarrow> u64 \<Rightarrow> u8 list \<Rightarrow> u64" where
  "accumulate_chunks le w acc bytes =
     (if bytes = [] then acc
      else accumulate_chunks le w
             (fold_checksum_sum (acc + accumulate_for_simd le w (take (64 * 1024) bytes)))
             (drop (64 * 1024) bytes))"
  by pat_completeness auto
termination
  by (relation "measure (\<lambda>(_, _, _, bytes). length bytes)") auto

declare accumulate_chunks.simps [simp del]

definition write_checksum :: "bool \<Rightarrow> simd_bytes \<Rightarrow> internet_checksum \<Rightarrow> u8 list \<Rightarrow> internet_checksum" where
  "write_checksum le w c bytes =
     (let rest = (\<lambda>acc remainder.
            let even_len = length remainder - length remainder mod 2 in
            \<lparr>ic_sum = accumulate_chunks le w acc (take even_len remainder),
             ic_trailing_high = (if even_len < length remainder then Some (remainder ! even_len) else None)\<rparr>)
      in case ic_trailing_high c of
           Some high \<Rightarrow>
             (case bytes of
                [] \<Rightarrow> c
              | low # remainder \<Rightarrow> rest (ic_sum c + ucast (u16_from_be high low)) remainder)
         | None \<Rightarrow> rest (ic_sum c) bytes)"

definition checksum_parts_with_simd :: "bool \<Rightarrow> simd_bytes \<Rightarrow> u8 list list \<Rightarrow> u16" where
  "checksum_parts_with_simd le w parts =
     ucast (internet_checksum_finish (foldl (write_checksum le w) internet_checksum_default parts))"

text \<open>The dispatch on the target and, on x86-64, on the detected features (avx512f, avx512bw,
  avx2).\<close>

datatype target_arch = X86_64 bool bool bool | AArch64 | OtherArch

definition native_checksum_width :: "target_arch \<Rightarrow> simd_bytes" where
  "native_checksum_width arch =
     (case arch of
        X86_64 avx512f avx512bw avx2 \<Rightarrow>
          if avx512f \<and> avx512bw then Simd64 else if avx2 then Simd32 else Simd16
      | AArch64 \<Rightarrow> Simd16
      | OtherArch \<Rightarrow> Simd1)"

definition internet_checksum_parts :: "bool \<Rightarrow> target_arch \<Rightarrow> u8 list list \<Rightarrow> u16" where
  "internet_checksum_parts le arch parts = checksum_parts_with_simd le (native_checksum_width arch) parts"

definition internet_checksum :: "bool \<Rightarrow> target_arch \<Rightarrow> u8 list \<Rightarrow> u16" where
  "internet_checksum le arch bytes = internet_checksum_parts le arch [bytes]"


subsection \<open>Reference\<close>

text \<open>RFC 1071: the 16-bit ones'-complement of the ones'-complement sum of the big-endian words,
  an odd last byte padded with zero on the right.\<close>

definition ones_complement_add :: "u16 \<Rightarrow> u16 \<Rightarrow> u16" where
  "ones_complement_add a b =
     (let s = unat a + unat b in if s < 2 ^ 16 then of_nat s else of_nat (s mod 2 ^ 16 + 1))"

fun be_words :: "u8 list \<Rightarrow> u16 list" where
  "be_words [] = []"
| "be_words [b] = [u16_from_be b 0]"
| "be_words (b0 # b1 # bs) = u16_from_be b0 b1 # be_words bs"

definition rfc1071_checksum :: "u8 list \<Rightarrow> u16" where
  "rfc1071_checksum bytes = NOT (foldl ones_complement_add 0 (be_words bytes))"

subsection \<open>Ones'-complement arithmetic on natural numbers\<close>

definition norm16 :: "nat \<Rightarrow> nat" where
  "norm16 n = (if n = 0 then 0 else (n - 1) mod 65535 + 1)"

lemma norm16_cong:
  assumes "a = 0 \<longleftrightarrow> b = 0" "a mod 65535 = b mod 65535"
  shows "norm16 a = norm16 b"
proof (cases "a = 0")
  case False
  then obtain a' b' where ab: "a = Suc a'" "b = Suc b'" using assms(1) by (metis not0_implies_Suc)
  have "(a' + 1) mod 65535 = (b' + 1) mod 65535" using assms(2) ab by simp
  then have "(a' + 1 + 65534) mod 65535 = (b' + 1 + 65534) mod 65535" by (rule mod_add_cong) simp
  then have "a' mod 65535 = b' mod 65535" by simp
  then show ?thesis by (simp add: norm16_def ab)
qed (use assms in simp)

lemma norm16_mod [simp]: "norm16 n mod 65535 = n mod 65535"
proof (cases "n = 0")
  case False
  then have "norm16 n mod 65535 = (n - 1 + 1) mod 65535"
    unfolding norm16_def by (simp only: if_False mod_add_left_eq)
  then show ?thesis using False by simp
qed (simp add: norm16_def)

lemma norm16_eq_0 [simp]: "norm16 n = 0 \<longleftrightarrow> n = 0"
  by (simp add: norm16_def)

lemma norm16_less: "norm16 n < 2 ^ 16"
proof -
  have "(n - 1) mod 65535 < 65535" by simp
  then show ?thesis unfolding norm16_def by simp
qed

lemma norm16_id: "n < 2 ^ 16 \<Longrightarrow> norm16 n = n"
  by (simp add: norm16_def)

lemma norm16_add:
  "norm16 a = norm16 a' \<Longrightarrow> norm16 b = norm16 b' \<Longrightarrow> norm16 (a + b) = norm16 (a' + b')"
proof (rule norm16_cong)
  assume a: "norm16 a = norm16 a'" "norm16 b = norm16 b'"
  show "a + b = 0 \<longleftrightarrow> a' + b' = 0" using a by (metis add_is_0 norm16_eq_0)
  have "a mod 65535 = a' mod 65535" "b mod 65535 = b' mod 65535"
    using a norm16_mod by metis+
  then show "(a + b) mod 65535 = (a' + b') mod 65535" by (rule mod_add_cong)
qed

lemma norm16_norm16 [simp]: "norm16 (norm16 a) = norm16 a"
  by (rule norm16_id) (rule norm16_less)

lemma norm16_fold_step: "norm16 (n mod 65536 + n div 65536) = norm16 n"
proof (rule norm16_cong)
  have n: "n = n mod 65536 + 65536 * (n div 65536)" by simp
  show "n mod 65536 + n div 65536 = 0 \<longleftrightarrow> n = 0" using n by linarith
  define r q where "r = n mod 65536" and "q = n div 65536"
  have "n = (r + q) + 65535 * q" using n unfolding r_def q_def by linarith
  then have "n mod 65535 = (r + q) mod 65535" by (metis mod_mult_self2)
  then show "(n mod 65536 + n div 65536) mod 65535 = n mod 65535" unfolding r_def q_def by simp
qed

lemma unat_fold_checksum_sum: "unat (fold_checksum_sum s) = norm16 (unat s)"
proof (induction s rule: fold_checksum_sum.induct)
  case (1 s)
  show ?case
  proof (cases "drop_bit 16 s = 0")
    case True
    then have "unat s div 2 ^ 16 = 0"
      by (metis drop_bit_eq_div unat_drop_bit_eq unsigned_0)
    then have "unat s < 2 ^ 16" by (simp add: div_eq_0_iff)
    then show ?thesis using True by (simp add: fold_checksum_sum.simps [of s] norm16_id)
  next
    case False
    then show ?thesis
      using 1 [OF False] fold_step_less(1) [OF False] norm16_fold_step [of "unat s"]
      by (simp add: fold_checksum_sum.simps [of s])
  qed
qed

lemma foldl_ones_complement:
  "unat (foldl ones_complement_add a ws) = norm16 (unat a + sum_list (map unat ws))"
proof (induction ws arbitrary: a)
  case Nil
  have "unat a < 2 ^ 16" using unsigned_less [of a] by simp
  then show ?case by (simp add: norm16_id)
next
  case (Cons w ws)
  have b: "unat a < 2 ^ 16" "unat w < 2 ^ 16" using unsigned_less [of a] unsigned_less [of w] by simp_all
  have "unat (ones_complement_add a w) = norm16 (unat a + unat w)"
  proof (cases "unat a + unat w < 2 ^ 16")
    case True
    then have "unat (of_nat (unat a + unat w) :: u16) = unat a + unat w"
      by (simp add: unat_of_nat take_bit_eq_mod del: of_nat_add)
    then show ?thesis using True by (simp add: ones_complement_add_def norm16_id del: of_nat_add)
  next
    case False
    define k where "k = unat a + unat w - 65536"
    have k: "unat a + unat w = 65536 + k" "k + 1 < 65536" using False b unfolding k_def by simp_all
    have "norm16 (unat a + unat w) = k + 1"
      using norm16_fold_step [of "65536 + k"] k by (simp add: norm16_id)
    moreover have "unat (of_nat (k + 1) :: u16) = k + 1"
      using k(2) by (simp add: unat_of_nat take_bit_eq_mod del: of_nat_add of_nat_Suc)
    ultimately show ?thesis using k
      by (simp add: ones_complement_add_def Let_def del: of_nat_add of_nat_Suc)
  qed
  then show ?case
    using Cons.IH [of "ones_complement_add a w"]
      norm16_add [of "norm16 (unat a + unat w)" "unat a + unat w" "sum_list (map unat ws)"]
    by (simp add: add.assoc)
qed

subsection \<open>The accumulators compute the sum of the words\<close>

definition word_sum :: "u8 list \<Rightarrow> nat" where
  "word_sum bytes = sum_list (map unat (be_words bytes))"

lemma word_sum_simps [simp]:
  "word_sum [] = 0" "word_sum (b0 # b1 # bs) = unat (u16_from_be b0 b1) + word_sum bs"
  by (simp_all add: word_sum_def)

lemma word_sum_append: "even (length xs) \<Longrightarrow> word_sum (xs @ ys) = word_sum xs + word_sum ys"
  by (induction xs rule: be_words.induct) simp_all

lemma word_sum_bound: "word_sum bs \<le> 65535 * (length bs + 1 - (length bs + 1) div 2)"
proof (induction bs rule: be_words.induct)
  case (2 b)
  have "unat (u16_from_be b 0) < 2 ^ 16" using unsigned_less [of "u16_from_be b 0"] by simp
  then show ?case by (simp add: word_sum_def)
next
  case (3 b0 b1 bs)
  have "unat (u16_from_be b0 b1) < 2 ^ 16" using unsigned_less [of "u16_from_be b0 b1"] by simp
  then show ?case using 3 by simp
qed simp

lemma accumulate_pairs_eq:
  "even (length bs) \<Longrightarrow> accumulate_pairs acc bs = acc + of_nat (word_sum bs)"
  by (induction acc bs rule: accumulate_pairs.induct) (simp_all add: add.assoc)

text \<open>One 64-bit load, swapped and split, is four big-endian words.\<close>

lemma swap_masks:
  "(0x00ff00ff00ff00ff :: u64) = mask 8 OR push_bit 16 (mask 8) OR push_bit 32 (mask 8) OR push_bit 48 (mask 8)"
  "(0xff00ff00ff00ff00 :: u64) =
     push_bit 8 (mask 8) OR push_bit 24 (mask 8) OR push_bit 40 (mask 8) OR push_bit 56 (mask 8)"
  "(0xffff :: u64) = mask 16"
  by (simp_all add: mask_eq_exp_minus_1)

lemma read_le_bit:
  "bit (read_le bs) n \<longleftrightarrow> n < 64 \<and> n div 8 < length bs \<and> bit (bs ! (n div 8)) (n mod 8)"
proof (induction bs arbitrary: n)
  case (Cons b bs)
  show ?case
  proof (cases "n < 8")
    case True
    then show ?thesis by (simp add: bit_simps)
  next
    case False
    then obtain m where m: "n = m + 8" by (metis add.commute le_iff_add not_less)
    moreover have "(m + 8) div 8 = Suc (m div 8)" by simp
    ultimately show ?thesis using Cons.IH [of m]
      by (auto simp: bit_simps dest: bit_imp_le_length)
  qed
qed simp

lemma bit_swap:
  assumes "n < 16" "k < 4"
  shows "bit (swap_bytes_in_each_u16 v) (16 * k + n) \<longleftrightarrow>
     (if n < 8 then bit v (16 * k + n + 8) else bit v (16 * k + n - 8))"
proof -
  have "k = 0 \<or> k = 1 \<or> k = 2 \<or> k = 3" using assms(2) by auto
  then show ?thesis using assms(1)
    unfolding swap_bytes_in_each_u16_def swap_masks
    by (elim disjE) (auto simp: bit_simps add.commute)
qed

lemma byte_index:
  fixes k n :: nat
  shows "n < 8 \<Longrightarrow> (16 * k + n + 8) div 8 = 2 * k + 1" "n < 8 \<Longrightarrow> (16 * k + n + 8) mod 8 = n"
    "8 \<le> n \<Longrightarrow> n < 16 \<Longrightarrow> (16 * k + n - 8) div 8 = 2 * k"
    "8 \<le> n \<Longrightarrow> n < 16 \<Longrightarrow> (16 * k + n - 8) mod 8 = n - 8"
proof -
  have a: "16 * k + n + 8 = n + 8 * (2 * k + 1)" by simp
  show "n < 8 \<Longrightarrow> (16 * k + n + 8) div 8 = 2 * k + 1" "n < 8 \<Longrightarrow> (16 * k + n + 8) mod 8 = n"
    unfolding a by (simp_all only: div_mult_self2 mod_mult_self2) simp_all
  have b: "16 * k + n - 8 = (n - 8) + 8 * (2 * k)" if "8 \<le> n" using that by simp
  show "8 \<le> n \<Longrightarrow> n < 16 \<Longrightarrow> (16 * k + n - 8) div 8 = 2 * k"
    "8 \<le> n \<Longrightarrow> n < 16 \<Longrightarrow> (16 * k + n - 8) mod 8 = n - 8"
    by (simp_all only: b div_mult_self2 mod_mult_self2) simp_all
qed

lemma swapped_word:
  assumes "length bs = 8" "k < 4"
  shows "drop_bit (16 * k) (swap_bytes_in_each_u16 (read_le bs)) AND 0xffff =
     ucast (u16_from_be (bs ! (2 * k)) (bs ! (2 * k + 1)))"
proof (rule bit_word_eqI)
  fix n assume n: "n < LENGTH(64)"
  show "bit (drop_bit (16 * k) (swap_bytes_in_each_u16 (read_le bs)) AND 0xffff) n =
      bit (ucast (u16_from_be (bs ! (2 * k)) (bs ! (2 * k + 1))) :: u64) n"
  proof (cases "n < 16")
    case True
    have "bit (drop_bit (16 * k) (swap_bytes_in_each_u16 (read_le bs)) AND 0xffff) n =
        bit (swap_bytes_in_each_u16 (read_le bs)) (16 * k + n)"
      unfolding swap_masks(3) using True by (simp add: bit_simps)
    also have "\<dots> = bit (u16_from_be (bs ! (2 * k)) (bs ! (2 * k + 1))) n"
    proof (cases "n < 8")
      case lo: True
      have "16 * k + n + 8 < 64" "2 * k + 1 < length bs" using assms lo by simp_all
      then show ?thesis
        by (simp only: bit_swap [OF True assms(2)] bit_u16_from_be [OF True] lo if_True read_le_bit
            byte_index(1,2) simp_thms)
    next
      case False
      then have hi: "8 \<le> n" by simp
      have "16 * k + n - 8 < 64" "2 * k < length bs" using assms True hi by simp_all
      then show ?thesis
        by (simp only: bit_swap [OF True assms(2)] bit_u16_from_be [OF True] False if_False read_le_bit
            byte_index(3,4) [OF hi True] simp_thms)
    qed
    finally show ?thesis using n by (simp add: bit_simps)
  next
    case False
    then show ?thesis unfolding swap_masks(3) by (auto simp: bit_simps dest: bit_imp_le_length)
  qed
qed

lemma word_sum_unfold:
  assumes "2 \<le> length bs"
  shows "word_sum bs = unat (u16_from_be (bs ! 0) (bs ! 1)) + word_sum (drop 2 bs)"
proof -
  obtain b0 b1 bs' where "bs = b0 # b1 # bs'"
    using assms by (cases bs rule: be_words.cases) auto
  then show ?thesis by simp
qed

lemma word_sum_unfold4:
  assumes "8 \<le> length bs"
  shows "word_sum bs = unat (u16_from_be (bs ! 0) (bs ! 1)) + unat (u16_from_be (bs ! 2) (bs ! 3)) +
     unat (u16_from_be (bs ! 4) (bs ! 5)) + unat (u16_from_be (bs ! 6) (bs ! 7)) + word_sum (drop 8 bs)"
  using assms word_sum_unfold [of bs] word_sum_unfold [of "drop 2 bs"] word_sum_unfold [of "drop 4 bs"]
    word_sum_unfold [of "drop 6 bs"] by simp

lemma swapped_top: "drop_bit 48 (v :: u64) = drop_bit 48 v AND 0xffff"
  unfolding swap_masks(3) by (rule bit_word_eqI) (auto simp: bit_simps dest: bit_imp_le_length)

lemma accumulate_u64_loop_eq:
  "even (length bs) \<Longrightarrow> accumulate_u64_loop True acc bs = acc + of_nat (word_sum bs)"
proof (induction "True" acc bs rule: accumulate_u64_loop.induct)
  case (1 acc bs)
  show ?case
  proof (cases "8 \<le> length bs")
    case True
    let ?s = "swap_bytes_in_each_u16 (read_u64 True (take 8 bs))"
    have l: "length (take 8 bs) = 8" using True by simp
    have s: "?s AND 0xffff = ucast (u16_from_be (bs ! 0) (bs ! 1))"
      "drop_bit 16 ?s AND 0xffff = ucast (u16_from_be (bs ! 2) (bs ! 3))"
      "drop_bit 32 ?s AND 0xffff = ucast (u16_from_be (bs ! 4) (bs ! 5))"
      "drop_bit 48 ?s = ucast (u16_from_be (bs ! 6) (bs ! 7))"
      using swapped_word [OF l, of 0] swapped_word [OF l, of 1] swapped_word [OF l, of 2]
        swapped_word [OF l, of 3] swapped_top [of ?s] by (simp_all add: read_u64_def)
    show ?thesis
      using 1(1) [OF True refl] 1(2) True
      unfolding accumulate_u64_loop.simps [of True acc bs] word_sum_unfold4 [OF True] Let_def s
      by simp
  next
    case False
    then show ?thesis using 1(2) by (simp add: accumulate_u64_loop.simps accumulate_pairs_eq)
  qed
qed

lemma accumulate_u64_words_eq: "even (length bs) \<Longrightarrow> accumulate_u64_words True bs = of_nat (word_sum bs)"
  by (simp add: accumulate_u64_words_def accumulate_u64_loop_eq)

lemma swap_read_u16: "swap_bytes_u16 (read_u16 True b0 b1) = u16_from_be b0 b1"
proof (rule bit_word_eqI)
  fix n assume "n < LENGTH(16)"
  then have n: "n < 16" by simp
  have "bit (swap_bytes_u16 v) n \<longleftrightarrow> (if n < 8 then bit v (8 + n) else bit v (n - 8))" for v :: u16
    unfolding swap_bytes_u16_def using n by (auto simp: bit_simps dest: bit_imp_le_length)
  then show "bit (swap_bytes_u16 (read_u16 True b0 b1)) n = bit (u16_from_be b0 b1) n"
    using n by (auto simp: read_u16_def bit_u16_from_be)
qed

lemma vector_words:
  "even (length bs) \<Longrightarrow> (if le then map swap_bytes_u16 (read_lanes le bs) else read_lanes le bs) = be_words bs"
  by (induction bs rule: be_words.induct) (auto simp: swap_read_u16, auto simp: read_u16_def)

lemma vector_sum_eq:
  assumes "even (length bs)" "length bs \<le> 64"
  shows "ucast (vector_sum le bs) = (of_nat (word_sum bs) :: u64)"
proof -
  have f: "foldl (+) a (map ucast ws) = a + (of_nat (sum_list (map unat ws)) :: u32)" for a and ws :: "u16 list"
    by (induction ws arbitrary: a) (simp_all add: add.assoc)
  have "vector_sum le bs = of_nat (word_sum bs)"
    using f [of 0 "be_words bs"] vector_words [OF assms(1), of le]
    by (simp add: vector_sum_def simd_reduce_sum_def word_sum_def Let_def)
  moreover have "word_sum bs < 2 ^ 32"
    using word_sum_bound [of bs] assms(2) by simp
  ultimately show ?thesis
    by (simp add: word_unat_eq_iff unsigned_ucast_eq unat_of_nat take_bit_eq_mod)
qed

lemma accumulate_simd_eq:
  assumes "even (length bs)" "lanes \<le> 32"
  shows "accumulate_simd True lanes bs = of_nat (word_sum bs)"
proof -
  have "accumulate_simd_loop True lanes acc bs = acc + of_nat (word_sum bs)" for acc
    using assms
  proof (induction "True" lanes acc bs rule: accumulate_simd_loop.induct)
    case (1 lanes acc bs)
    show ?case
    proof (cases "0 < lanes \<and> lanes * 2 \<le> length bs")
      case True
      have e: "even (length (take (lanes * 2) bs))" "length (take (lanes * 2) bs) \<le> 64"
        using True 1(3) by simp_all
      have "word_sum bs = word_sum (take (lanes * 2) bs) + word_sum (drop (lanes * 2) bs)"
        using word_sum_append [OF e(1), of "drop (lanes * 2) bs"] by simp
      then show ?thesis
        using 1(1) [OF True] 1(2,3)
        unfolding accumulate_simd_loop.simps [of True lanes acc bs] if_P [OF True] vector_sum_eq [OF e]
        by (simp add: add.assoc)
    next
      case False
      then show ?thesis
        using 1(2) by (simp only: accumulate_simd_loop.simps [of True lanes acc bs] if_False accumulate_u64_words_eq)
    qed
  qed
  then show ?thesis by (simp add: accumulate_simd_def)
qed

lemma accumulate_for_simd_eq: "even (length bs) \<Longrightarrow> accumulate_for_simd True w bs = of_nat (word_sum bs)"
  by (cases w) (simp_all add: accumulate_for_simd_def accumulate_simd_eq accumulate_u64_words_eq)

subsection \<open>The streaming state represents the bytes written\<close>

lemma unat_add_small:
  fixes a b :: u64
  shows "unat a + unat b < 2 ^ 64 \<Longrightarrow> unat (a + b) = unat a + unat b"
  by (simp add: unat_word_ariths)

lemma accumulate_chunks_eq:
  assumes "even (length bs)" "unat acc < 2 ^ 63"
  shows "norm16 (unat (accumulate_chunks True w acc bs)) = norm16 (unat acc + word_sum bs) \<and>
     unat (accumulate_chunks True w acc bs) \<le> max (unat acc) 65535"
  using assms
proof (induction "True" w acc bs rule: accumulate_chunks.induct)
  case (1 w acc bs)
  show ?case
  proof (cases "bs = []")
    case True
    then show ?thesis by (simp add: accumulate_chunks.simps)
  next
    case False
    let ?c = "take (64 * 1024) bs" and ?d = "drop (64 * 1024) bs"
    let ?s = "fold_checksum_sum (acc + accumulate_for_simd True w ?c)"
    have ev: "even (length ?c)" "even (length ?d)" using 1(2) by (auto simp: min_def)
    have "word_sum ?c \<le> 65535 * 65537"
      using word_sum_bound [of ?c] by (rule order_trans) simp
    then have b: "word_sum ?c < 2 ^ 63" by simp
    then have "unat (of_nat (word_sum ?c) :: u64) = word_sum ?c"
      by (simp add: unat_of_nat take_bit_eq_mod)
    then have u: "unat (acc + of_nat (word_sum ?c)) = unat acc + word_sum ?c"
      using unat_add_small [of acc "of_nat (word_sum ?c)"] b 1(3) by simp
    have s: "unat ?s = norm16 (unat acc + word_sum ?c)"
      unfolding unat_fold_checksum_sum accumulate_for_simd_eq [OF ev(1)] u by (rule refl)
    have small: "unat ?s < 2 ^ 63" "unat ?s \<le> 65535"
      using norm16_less [of "unat acc + word_sum ?c"] s by simp_all
    have sum: "word_sum bs = word_sum ?c + word_sum ?d"
      using word_sum_append [OF ev(1), of ?d] by simp
    have "norm16 (unat ?s + word_sum ?d) = norm16 (unat acc + word_sum bs)"
      using norm16_add [of "unat ?s" "unat acc + word_sum ?c" "word_sum ?d" "word_sum ?d"] s sum
      by (simp add: add.assoc)
    then show ?thesis
      using 1(1) [OF False ev(2) small(1)] small(2)
      unfolding accumulate_chunks.simps [of True w acc bs] if_not_P [OF False] by (auto simp: le_max_iff_disj)
  qed
qed

definition even_part :: "'a list \<Rightarrow> 'a list" where
  "even_part bs = take (length bs - length bs mod 2) bs"

definition odd_byte :: "'a list \<Rightarrow> 'a option" where
  "odd_byte bs = (if odd (length bs) then Some (last bs) else None)"

lemma even_part_length: "even (length (even_part bs))"
  by (simp add: even_part_def min_def) presburger

lemma even_part_append: "even (length xs) \<Longrightarrow> even_part (xs @ ys) = xs @ even_part ys"
  by (simp add: even_part_def mod_add_eq [symmetric] even_iff_mod_2_eq_zero)

lemma odd_byte_append: "even (length xs) \<Longrightarrow> odd_byte (xs @ ys) = odd_byte ys"
  by (cases "ys = []") (auto simp: odd_byte_def)

lemma odd_split:
  assumes "odd_byte bs = Some h"
  obtains bs' where "bs = bs' @ [h]" "even (length bs')" "even_part bs = bs'"
proof -
  have o: "odd (length bs)" "last bs = h" using assms by (auto simp: odd_byte_def split: if_splits)
  then have "bs = butlast bs @ [h]" by (metis append_butlast_last_id length_0_conv even_zero)
  moreover have "even (length (butlast bs))" using o by simp
  ultimately show ?thesis using that [of "butlast bs"] even_part_append [of "butlast bs" "[h]"]
    by (simp add: even_part_def)
qed

lemma odd_byte_None: "odd_byte bs = None \<Longrightarrow> even (length bs) \<and> even_part bs = bs"
  by (auto simp: odd_byte_def even_part_def even_iff_mod_2_eq_zero split: if_splits)

lemma trailing_eq:
  "(if length r - length r mod 2 < length r then Some (r ! (length r - length r mod 2)) else None) = odd_byte r"
  by (cases "r = []") (auto simp: odd_byte_def last_conv_nth odd_iff_mod_2_eq_one even_iff_mod_2_eq_zero)

lemma write_checksum_eq:
  "write_checksum le w c bytes =
     (case ic_trailing_high c of
        Some high \<Rightarrow>
          (case bytes of
             [] \<Rightarrow> c
           | low # r \<Rightarrow> \<lparr>ic_sum = accumulate_chunks le w (ic_sum c + ucast (u16_from_be high low)) (even_part r),
                        ic_trailing_high = odd_byte r\<rparr>)
      | None \<Rightarrow> \<lparr>ic_sum = accumulate_chunks le w (ic_sum c) (even_part bytes), ic_trailing_high = odd_byte bytes\<rparr>)"
  by (simp add: write_checksum_def Let_def trailing_eq even_part_def split: option.split list.split)

definition represents :: "nat \<Rightarrow> internet_checksum \<Rightarrow> u8 list \<Rightarrow> bool" where
  "represents k c bs \<longleftrightarrow>
     norm16 (unat (ic_sum c)) = norm16 (word_sum (even_part bs)) \<and>
     ic_trailing_high c = odd_byte bs \<and> unat (ic_sum c) \<le> 65535 * k"

lemma write_checksum_represents:
  assumes rep: "represents k c bs" and k: "0 < k" "k < 2 ^ 46"
  shows "represents (Suc k) (write_checksum True w c bytes) (bs @ bytes)"
proof (cases "ic_trailing_high c")
  case None
  then have e: "even (length bs)" "even_part bs = bs"
    using rep odd_byte_None [of bs] by (simp_all add: represents_def)
  have "unat (ic_sum c) < 2 ^ 63" using rep k by (simp add: represents_def)
  note ch = accumulate_chunks_eq [OF even_part_length this, of w bytes]
  have "norm16 (unat (ic_sum c) + word_sum (even_part bytes)) = norm16 (word_sum (bs @ even_part bytes))"
    using rep e norm16_add [of "unat (ic_sum c)" "word_sum bs"] word_sum_append [OF e(1)]
    by (simp add: represents_def)
  moreover have "write_checksum True w c bytes =
      \<lparr>ic_sum = accumulate_chunks True w (ic_sum c) (even_part bytes), ic_trailing_high = odd_byte bytes\<rparr>"
    using None by (simp add: write_checksum_eq)
  ultimately show ?thesis using ch rep k
    by (auto simp: represents_def le_max_iff_disj even_part_append [OF e(1)] odd_byte_append [OF e(1)])
next
  case (Some high)
  then obtain bs' where b: "bs = bs' @ [high]" "even (length bs')" "even_part bs = bs'"
    using rep odd_split [of bs high] by (auto simp: represents_def)
  show ?thesis
  proof (cases bytes)
    case Nil
    then have "write_checksum True w c bytes = c" using Some by (simp add: write_checksum_eq)
    then show ?thesis using rep Nil by (simp add: represents_def)
  next
    case (Cons low r)
    let ?w = "u16_from_be high low"
    let ?s = "ic_sum c + ucast ?w"
    have w: "unat ?w \<le> 65535" using unsigned_less [of ?w, where 'a=nat] by simp
    have "unat (ucast ?w :: u64) = unat ?w"
      using w by (simp add: unsigned_ucast_eq take_bit_eq_mod)
    then have s: "unat ?s = unat (ic_sum c) + unat ?w"
      using unat_add_small [of "ic_sum c" "ucast ?w"] rep k w by (simp add: represents_def)
    have "unat ?s < 2 ^ 63" using s rep k w by (simp add: represents_def)
    note ch = accumulate_chunks_eq [OF even_part_length this, of w r]
    have app: "bs @ bytes = (bs' @ [high, low]) @ r" "even (length (bs' @ [high, low]))"
      using b Cons by simp_all
    have "word_sum (even_part (bs @ bytes)) = word_sum bs' + (unat ?w + word_sum (even_part r))"
      unfolding app(1) even_part_append [OF app(2)] word_sum_append [OF app(2)]
      using word_sum_append [OF b(2), of "[high, low]"] by simp
    moreover have "norm16 (unat ?s + word_sum (even_part r)) =
        norm16 (word_sum bs' + (unat ?w + word_sum (even_part r)))"
      using rep b(3) norm16_add [of "unat (ic_sum c)" "word_sum bs'"] s
      by (simp add: represents_def add.assoc)
    moreover have "odd_byte (bs @ bytes) = odd_byte r"
      unfolding app(1) by (rule odd_byte_append [OF app(2)])
    moreover have "write_checksum True w c bytes =
        \<lparr>ic_sum = accumulate_chunks True w ?s (even_part r), ic_trailing_high = odd_byte r\<rparr>"
      using Some Cons by (simp add: write_checksum_eq)
    ultimately show ?thesis using ch rep k s w by (auto simp: represents_def le_max_iff_disj)
  qed
qed

lemma parts_represent:
  assumes "represents k c bs" "0 < k" "k + length parts < 2 ^ 46"
  shows "represents (k + length parts) (foldl (write_checksum True w) c parts) (bs @ concat parts)"
  using assms
proof (induction parts arbitrary: k c bs)
  case (Cons p parts)
  have "represents (Suc k) (write_checksum True w c p) (bs @ p)"
    using write_checksum_represents [OF Cons.prems(1,2)] Cons.prems(3) by simp
  from Cons.IH [OF this] Cons.prems(3) show ?case by simp
qed simp

lemma pad_byte: "(push_bit 8 (ucast (h :: u8)) :: u64) = ucast (u16_from_be h 0)"
  unfolding u16_from_be_def by (rule bit_word_eqI) (auto simp: bit_simps dest: bit_imp_le_length)

lemma finish_represents:
  assumes "represents k c bs" "k < 2 ^ 46"
  shows "ucast (internet_checksum_finish c) = rfc1071_checksum bs"
proof -
  define s where "s = (case ic_trailing_high c of
      Some high \<Rightarrow> ic_sum c + push_bit 8 (ucast high) | None \<Rightarrow> ic_sum c)"
  have "norm16 (unat s) = norm16 (word_sum bs)"
  proof (cases "ic_trailing_high c")
    case None
    then have "even_part bs = bs" using assms(1) odd_byte_None [of bs] by (simp add: represents_def)
    then show ?thesis using None assms(1) by (simp add: s_def represents_def)
  next
    case (Some h)
    then obtain bs' where b: "bs = bs' @ [h]" "even (length bs')" "even_part bs = bs'"
      using assms(1) odd_split [of bs h] by (auto simp: represents_def)
    have w: "unat (u16_from_be h 0) < 65536"
      using unsigned_less [of "u16_from_be h 0", where 'a=nat] by simp
    then have "unat (ucast (u16_from_be h 0) :: u64) = unat (u16_from_be h 0)"
      by (simp add: unsigned_ucast_eq take_bit_eq_mod)
    moreover have "s = ic_sum c + ucast (u16_from_be h 0)" by (simp only: s_def Some option.case pad_byte)
    ultimately have "unat s = unat (ic_sum c) + unat (u16_from_be h 0)"
      using unat_add_small [of "ic_sum c" "ucast (u16_from_be h 0)"] assms w
      by (simp add: represents_def)
    moreover have "word_sum bs = word_sum bs' + unat (u16_from_be h 0)"
      using word_sum_append [OF b(2), of "[h]"] b(1) by (simp add: word_sum_def)
    ultimately show ?thesis
      using assms(1) b(3) norm16_add [of "unat (ic_sum c)" "word_sum bs'" "unat (u16_from_be h 0)" "unat (u16_from_be h 0)"]
      by (simp add: represents_def)
  qed
  then have f: "unat (fold_checksum_sum s) = norm16 (word_sum bs)" by (simp add: unat_fold_checksum_sum)
  then have "unat (ucast (fold_checksum_sum s) :: u16) = norm16 (word_sum bs)"
    using norm16_less [of "word_sum bs"] by (simp add: unsigned_ucast_eq take_bit_eq_mod)
  moreover have "unat (foldl ones_complement_add 0 (be_words bs)) = norm16 (word_sum bs)"
    by (simp add: foldl_ones_complement word_sum_def)
  ultimately have "(ucast (fold_checksum_sum s) :: u16) = foldl ones_complement_add 0 (be_words bs)"
    by (simp add: word_unat_eq_iff)
  then have "finish_checksum s = rfc1071_checksum bs"
    by (simp add: finish_checksum_def rfc1071_checksum_def)
  moreover have "ucast (ucast (finish_checksum s) :: u64) = finish_checksum s"
    by (rule bit_word_eqI) (auto simp: bit_simps)
  ultimately show ?thesis by (simp add: internet_checksum_finish_def s_def)
qed

lemma checksum_parts_rfc1071:
  assumes "length parts < 2 ^ 46 - 1"
  shows "internet_checksum_parts True arch parts = rfc1071_checksum (concat parts)"
proof -
  have "represents 1 internet_checksum_default []"
    by (simp add: represents_def internet_checksum_default_def even_part_def odd_byte_def)
  from parts_represent [OF this, of parts] assms
  have "represents (1 + length parts)
      (foldl (write_checksum True (native_checksum_width arch)) internet_checksum_default parts) (concat parts)"
    by simp
  from finish_represents [OF this] assms show ?thesis
    by (simp add: internet_checksum_parts_def checksum_parts_with_simd_def)
qed

lemma internet_checksum_rfc1071: "internet_checksum True arch bs = rfc1071_checksum bs"
  using checksum_parts_rfc1071 [of "[bs]" arch] by (simp add: internet_checksum_def)

subsection \<open>Properties\<close>

text \<open>C5. On a little-endian target every vector width, and so every processor the dispatch can
  find, computes the RFC 1071 checksum of the concatenated bytes, wherever the bytes are cut into
  parts (odd cuts included). The bound on the number of parts keeps the unfolded 64-bit sum from
  wrapping.\<close>

theorem internet_checksum_parts_correct:
  assumes "length parts < 2 ^ 46 - 1"
  shows "internet_checksum_parts True arch parts = rfc1071_checksum (concat parts)"
  using assms by (rule checksum_parts_rfc1071)

theorem internet_checksum_parts_correct_witness:
  "internet_checksum_parts True (X86_64 True True True) [[0x45, 0x00, 0x00], [], [0x1c, 0xff], [0xff, 0x80]] = 0x3ae3"
proof -
  have "rfc1071_checksum [0x45, 0x00, 0x00, 0x1c, 0xff, 0xff, 0x80] = 0x3ae3"
    by (simp add: rfc1071_checksum_def ones_complement_add_def u16_from_be_def Let_def)
  then show ?thesis
    using internet_checksum_parts_correct [of "[[0x45, 0x00, 0x00], [], [0x1c, 0xff], [0xff, 0x80]]"
        "X86_64 True True True"] by simp
qed

text \<open>The 64-bit accumulator swaps the bytes of each half-word unconditionally, so on a big-endian
  target (where the lanes are not swapped) the result is not the checksum.\<close>

lemma internet_checksum_big_endian_wrong:
  "internet_checksum False OtherArch [1, 0, 0, 0, 0, 0, 0, 0] \<noteq> rfc1071_checksum [1, 0, 0, 0, 0, 0, 0, 0]"
  by (simp add: rfc1071_checksum_def ones_complement_add_def u16_from_be_def Let_def internet_checksum_def
      internet_checksum_parts_def checksum_parts_with_simd_def native_checksum_width_def write_checksum_def
      internet_checksum_default_def accumulate_chunks.simps accumulate_for_simd_def accumulate_u64_words_def
      accumulate_u64_loop.simps read_u64_def swap_bytes_in_each_u16_def internet_checksum_finish_def
      finish_checksum_def fold_checksum_sum.simps)

end
