(* ===== verification/TcpTypes.thy ===== *)
theory TcpTypes
  imports Prelude
begin

text \<open>
  The value types of the TCP plugin, \<open>crates/hammer-plugins/transport/tcp/src/protocol/mod.rs\<close>:
  sequence numbers with their half-space order, fast-open cookies, ECN code points, flag words,
  states and timers, and the connection key with its hash. \<open>TcpSeq\<close> and \<open>TcpSegmentFlags\<close>
  are transparent wrappers of \<open>u32\<close> and \<open>u16\<close>; addresses are words of their width.
\<close>

subsection \<open>Sequence numbers\<close>

type_synonym tcp_seq = u32

datatype ordering = Less | Equal | Greater

definition seq_advance :: "tcp_seq \<Rightarrow> u32 \<Rightarrow> tcp_seq" where
  "seq_advance s delta = s + delta"

definition seq_distance_to :: "tcp_seq \<Rightarrow> tcp_seq \<Rightarrow> u32" where
  "seq_distance_to s other = other - s"

definition seq_cmp :: "tcp_seq \<Rightarrow> tcp_seq \<Rightarrow> ordering" where
  "seq_cmp s other =
     (if s = other then Equal else if sint (s - other) < 0 then Less else Greater)"

definition seq_le :: "tcp_seq \<Rightarrow> tcp_seq \<Rightarrow> bool" where
  "seq_le a b \<longleftrightarrow> seq_cmp a b \<noteq> Greater"

definition seq_lt :: "tcp_seq \<Rightarrow> tcp_seq \<Rightarrow> bool" where
  "seq_lt a b \<longleftrightarrow> seq_cmp a b = Less"

text \<open>\<open>Ord::max\<close> and \<open>Ord::min\<close>: the second argument wins a tie for \<open>max\<close>, the
  first for \<open>min\<close>.\<close>

definition seq_max :: "tcp_seq \<Rightarrow> tcp_seq \<Rightarrow> tcp_seq" where
  "seq_max a b = (if seq_lt b a then a else b)"

definition seq_min :: "tcp_seq \<Rightarrow> tcp_seq \<Rightarrow> tcp_seq" where
  "seq_min a b = (if seq_lt b a then b else a)"


subsection \<open>ECN code points, errors, flags, states\<close>

datatype tcp_ecn_codepoint = NotEct | Ect1 | Ect0 | Ce

definition ecn_from_u8 :: "u8 \<Rightarrow> tcp_ecn_codepoint" where
  "ecn_from_u8 v = (if v = 1 then Ect1 else if v = 2 then Ect0 else if v = 3 then Ce else NotEct)"

fun ecn_to_u8 :: "tcp_ecn_codepoint \<Rightarrow> u8" where
  "ecn_to_u8 NotEct = 0" | "ecn_to_u8 Ect1 = 1" | "ecn_to_u8 Ect0 = 2" | "ecn_to_u8 Ce = 3"

datatype tcp_error =
    WrongThread | Length | NoListener | LookupDrops | Dispatch | SegmentInvalid | AckInvalid
  | InvalidConnection | ConnectionClosed | Options | Paws | RcvWnd

datatype tcp_control_packet_parse_error =
  EmptyPacket | UnsupportedIpVersion | PacketTooShort | InvalidCursor | InvalidHeaderLength

fun tcp_error_from_parse_error :: "tcp_control_packet_parse_error \<Rightarrow> tcp_error" where
  "tcp_error_from_parse_error UnsupportedIpVersion = SegmentInvalid"
| "tcp_error_from_parse_error _ = Length"

type_synonym tcp_segment_flags = u16

definition TCP_FIN :: tcp_segment_flags where "TCP_FIN = 0x01"
definition TCP_SYN :: tcp_segment_flags where "TCP_SYN = 0x02"
definition TCP_RST :: tcp_segment_flags where "TCP_RST = 0x04"
definition TCP_PSH :: tcp_segment_flags where "TCP_PSH = 0x08"
definition TCP_ACK :: tcp_segment_flags where "TCP_ACK = 0x10"
definition TCP_URG :: tcp_segment_flags where "TCP_URG = 0x20"
definition TCP_ECE :: tcp_segment_flags where "TCP_ECE = 0x40"
definition TCP_CWR :: tcp_segment_flags where "TCP_CWR = 0x80"
definition TCP_NS :: tcp_segment_flags where "TCP_NS = 0x100"

lemmas tcp_flag_defs = TCP_FIN_def TCP_SYN_def TCP_RST_def TCP_PSH_def TCP_ACK_def TCP_URG_def
  TCP_ECE_def TCP_CWR_def TCP_NS_def

definition flags_contains :: "tcp_segment_flags \<Rightarrow> tcp_segment_flags \<Rightarrow> bool" where
  "flags_contains flags f \<longleftrightarrow> flags AND f = f"

definition flags_set :: "tcp_segment_flags \<Rightarrow> tcp_segment_flags \<Rightarrow> bool \<Rightarrow> tcp_segment_flags" where
  "flags_set flags f v = (if v then flags OR f else flags AND NOT f)"

datatype tcp_state =
    Closed | Listen | SynSent | SynRcvd | Established | FinWait1 | FinWait2 | CloseWait | Closing
  | LastAck | TimeWait

datatype tcp_close_reason =
    LocalRequest | LocalShutdown | RemoteFin | RemoteReset | ConnectTimeout | RetransmitTimeout
  | KeepAliveTimeout | ProtocolError

datatype tcp_timer_kind =
  TimerConnect | TimerRetransmit | TimerDelayedAck | TimerPersist | TimerKeepAlive | TimerTimeWait

fun close_reason_on_expiry :: "tcp_timer_kind \<Rightarrow> tcp_close_reason option" where
  "close_reason_on_expiry TimerConnect = Some ConnectTimeout"
| "close_reason_on_expiry TimerRetransmit = Some RetransmitTimeout"
| "close_reason_on_expiry TimerKeepAlive = Some KeepAliveTimeout"
| "close_reason_on_expiry _ = None"


subsection \<open>Fast-open cookies\<close>

record tcp_fast_open_cookie =
  foc_bytes :: "u8 list"
  foc_len :: u8

definition cookie_is_valid_len :: "usize \<Rightarrow> bool" where
  "cookie_is_valid_len len \<longleftrightarrow> 4 \<le> len \<and> len \<le> 16 \<and> len mod 2 = 0"

definition cookie_len :: "tcp_fast_open_cookie \<Rightarrow> usize" where
  "cookie_len c = unat (foc_len c)"

definition cookie_as_slice :: "tcp_fast_open_cookie \<Rightarrow> u8 list" where
  "cookie_as_slice c = take (cookie_len c) (foc_bytes c)"

definition cookie_epoch :: "tcp_fast_open_cookie \<Rightarrow> u32 option" where
  "cookie_epoch c =
     (if cookie_len c = 16 \<and> foc_bytes c ! 0 = 1
      then Some (u32_from_be (foc_bytes c ! 1) (foc_bytes c ! 2) (foc_bytes c ! 3) (foc_bytes c ! 4))
      else None)"

text \<open>The loop over the two slices of \<open>constant_time_eq\<close> accumulates the differences.\<close>

fun diff_bytes :: "u8 \<Rightarrow> u8 list \<Rightarrow> u8 list \<Rightarrow> u8" where
  "diff_bytes diff (l # lhs) (r # rhs) = diff_bytes (diff OR (l XOR r)) lhs rhs"
| "diff_bytes diff _ _ = diff"

definition cookie_constant_time_eq :: "tcp_fast_open_cookie \<Rightarrow> tcp_fast_open_cookie \<Rightarrow> bool" where
  "cookie_constant_time_eq c other =
     (let lhs = cookie_as_slice c; rhs = cookie_as_slice other in
      if length lhs \<noteq> length rhs then False else diff_bytes 0 lhs rhs = 0)"

definition cookie_try_from :: "u8 list \<Rightarrow> tcp_fast_open_cookie option" where
  "cookie_try_from v =
     (if \<not> cookie_is_valid_len (length v) then None
      else Some \<lparr>foc_bytes = v @ replicate (16 - length v) 0, foc_len = of_nat (length v)\<rparr>)"

definition cookie_wf :: "tcp_fast_open_cookie \<Rightarrow> bool" where
  "cookie_wf c \<longleftrightarrow> length (foc_bytes c) = 16 \<and> cookie_is_valid_len (cookie_len c)"


subsection \<open>Connection keys\<close>

datatype ip_addr = V4 u32 | V6 "128 word"

type_synonym socket_addr = "ip_addr \<times> u16"

record 'addr connection_key =
  ck_scope_id :: u32
  ck_local_addr :: 'addr
  ck_remote_addr :: 'addr
  ck_ports :: u32

definition connection_key_new :: "u32 \<Rightarrow> 'addr \<Rightarrow> u16 \<Rightarrow> 'addr \<Rightarrow> u16 \<Rightarrow> 'addr connection_key" where
  "connection_key_new scope_id local_addr local_port remote_addr remote_port =
     \<lparr>ck_scope_id = scope_id, ck_local_addr = local_addr, ck_remote_addr = remote_addr,
       ck_ports = push_bit 16 (ucast local_port) OR ucast remote_port\<rparr>"

definition key_local_port :: "'addr connection_key \<Rightarrow> u16" where
  "key_local_port k = ucast (drop_bit 16 (ck_ports k))"

definition key_remote_port :: "'addr connection_key \<Rightarrow> u16" where
  "key_remote_port k = ucast (ck_ports k)"


definition key_from_socket_addrs :: "u32 \<Rightarrow> socket_addr \<Rightarrow> socket_addr \<Rightarrow> ip_addr connection_key option" where
  "key_from_socket_addrs scope_id local remote =
     (case (fst local, fst remote) of
        (V4 l, V4 r) \<Rightarrow> Some (connection_key_new scope_id (V4 l) (snd local) (V4 r) (snd remote))
      | (V6 l, V6 r) \<Rightarrow> Some (connection_key_new scope_id (V6 l) (snd local) (V6 r) (snd remote))
      | _ \<Rightarrow> None)"

definition splitmix64 :: "u64 \<Rightarrow> u64" where
  "splitmix64 v =
     (let v = v + 0x9e3779b97f4a7c15;
          v = (v XOR drop_bit 30 v) * 0xbf58476d1ce4e5b9;
          v = (v XOR drop_bit 27 v) * 0x94d049bb133111eb
      in v XOR drop_bit 31 v)"

definition fold_u128 :: "128 word \<Rightarrow> u64" where
  "fold_u128 v = ucast v XOR ucast (drop_bit 64 v)"

definition rotate_left13 :: "u64 \<Rightarrow> u64" where
  "rotate_left13 v = push_bit 13 v OR drop_bit 51 v"

definition hash_words :: "u64 list \<Rightarrow> u64" where
  "hash_words words =
     splitmix64 (foldl (\<lambda>state w. rotate_left13 (state XOR splitmix64 (w XOR state))) 0x9e3779b97f4a7c15 words)"

definition key_hash_v4 :: "u32 connection_key \<Rightarrow> u64" where
  "key_hash_v4 k =
     (let packed = push_bit 96 (ucast (ck_scope_id k)) OR push_bit 64 (ucast (ck_local_addr k)) OR
                   push_bit 32 (ucast (ck_remote_addr k)) OR ucast (ck_ports k) :: 128 word
      in splitmix64 (ucast (packed XOR drop_bit 64 packed)))"

definition key_hash_v6 :: "128 word connection_key \<Rightarrow> u64" where
  "key_hash_v6 k =
     hash_words [fold_u128 (ck_local_addr k), fold_u128 (ck_remote_addr k),
                 ucast (ck_scope_id k), ucast (ck_ports k)]"


subsection \<open>The half-space order\<close>

lemma sint_neg_iff: "sint (w :: u32) < 0 \<longleftrightarrow> 2 ^ 31 \<le> unat w"
proof -
  have "sint w < 0 \<longleftrightarrow> bit w 31"
    using bit_last_iff [of w] by simp
  also have "\<dots> \<longleftrightarrow> 2 ^ 31 \<le> unat w"
  proof -
    have "bit w 31 \<longleftrightarrow> odd (unat w div 2 ^ 31)"
      by (metis bit_iff_odd bit_unsigned_iff possible_bit_nat)
    moreover have "unat w div 2 ^ 31 < 2"
      using unat_u32_less [of w] by (simp add: less_mult_imp_div_less)
    moreover have "1 \<le> unat w div 2 ^ 31 \<longleftrightarrow> 2 ^ 31 \<le> unat w"
      using less_eq_div_iff_mult_less_eq [of "2 ^ 31" 1 "unat w"] by simp
    ultimately show ?thesis by (auto simp: less_2_cases_iff)
  qed
  finally show ?thesis .
qed

lemma seq_window:
  assumes "unat (a - base) < 2 ^ 31" "unat (b - base) < 2 ^ 31"
  shows "seq_cmp a b =
     (if unat (a - base) < unat (b - base) then Less
      else if unat (a - base) = unat (b - base) then Equal else Greater)"
proof -
  define x y where "x = a - base" and "y = b - base"
  have ab: "a - b = x - y" "a = b \<longleftrightarrow> x = y" by (simp_all add: x_def y_def)
  have "sint (x - y) < 0 \<longleftrightarrow> unat x < unat y"
    using assms unat_u32_less [of y] unfolding sint_neg_iff x_def [symmetric] y_def [symmetric]
    by (auto simp: unat_sub_if' word_le_nat_alt)
  then show ?thesis
    using ab by (simp add: seq_cmp_def x_def [symmetric] y_def [symmetric])
qed

lemma seq_lt_window:
  "unat (a - base) < 2 ^ 31 \<Longrightarrow> unat (b - base) < 2 ^ 31 \<Longrightarrow>
     seq_lt a b \<longleftrightarrow> unat (a - base) < unat (b - base)"
  by (simp add: seq_lt_def seq_window)

lemma seq_le_window:
  "unat (a - base) < 2 ^ 31 \<Longrightarrow> unat (b - base) < 2 ^ 31 \<Longrightarrow>
     seq_le a b \<longleftrightarrow> unat (a - base) \<le> unat (b - base)"
  by (auto simp: seq_le_def seq_window)

text \<open>At a distance of exactly half the space each of two numbers is before the other.\<close>

lemma seq_cmp_antipodal: "seq_cmp s (seq_advance s (2 ^ 31)) = Less \<and> seq_cmp (seq_advance s (2 ^ 31)) s = Less"
proof -
  have "sint (- 2147483648 :: u32) < 0" "sint (2147483648 :: u32) < 0"
    unfolding sint_neg_iff by simp_all
  then show ?thesis by (simp add: seq_cmp_def seq_advance_def)
qed


subsection \<open>Cookies\<close>

lemma diff_bytes_0: "length lhs = length rhs \<Longrightarrow> diff_bytes d lhs rhs = 0 \<longleftrightarrow> d = 0 \<and> lhs = rhs"
proof (induction d lhs rhs rule: diff_bytes.induct)
  case (1 d l lhs r rhs)
  have "d OR (l XOR r) = 0 \<longleftrightarrow> d = 0 \<and> l = r"
    by (auto simp: bit_eq_iff bit_simps)
  then show ?case using 1 by auto
qed auto

lemma cookie_try_from_Some:
  assumes "cookie_try_from v = Some c"
  shows "cookie_as_slice c = v" "cookie_wf c"
proof -
  have v: "cookie_is_valid_len (length v)"
    and c: "c = \<lparr>foc_bytes = v @ replicate (16 - length v) 0, foc_len = of_nat (length v)\<rparr>"
    using assms by (auto simp: cookie_try_from_def split: if_splits)
  have "cookie_len c = length v"
    using v by (simp add: c cookie_len_def cookie_is_valid_len_def unat_of_nat take_bit_eq_mod)
  then show "cookie_as_slice c = v" "cookie_wf c"
    using v by (auto simp: cookie_as_slice_def cookie_wf_def c cookie_is_valid_len_def)
qed


subsection \<open>Keys and hashing\<close>

lemma key_ports_new [simp]:
  "key_local_port (connection_key_new sc l lp r rp) = lp"
  "key_remote_port (connection_key_new sc l lp r rp) = rp"
  by (rule bit_word_eqI;
      auto simp: key_local_port_def key_remote_port_def connection_key_new_def bit_simps dest: bit_imp_le_length)+


lemma key_fields_new [simp]:
  "ck_scope_id (connection_key_new sc l lp r rp) = sc"
  "ck_local_addr (connection_key_new sc l lp r rp) = l"
  "ck_remote_addr (connection_key_new sc l lp r rp) = r"
  by (simp_all add: connection_key_new_def)





subsection \<open>Properties\<close>

text \<open>C27. Within half of the sequence space the comparison is the order of the distances from any
  common base, across wrap-around: for two numbers less than \<open>2 ^ 31\<close> ahead of a base, the
  one with the smaller distance compares as less, and only equal numbers compare as equal.\<close>

theorem seq_cmp_half_space:
  assumes "unat (seq_distance_to base a) < 2 ^ 31" "unat (seq_distance_to base b) < 2 ^ 31"
  shows "seq_cmp a b =
     (if seq_distance_to base a < seq_distance_to base b then Less
      else if a = b then Equal else Greater)"
  using seq_window [of a base b] assms by (simp add: seq_distance_to_def word_less_nat_alt)

theorem seq_cmp_half_space_witness:
  "seq_cmp 0xfffffff0 0x10 = Less"
  using seq_cmp_half_space [of "0xffffff00" "0xfffffff0" "0x10"] by (simp add: seq_distance_to_def)


text \<open>C29. A cookie is accepted exactly for the valid lengths and then reads back as the bytes it was
  built from; the constant-time comparison decides equality of the cookie bytes.\<close>

theorem cookie_roundtrip:
  "(if cookie_is_valid_len (length v)
    then \<exists>c. cookie_try_from v = Some c \<and> cookie_as_slice c = v \<and> cookie_wf c
    else cookie_try_from v = None) \<and>
   (cookie_constant_time_eq c1 c2 \<longleftrightarrow> cookie_as_slice c1 = cookie_as_slice c2)"
proof
  show "if cookie_is_valid_len (length v)
    then \<exists>c. cookie_try_from v = Some c \<and> cookie_as_slice c = v \<and> cookie_wf c
    else cookie_try_from v = None"
    using cookie_try_from_Some [of v] by (auto simp: cookie_try_from_def)
  show "cookie_constant_time_eq c1 c2 \<longleftrightarrow> cookie_as_slice c1 = cookie_as_slice c2"
    using diff_bytes_0 [of "cookie_as_slice c1" "cookie_as_slice c2" 0]
    by (auto simp: cookie_constant_time_eq_def Let_def)
qed

end
