(* ===== verification/TcpWire.thy ===== *)
theory TcpWire
  imports TcpTypes
begin

text \<open>
  The TCP wire format, \<open>crates/hammer-plugins/transport/tcp/src/protocol/options.rs\<close> and
  \<open>segment.rs\<close>, and the segment reader and writer of \<open>tcp/src/segment.rs\<close>: the
  option iterator, the capabilities read from it, the fixed header, the option writer, and the
  packet view of a buffer. Byte slices are lists; a slice or index out of range, which panics in
  the code, is \<open>None\<close> (the theorems show it does not happen); a \<open>Result\<close> is a sum with
  the error on the left. The 20-byte header is read and written field by field at the offsets of
  its \<open>repr(C)\<close> layout.
\<close>

subsection \<open>Options\<close>

record tcp_sack_block =
  left_edge :: tcp_seq
  right_edge :: tcp_seq

record tcp_timestamp_option =
  tsval :: u32
  tsecr :: u32

datatype tcp_option =
    OptEnd
  | NoOperation
  | MaximumSegmentSize u16
  | WindowScale u8
  | SackPermitted
  | SackBlock tcp_sack_block
  | Timestamp tcp_timestamp_option
  | FastOpenCookie "u8 list"
  | AccurateEcn
  | Unknown u8 "u8 list"

record tcp_option_iter =
  toi_options :: "u8 list"
  toi_offset :: usize
  toi_sack_blocks :: "u8 list"
  toi_sack_offset :: usize
  toi_finished :: bool

definition option_iter_new :: "u8 list \<Rightarrow> tcp_option_iter" where
  "option_iter_new options =
     \<lparr>toi_options = options, toi_offset = 0, toi_sack_blocks = [], toi_sack_offset = 0, toi_finished = False\<rparr>"

definition stop_with_error ::
  "tcp_option_iter \<Rightarrow> (tcp_error + tcp_option) option \<times> tcp_option_iter" where
  "stop_with_error it = (Some (Inl SegmentInvalid), it\<lparr>toi_finished := True\<rparr>)"

definition is_valid_sack_option_len :: "usize \<Rightarrow> bool" where
  "is_valid_sack_option_len len \<longleftrightarrow> len > 2 \<and> (len - 2) mod 8 = 0"

definition is_valid_fast_open_option_len :: "usize \<Rightarrow> bool" where
  "is_valid_fast_open_option_len len \<longleftrightarrow> len - 2 = 0 \<or> cookie_is_valid_len (len - 2)"

text \<open>\<open>from_be_bytes(slice.try_into().unwrap())\<close>\<close>

fun be_u16 :: "u8 list \<Rightarrow> u16 option" where
  "be_u16 [b0, b1] = Some (u16_from_be b0 b1)"
| "be_u16 _ = None"

fun be_u32 :: "u8 list \<Rightarrow> u32 option" where
  "be_u32 [b0, b1, b2, b3] = Some (u32_from_be b0 b1 b2 b3)"
| "be_u32 _ = None"

definition read_sack_block :: "u8 list \<Rightarrow> tcp_sack_block option" where
  "read_sack_block block =
     do { l \<leftarrow> Option.bind (slice block 0 4) be_u32;
          r \<leftarrow> Option.bind (slice block 4 (length block)) be_u32;
          Some \<lparr>left_edge = l, right_edge = r\<rparr> }"

text \<open>The arms for an option with a length byte; \<open>option\<close> is its bytes, header included.\<close>

definition next_long_option ::
  "tcp_option_iter \<Rightarrow> u8 \<Rightarrow> u8 list \<Rightarrow> ((tcp_error + tcp_option) option \<times> tcp_option_iter) option" where
  "next_long_option it number opt =
     (let len = length opt in
      if number = 2 \<and> len = 4
      then do { v \<leftarrow> Option.bind (slice opt 2 4) be_u16; Some (Some (Inr (MaximumSegmentSize v)), it) }
      else if number = 3 \<and> len = 3 then Some (Some (Inr (WindowScale (min (opt ! 2) 14))), it)
      else if number = 4 \<and> len = 2 then Some (Some (Inr SackPermitted), it)
      else if number = 5 \<and> is_valid_sack_option_len len
      then let sack_len = min (len - 2) (4 * 8) in
           do { blocks \<leftarrow> slice opt 2 (2 + sack_len);
                block \<leftarrow> slice blocks 0 8;
                b \<leftarrow> read_sack_block block;
                Some (Some (Inr (SackBlock b)), it\<lparr>toi_sack_blocks := blocks, toi_sack_offset := 8\<rparr>) }
      else if number = 8 \<and> len = 10
      then do { v \<leftarrow> Option.bind (slice opt 2 6) be_u32;
                e \<leftarrow> Option.bind (slice opt 6 10) be_u32;
                Some (Some (Inr (Timestamp \<lparr>tsval = v, tsecr = e\<rparr>)), it) }
      else if number = 34 \<and> is_valid_fast_open_option_len len
      then do { cookie \<leftarrow> slice opt 2 len; Some (Some (Inr (FastOpenCookie cookie)), it) }
      else if number = 172 \<or> number = 174 then Some (Some (Inr AccurateEcn), it)
      else if number = 2 \<or> number = 3 \<or> number = 4 \<or> number = 5 \<or> number = 8 \<or> number = 34
      then Some (stop_with_error it)
      else do { bytes \<leftarrow> slice opt 2 len; Some (Some (Inr (Unknown number bytes)), it) })"

definition option_iter_next ::
  "tcp_option_iter \<Rightarrow> ((tcp_error + tcp_option) option \<times> tcp_option_iter) option" where
  "option_iter_next it =
     (if toi_sack_offset it < length (toi_sack_blocks it)
      then do { block \<leftarrow> slice (toi_sack_blocks it) (toi_sack_offset it) (toi_sack_offset it + 8);
                b \<leftarrow> read_sack_block block;
                Some (Some (Inr (SackBlock b)), it\<lparr>toi_sack_offset := toi_sack_offset it + 8\<rparr>) }
      else if toi_finished it \<or> toi_offset it \<ge> length (toi_options it) then Some (None, it)
      else let number = toi_options it ! toi_offset it in
      if number = 0 then Some (Some (Inr OptEnd), it\<lparr>toi_finished := True\<rparr>)
      else if number = 1 then Some (Some (Inr NoOperation), it\<lparr>toi_offset := toi_offset it + 1\<rparr>)
      else if \<not> toi_offset it + 1 < length (toi_options it) then Some (stop_with_error it)
      else let len = unat (toi_options it ! (toi_offset it + 1)) in
      if len < 2 \<or> len > length (toi_options it) - toi_offset it then Some (stop_with_error it)
      else do { opt \<leftarrow> slice (toi_options it) (toi_offset it) (toi_offset it + len);
                next_long_option (it\<lparr>toi_offset := toi_offset it + len\<rparr>) number opt })"

text \<open>A \<open>for option in iter { let option = option?; ... }\<close> loop: the body gives the new state and
  whether to go on (\<open>break\<close> is \<open>False\<close>), or an error.\<close>

partial_function (option) for_options ::
  "('s \<Rightarrow> tcp_option \<Rightarrow> tcp_error + 's \<times> bool) \<Rightarrow> tcp_option_iter \<Rightarrow> 's \<Rightarrow> (tcp_error + 's) option" where
  "for_options body it s =
     (case option_iter_next it of
        None \<Rightarrow> None
      | Some (None, _) \<Rightarrow> Some (Inr s)
      | Some (Some (Inl e), _) \<Rightarrow> Some (Inl e)
      | Some (Some (Inr opt), it') \<Rightarrow>
          (case body s opt of
             Inl e \<Rightarrow> Some (Inl e)
           | Inr (s', go) \<Rightarrow> if go then for_options body it' s' else Some (Inr s')))"

partial_function (option) option_iter_collect ::
  "tcp_option_iter \<Rightarrow> (tcp_error + tcp_option) list option" where
  "option_iter_collect it =
     (case option_iter_next it of
        None \<Rightarrow> None
      | Some (None, _) \<Rightarrow> Some []
      | Some (Some item, it') \<Rightarrow>
          do { items \<leftarrow> option_iter_collect it'; Some (item # items) })"

record tcp_capabilities =
  max_segment_size :: "u16 option"
  window_scale :: "u8 option"
  cap_sack :: bool
  cap_timestamps :: bool
  cap_ecn :: bool
  cap_accurate_ecn :: bool
  cap_fast_open :: bool

definition tcp_capabilities_default :: tcp_capabilities where
  "tcp_capabilities_default =
     \<lparr>max_segment_size = None, window_scale = None, cap_sack = False, cap_timestamps = False,
       cap_ecn = False, cap_accurate_ecn = False, cap_fast_open = False\<rparr>"

fun capabilities_option :: "tcp_capabilities \<Rightarrow> tcp_option \<Rightarrow> tcp_capabilities" where
  "capabilities_option c (MaximumSegmentSize v) = c\<lparr>max_segment_size := Some v\<rparr>"
| "capabilities_option c (WindowScale v) = c\<lparr>window_scale := Some v\<rparr>"
| "capabilities_option c SackPermitted = c\<lparr>cap_sack := True\<rparr>"
| "capabilities_option c (Timestamp _) = c\<lparr>cap_timestamps := True\<rparr>"
| "capabilities_option c (FastOpenCookie _) = c\<lparr>cap_fast_open := True\<rparr>"
| "capabilities_option c AccurateEcn = c\<lparr>cap_ecn := True, cap_accurate_ecn := True\<rparr>"
| "capabilities_option c _ = c"

definition tcp_capabilities_from_options :: "u8 list \<Rightarrow> (tcp_error + tcp_capabilities) option" where
  "tcp_capabilities_from_options options =
     for_options (\<lambda>c opt. Inr (capabilities_option c opt, True)) (option_iter_new options) tcp_capabilities_default"


subsection \<open>The fixed header\<close>

record tcp_header =
  th_source_port :: "u8 list"
  th_destination_port :: "u8 list"
  th_sequence_number :: "u8 list"
  th_acknowledgment_number :: "u8 list"
  th_data_offset_reserved_flags :: "u8 list"
  th_advertised_window :: "u8 list"
  th_checksum :: "u8 list"
  th_urgent_pointer :: "u8 list"

definition tcp_header_from_prefix :: "u8 list \<Rightarrow> tcp_header option" where
  "tcp_header_from_prefix packet =
     (if length packet < 20 then None
      else Some \<lparr>th_source_port = take 2 packet, th_destination_port = take 2 (drop 2 packet),
                 th_sequence_number = take 4 (drop 4 packet),
                 th_acknowledgment_number = take 4 (drop 8 packet),
                 th_data_offset_reserved_flags = take 2 (drop 12 packet),
                 th_advertised_window = take 2 (drop 14 packet),
                 th_checksum = take 2 (drop 16 packet), th_urgent_pointer = take 2 (drop 18 packet)\<rparr>)"

definition tcp_header_bytes :: "tcp_header \<Rightarrow> u8 list" where
  "tcp_header_bytes h =
     th_source_port h @ th_destination_port h @ th_sequence_number h @ th_acknowledgment_number h @
     th_data_offset_reserved_flags h @ th_advertised_window h @ th_checksum h @ th_urgent_pointer h"

definition hdr_header_len :: "tcp_header \<Rightarrow> usize" where
  "hdr_header_len h = unat (drop_bit 4 (th_data_offset_reserved_flags h ! 0)) * 4"

definition hdr_source_port :: "tcp_header \<Rightarrow> u16" where
  "hdr_source_port h = u16_from_be (th_source_port h ! 0) (th_source_port h ! 1)"

definition hdr_destination_port :: "tcp_header \<Rightarrow> u16" where
  "hdr_destination_port h = u16_from_be (th_destination_port h ! 0) (th_destination_port h ! 1)"

definition hdr_sequence_number :: "tcp_header \<Rightarrow> u32" where
  "hdr_sequence_number h =
     (let b = th_sequence_number h in u32_from_be (b ! 0) (b ! 1) (b ! 2) (b ! 3))"

definition hdr_acknowledgment_number :: "tcp_header \<Rightarrow> u32" where
  "hdr_acknowledgment_number h =
     (let b = th_acknowledgment_number h in u32_from_be (b ! 0) (b ! 1) (b ! 2) (b ! 3))"

definition hdr_advertised_window :: "tcp_header \<Rightarrow> u16" where
  "hdr_advertised_window h = u16_from_be (th_advertised_window h ! 0) (th_advertised_window h ! 1)"

definition hdr_urgent_pointer :: "tcp_header \<Rightarrow> u16" where
  "hdr_urgent_pointer h = u16_from_be (th_urgent_pointer h ! 0) (th_urgent_pointer h ! 1)"

definition hdr_flags :: "tcp_header \<Rightarrow> tcp_segment_flags" where
  "hdr_flags h =
     (let first = th_data_offset_reserved_flags h ! 0;
          second = th_data_offset_reserved_flags h ! 1;
          flags = 0;
          flags = flags_set flags TCP_NS (first AND 0x01 \<noteq> 0);
          flags = flags_set flags TCP_FIN (second AND 0x01 \<noteq> 0);
          flags = flags_set flags TCP_SYN (second AND 0x02 \<noteq> 0);
          flags = flags_set flags TCP_RST (second AND 0x04 \<noteq> 0);
          flags = flags_set flags TCP_PSH (second AND 0x08 \<noteq> 0);
          flags = flags_set flags TCP_ACK (second AND 0x10 \<noteq> 0);
          flags = flags_set flags TCP_URG (second AND 0x20 \<noteq> 0);
          flags = flags_set flags TCP_ECE (second AND 0x40 \<noteq> 0);
          flags = flags_set flags TCP_CWR (second AND 0x80 \<noteq> 0)
      in flags)"

definition hdr_set_flags :: "tcp_header \<Rightarrow> tcp_segment_flags \<Rightarrow> tcp_header" where
  "hdr_set_flags h flags =
     (let data_offset = th_data_offset_reserved_flags h ! 0 AND 0xf0;
          ns = (if flags_contains flags TCP_NS then 1 else 0)
      in h\<lparr>th_data_offset_reserved_flags := [data_offset OR ns, ucast (flags AND 0xff)]\<rparr>)"

definition tcp_header_of :: "u8 list \<Rightarrow> tcp_error + tcp_header" where
  "tcp_header_of packet =
     (case tcp_header_from_prefix packet of
        None \<Rightarrow> Inl SegmentInvalid
      | Some header \<Rightarrow>
          let header_len = hdr_header_len header in
          if header_len < 20 \<or> header_len > 60 \<or> header_len mod 4 \<noteq> 0 then Inl SegmentInvalid
          else if length packet < header_len then Inl SegmentInvalid
          else Inr header)"


subsection \<open>Writing a segment header\<close>

record tcp_segment_header =
  sh_source_port :: u16
  sh_destination_port :: u16
  sh_sequence_number :: u32
  sh_acknowledgment_number :: u32
  sh_flags :: tcp_segment_flags
  sh_advertised_window :: u16
  sh_urgent_pointer :: u16
  sh_capabilities :: tcp_capabilities
  sh_timestamp :: "tcp_timestamp_option option"
  sh_fast_open_cookie :: "tcp_fast_open_cookie option"

definition round_tcp_options_len :: "usize \<Rightarrow> usize" where
  "round_tcp_options_len len = (len + 3) div 4 * 4"

definition tcp_options_len :: "tcp_segment_header \<Rightarrow> tcp_sack_block list option \<Rightarrow> usize" where
  "tcp_options_len h sack_blocks =
     (let c = sh_capabilities h in
      if flags_contains (sh_flags h) TCP_SYN
      then round_tcp_options_len
             ((if max_segment_size c \<noteq> None then 4 else 0) +
              (if window_scale c \<noteq> None then 4 else 0) +
              (if cap_sack c then 4 else 0) +
              (if cap_timestamps c then 12 else 0) +
              (if cap_fast_open c
               then 2 + (case sh_fast_open_cookie h of None \<Rightarrow> 0 | Some k \<Rightarrow> cookie_len k) else 0) +
              (if cap_accurate_ecn c then 3 else 0))
      else if \<not> flags_contains (sh_flags h) TCP_ACK then 0
      else let limited_sack_len = (case sack_blocks of None \<Rightarrow> 0 | Some blocks \<Rightarrow> min (length blocks) 4)
           in round_tcp_options_len
                ((if cap_timestamps c then 12 else 0) +
                 (if limited_sack_len \<noteq> 0 then 4 + limited_sack_len * 8 else 0)))"

definition seg_header_len :: "tcp_segment_header \<Rightarrow> tcp_sack_block list option \<Rightarrow> usize" where
  "seg_header_len h sack_blocks = 20 + tcp_options_len h sack_blocks"

definition tcp_data_offset_flags :: "usize \<Rightarrow> tcp_segment_flags \<Rightarrow> u16" where
  "tcp_data_offset_flags header_len flags =
     (let dof = push_bit 12 (ucast (of_nat (header_len div 4) :: u8));
          dof = (if flags_contains flags TCP_NS then dof OR 0x0100 else dof)
      in dof OR (flags AND 0xff))"

text \<open>One step of the option writer: write bytes at \<open>written\<close> and advance.\<close>

definition put_bytes :: "u8 list \<Rightarrow> u8 list \<times> usize \<Rightarrow> (u8 list \<times> usize) option" where
  "put_bytes bs st =
     (case write_bytes (fst st) (snd st) bs of
        None \<Rightarrow> None | Some out \<Rightarrow> Some (out, snd st + length bs))"

definition write_tcp_timestamp_option ::
  "tcp_timestamp_option option \<Rightarrow> u8 list \<times> usize \<Rightarrow> (u8 list \<times> usize) option" where
  "write_tcp_timestamp_option timestamp =
     (let ts = (case timestamp of None \<Rightarrow> \<lparr>tsval = 0, tsecr = 0\<rparr> | Some ts \<Rightarrow> ts)
      in put_bytes ([1, 1, 8, 10] @ u32_be_bytes (tsval ts) @ u32_be_bytes (tsecr ts)))"

fun write_sack_blocks :: "tcp_sack_block list \<Rightarrow> u8 list \<times> usize \<Rightarrow> (u8 list \<times> usize) option" where
  "write_sack_blocks [] st = Some st"
| "write_sack_blocks (b # bs) st =
     Option.bind (put_bytes (u32_be_bytes (left_edge b) @ u32_be_bytes (right_edge b)) st)
       (write_sack_blocks bs)"

definition write_syn_options :: "tcp_segment_header \<Rightarrow> u8 list \<times> usize \<Rightarrow> (u8 list \<times> usize) option" where
  "write_syn_options h st =
     (let c = sh_capabilities h in
      do { st \<leftarrow> (case max_segment_size c of
                     Some mss \<Rightarrow> put_bytes ([2, 4] @ u16_be_bytes mss) st | None \<Rightarrow> Some st);
           st \<leftarrow> (case window_scale c of
                     Some ws \<Rightarrow> put_bytes [1, 3, 3, min ws 14] st | None \<Rightarrow> Some st);
           st \<leftarrow> (if cap_sack c then put_bytes [1, 1, 4, 2] st else Some st);
           st \<leftarrow> (if cap_timestamps c then write_tcp_timestamp_option (sh_timestamp h) st else Some st);
           st \<leftarrow> (if cap_fast_open c
                   then let cookie = (case sh_fast_open_cookie h of None \<Rightarrow> [] | Some k \<Rightarrow> cookie_as_slice k)
                        in put_bytes ([34, of_nat (2 + length cookie)] @ cookie) st
                   else Some st);
           if cap_accurate_ecn c then put_bytes [1, 172, 2] st else Some st })"

definition write_ack_options ::
  "tcp_segment_header \<Rightarrow> tcp_sack_block list option \<Rightarrow> u8 list \<times> usize \<Rightarrow> (u8 list \<times> usize) option" where
  "write_ack_options h sack_blocks st =
     do { st \<leftarrow> (if cap_timestamps (sh_capabilities h)
                  then write_tcp_timestamp_option (sh_timestamp h) st else Some st);
          case sack_blocks of
            None \<Rightarrow> Some st
          | Some blocks \<Rightarrow>
              let limited_sack_len = min (length blocks) 4 in
              if limited_sack_len \<noteq> 0
              then do { st \<leftarrow> put_bytes [1, 1, 5, of_nat (2 + limited_sack_len * 8)] st;
                        write_sack_blocks (take limited_sack_len blocks) st }
              else Some st }"

definition write_tcp_options ::
  "u8 list \<Rightarrow> tcp_segment_header \<Rightarrow> tcp_sack_block list option \<Rightarrow> u8 list option" where
  "write_tcp_options out h sack_blocks =
     do { (out, written) \<leftarrow>
            (if flags_contains (sh_flags h) TCP_SYN then write_syn_options h (out, 0)
             else if flags_contains (sh_flags h) TCP_ACK then write_ack_options h sack_blocks (out, 0)
             else Some (out, 0));
          if written \<le> length out then Some (take written out @ replicate (length out - written) 0) else None }"

definition set_header_fields :: "tcp_segment_header \<Rightarrow> usize \<Rightarrow> tcp_header" where
  "set_header_fields h len =
     \<lparr>th_source_port = u16_be_bytes (sh_source_port h),
       th_destination_port = u16_be_bytes (sh_destination_port h),
       th_sequence_number = u32_be_bytes (sh_sequence_number h),
       th_acknowledgment_number = u32_be_bytes (sh_acknowledgment_number h),
       th_data_offset_reserved_flags = u16_be_bytes (tcp_data_offset_flags len (sh_flags h)),
       th_advertised_window = u16_be_bytes (sh_advertised_window h),
       th_checksum = u16_be_bytes 0,
       th_urgent_pointer = u16_be_bytes (sh_urgent_pointer h)\<rparr>"

text \<open>The result is the header length with the new buffer, or the error; the outer option is a
  panic.\<close>

definition write_to_buffer ::
  "tcp_segment_header \<Rightarrow> u8 list \<Rightarrow> tcp_sack_block list option \<Rightarrow> (tcp_error + usize \<times> u8 list) option" where
  "write_to_buffer h out sack_blocks =
     (let len = seg_header_len h sack_blocks in
      if len > 60 \<or> len mod 4 \<noteq> 0 \<or> length out < len then Some (Inl Length)
      else let out = replicate len 0 @ drop len out in
           if length out < 20 then Some (Inl Length)
           else let out = tcp_header_bytes (set_header_fields h len) @ drop 20 out in
                do { opts \<leftarrow> slice out 20 len;
                     opts \<leftarrow> write_tcp_options opts h sack_blocks;
                     Some (Inr (len, take 20 out @ opts @ drop len out)) })"

definition cache_options ::
  "tcp_segment_header \<Rightarrow> u8 list \<Rightarrow> tcp_sack_block list option \<Rightarrow> (usize \<times> u8 list) option" where
  "cache_options h out sack_blocks =
     (let len = tcp_options_len h sack_blocks in
      do { opts \<leftarrow> slice out 0 len;
           opts \<leftarrow> write_tcp_options opts h sack_blocks;
           Some (len, opts @ drop len out) })"

definition write_to_buffer_cached ::
  "tcp_segment_header \<Rightarrow> u8 list \<Rightarrow> u8 list \<Rightarrow> tcp_error + usize \<times> u8 list" where
  "write_to_buffer_cached h out options =
     (let len = 20 + length options in
      if len > 60 \<or> len mod 4 \<noteq> 0 \<or> length out < len then Inl Length
      else Inr (len, tcp_header_bytes (set_header_fields h len) @ options @ drop len out))"

subsection \<open>Reference grammar of options\<close>

fun sack_blocks_of :: "u8 list \<Rightarrow> tcp_sack_block list" where
  "sack_blocks_of (a0 # a1 # a2 # a3 # b0 # b1 # b2 # b3 # bs) =
     \<lparr>left_edge = u32_from_be a0 a1 a2 a3, right_edge = u32_from_be b0 b1 b2 b3\<rparr> # sack_blocks_of bs"
| "sack_blocks_of _ = []"

text \<open>What one option with kind \<open>number\<close> and the bytes after its length stands for;
  \<open>None\<close> is a malformed option. A SACK option stands for its first four blocks.\<close>

definition option_meaning :: "u8 \<Rightarrow> u8 list \<Rightarrow> tcp_option list option" where
  "option_meaning number payload =
     (if number = 2 then (case payload of [a, b] \<Rightarrow> Some [MaximumSegmentSize (u16_from_be a b)] | _ \<Rightarrow> None)
      else if number = 3 then (case payload of [a] \<Rightarrow> Some [WindowScale (min a 14)] | _ \<Rightarrow> None)
      else if number = 4 then (case payload of [] \<Rightarrow> Some [SackPermitted] | _ \<Rightarrow> None)
      else if number = 5
      then (if payload \<noteq> [] \<and> length payload mod 8 = 0
            then Some (map SackBlock (take 4 (sack_blocks_of payload))) else None)
      else if number = 8
      then (case payload of
              [a0, a1, a2, a3, b0, b1, b2, b3] \<Rightarrow>
                Some [Timestamp \<lparr>tsval = u32_from_be a0 a1 a2 a3, tsecr = u32_from_be b0 b1 b2 b3\<rparr>]
            | _ \<Rightarrow> None)
      else if number = 34
      then (if payload = [] \<or> cookie_is_valid_len (length payload) then Some [FastOpenCookie payload] else None)
      else if number = 172 \<or> number = 174 then Some [AccurateEcn]
      else Some [Unknown number payload])"

text \<open>The options of a header: no-operations, options with a length, up to an end mark or a
  malformed option.\<close>

function parse_options :: "u8 list \<Rightarrow> (tcp_error + tcp_option) list" where
  "parse_options bs =
     (case bs of
        [] \<Rightarrow> []
      | number # rest \<Rightarrow>
          if number = 0 then [Inr OptEnd]
          else if number = 1 then Inr NoOperation # parse_options rest
          else case rest of
                 [] \<Rightarrow> [Inl SegmentInvalid]
               | len # _ \<Rightarrow>
                   if unat len < 2 \<or> unat len > length bs then [Inl SegmentInvalid]
                   else case option_meaning number (drop 2 (take (unat len) bs)) of
                          None \<Rightarrow> [Inl SegmentInvalid]
                        | Some opts \<Rightarrow> map Inr opts @ parse_options (drop (unat len) bs))"
  by pat_completeness auto
termination
  by (relation "measure length") auto

declare parse_options.simps [simp del]

lemma parse_options_simps [simp]:
  "parse_options [] = []"
  "parse_options (0 # bs) = [Inr OptEnd]"
  "parse_options (1 # bs) = Inr NoOperation # parse_options bs"
  by (subst parse_options.simps, simp)+


subsection \<open>The iterator implements the grammar\<close>

lemma be_u32_take: "length bs \<ge> 4 \<Longrightarrow> be_u32 (take 4 bs) = Some (u32_from_be (bs ! 0) (bs ! 1) (bs ! 2) (bs ! 3))"
  by (cases bs rule: be_u32.cases) (auto simp: numeral_eq_Suc)

lemma read_sack_block_eq:
  assumes "length bs = 8"
  shows "read_sack_block bs =
    Some \<lparr>left_edge = u32_from_be (bs ! 0) (bs ! 1) (bs ! 2) (bs ! 3),
          right_edge = u32_from_be (bs ! 4) (bs ! 5) (bs ! 6) (bs ! 7)\<rparr>"
  using assms be_u32_take [of bs] be_u32_take [of "drop 4 bs"]
  by (simp add: read_sack_block_def slice_def)

lemma sack_blocks_of_unfold:
  assumes "8 \<le> length bs"
  shows "sack_blocks_of bs =
    \<lparr>left_edge = u32_from_be (bs ! 0) (bs ! 1) (bs ! 2) (bs ! 3),
     right_edge = u32_from_be (bs ! 4) (bs ! 5) (bs ! 6) (bs ! 7)\<rparr> # sack_blocks_of (drop 8 bs)"
  using assms by (cases bs rule: sack_blocks_of.cases) (auto simp: numeral_eq_Suc)

lemma sack_blocks_of_take: "sack_blocks_of (take (8 * n) bs) = take n (sack_blocks_of bs)"
proof (induction n arbitrary: bs)
  case (Suc n)
  show ?case
  proof (cases "8 \<le> length bs")
    case True
    then have "8 \<le> length (take (8 * Suc n) bs)" by simp
    from sack_blocks_of_unfold [OF this] show ?thesis
      using sack_blocks_of_unfold [OF True] Suc [of "drop 8 bs"] by (simp add: drop_take)
  next
    case False
    then have "take (8 * Suc n) bs = bs" by simp
    moreover have "sack_blocks_of bs = []"
      using False by (cases bs rule: sack_blocks_of.cases) auto
    ultimately show ?thesis by simp
  qed
qed simp

definition iter_wf :: "tcp_option_iter \<Rightarrow> bool" where
  "iter_wf it \<longleftrightarrow> toi_offset it \<le> length (toi_options it) \<and>
     length (toi_sack_blocks it) mod 8 = 0 \<and> toi_sack_offset it mod 8 = 0"

definition iter_pending :: "tcp_option_iter \<Rightarrow> tcp_option list" where
  "iter_pending it = map SackBlock (sack_blocks_of (drop (toi_sack_offset it) (toi_sack_blocks it)))"

definition iter_items :: "tcp_option_iter \<Rightarrow> (tcp_error + tcp_option) list" where
  "iter_items it = map Inr (iter_pending it) @
     (if toi_finished it then [] else parse_options (drop (toi_offset it) (toi_options it)))"

lemma list2E: "length xs = 2 \<Longrightarrow> (\<And>a b. xs = [a, b] \<Longrightarrow> P) \<Longrightarrow> P"
  by (auto simp: length_Suc_conv numeral_eq_Suc)

lemma slice_from_2: "2 \<le> length opt \<Longrightarrow> slice opt 2 (length opt) = Some (drop 2 opt)"
  by (simp add: slice_def)

text \<open>An option with a length byte: the iterator yields the first item of its meaning and keeps
  the further SACK blocks pending, or stops on a malformed option.\<close>

definition long_option_ok :: "tcp_option_iter \<Rightarrow> u8 \<Rightarrow> u8 list \<Rightarrow> bool" where
  "long_option_ok it number opt \<longleftrightarrow>
     (case option_meaning number (drop 2 opt) of
        None \<Rightarrow> next_long_option it number opt = Some (stop_with_error it)
      | Some opts \<Rightarrow> \<exists>o' it'. next_long_option it number opt = Some (Some (Inr o'), it') \<and>
          opts = o' # iter_pending it' \<and> iter_wf it' \<and> toi_options it' = toi_options it \<and>
          toi_offset it' = toi_offset it \<and> toi_finished it' = toi_finished it)"

lemma long_option_simple:
  assumes "option_meaning number (drop 2 opt) = Some [o']" "next_long_option it number opt = Some (Some (Inr o'), it)"
    "length (toi_sack_blocks it) \<le> toi_sack_offset it" "iter_wf it"
  shows "long_option_ok it number opt"
  using assms by (simp add: long_option_ok_def iter_pending_def)

lemma long_option_bad:
  assumes "option_meaning number (drop 2 opt) = None" "next_long_option it number opt = Some (stop_with_error it)"
  shows "long_option_ok it number opt"
  using assms by (simp add: long_option_ok_def)

lemma option_meaning_malformed:
  "length p \<noteq> 2 \<Longrightarrow> option_meaning 2 p = None"
  "length p \<noteq> 1 \<Longrightarrow> option_meaning 3 p = None"
  "length p \<noteq> 8 \<Longrightarrow> option_meaning 8 p = None"
  by (auto simp: option_meaning_def split: list.splits)

lemma long_option_sack:
  assumes "2 \<le> length opt" and wf: "iter_wf it"
  shows "long_option_ok it 5 opt"
proof (cases "drop 2 opt \<noteq> [] \<and> length (drop 2 opt) mod 8 = 0")
  case True
  define payload where "payload = drop 2 opt"
  have l: "length opt = 2 + length payload" using assms(1) by (simp add: payload_def)
  have p: "payload \<noteq> []" "length payload mod 8 = 0" using True by (simp_all add: payload_def)
  have l8: "8 \<le> length payload" using p by (metis length_0_conv mod_less not_le)
  define bl where "bl = take (8 * 4) payload"
  have lbl: "8 \<le> length bl" "length bl mod 8 = 0" using p l8 by (auto simp: bl_def min_def)
  have s1: "slice opt 2 (2 + min (length payload) 32) = Some bl"
    using l by (auto simp: slice_def bl_def min_def simp flip: payload_def)
  have s2: "slice bl 0 8 = Some (take 8 bl)" using lbl by (simp add: slice_def)
  let ?it = "it\<lparr>toi_sack_blocks := bl, toi_sack_offset := 8\<rparr>"
  obtain b where b: "read_sack_block (take 8 bl) = Some b" "sack_blocks_of bl = b # sack_blocks_of (drop 8 bl)"
    using read_sack_block_eq [of "take 8 bl"] sack_blocks_of_unfold [OF lbl(1)] lbl(1) by simp
  have v: "is_valid_sack_option_len (length opt)" using p l by (simp add: is_valid_sack_option_len_def)
  have "next_long_option it 5 opt = Some (Some (Inr (SackBlock b)), ?it)"
    using v l s1 s2 b(1) by (simp add: next_long_option_def Let_def)
  moreover have "take 4 (sack_blocks_of payload) = b # sack_blocks_of (drop 8 bl)"
    unfolding sack_blocks_of_take [symmetric] bl_def [symmetric] by (rule b(2))
  then have "option_meaning 5 payload = Some (SackBlock b # iter_pending ?it)"
    using p by (simp add: option_meaning_def iter_pending_def)
  ultimately show ?thesis using wf lbl by (simp add: long_option_ok_def iter_wf_def flip: payload_def)
next
  case False
  then have "option_meaning 5 (drop 2 opt) = None" by (auto simp: option_meaning_def)
  moreover have "\<not> is_valid_sack_option_len (length opt)"
    using False by (auto simp: is_valid_sack_option_len_def)
  ultimately show ?thesis by (intro long_option_bad) (simp_all add: next_long_option_def)
qed

lemma long_option_timestamp:
  assumes "2 \<le> length opt" "length (toi_sack_blocks it) \<le> toi_sack_offset it" "iter_wf it"
  shows "long_option_ok it 8 opt"
proof (cases "length opt = 10")
  case True
  then obtain n l a0 a1 a2 a3 b0 b1 b2 b3 where "opt = [n, l, a0, a1, a2, a3, b0, b1, b2, b3]"
    by (auto simp: length_Suc_conv numeral_eq_Suc)
  then show ?thesis
    using assms by (intro long_option_simple) (simp_all add: next_long_option_def option_meaning_def slice_def)
next
  case False
  then have "option_meaning 8 (drop 2 opt) = None" using assms(1) by (simp add: option_meaning_malformed)
  then show ?thesis using False by (intro long_option_bad) (simp_all add: next_long_option_def)
qed

lemma long_option_mss:
  assumes "2 \<le> length opt" "length (toi_sack_blocks it) \<le> toi_sack_offset it" "iter_wf it"
  shows "long_option_ok it 2 opt"
proof (cases "length opt = 4")
  case True
  then obtain n l a b where "opt = [n, l, a, b]" by (auto simp: length_Suc_conv numeral_eq_Suc)
  then show ?thesis
    using assms by (intro long_option_simple) (simp_all add: next_long_option_def option_meaning_def slice_def)
next
  case False
  then have "option_meaning 2 (drop 2 opt) = None" using assms(1) by (simp add: option_meaning_malformed)
  then show ?thesis using False by (intro long_option_bad) (simp_all add: next_long_option_def)
qed

lemma long_option_window_scale:
  assumes "2 \<le> length opt" "length (toi_sack_blocks it) \<le> toi_sack_offset it" "iter_wf it"
  shows "long_option_ok it 3 opt"
proof (cases "length opt = 3")
  case True
  then obtain n l a where "opt = [n, l, a]" by (auto simp: length_Suc_conv numeral_eq_Suc)
  then show ?thesis
    using assms by (intro long_option_simple) (simp_all add: next_long_option_def option_meaning_def)
next
  case False
  then have "option_meaning 3 (drop 2 opt) = None" using assms(1) by (simp add: option_meaning_malformed)
  then show ?thesis using False by (intro long_option_bad) (simp_all add: next_long_option_def)
qed

lemma long_option_sack_permitted:
  assumes "2 \<le> length opt" "length (toi_sack_blocks it) \<le> toi_sack_offset it" "iter_wf it"
  shows "long_option_ok it 4 opt"
proof (cases "length opt = 2")
  case True
  then show ?thesis
    using assms by (intro long_option_simple) (simp_all add: next_long_option_def option_meaning_def)
next
  case False
  then have "length (drop 2 opt) \<noteq> 0" using assms(1) by simp
  then have "option_meaning 4 (drop 2 opt) = None"
    by (auto simp: option_meaning_def split: list.splits)
  then show ?thesis using False by (intro long_option_bad) (simp_all add: next_long_option_def)
qed

lemma long_option_fast_open:
  assumes "2 \<le> length opt" "length (toi_sack_blocks it) \<le> toi_sack_offset it" "iter_wf it"
  shows "long_option_ok it 34 opt"
proof (cases "is_valid_fast_open_option_len (length opt)")
  case True
  then have "option_meaning 34 (drop 2 opt) = Some [FastOpenCookie (drop 2 opt)]"
    using assms(1) by (auto simp: option_meaning_def is_valid_fast_open_option_len_def)
  then show ?thesis
    using assms True by (intro long_option_simple) (simp_all add: next_long_option_def slice_from_2)
next
  case False
  then have "option_meaning 34 (drop 2 opt) = None"
    using assms(1) by (auto simp: option_meaning_def is_valid_fast_open_option_len_def)
  then show ?thesis using False by (intro long_option_bad) (simp_all add: next_long_option_def)
qed

lemma long_option_any:
  assumes "2 \<le> length opt" "length (toi_sack_blocks it) \<le> toi_sack_offset it" "iter_wf it"
  shows "long_option_ok it number opt"
proof -
  consider "number = 2" | "number = 3" | "number = 4" | "number = 5" | "number = 8" | "number = 34"
    | "number = 172 \<or> number = 174" | "number \<notin> {2, 3, 4, 5, 8, 34, 172, 174}" by blast
  then show ?thesis
  proof cases
    case 7
    then show ?thesis
      using assms(2,3)
      by (elim disjE; intro long_option_simple [where o' = AccurateEcn];
          simp add: next_long_option_def option_meaning_def)
  next
    case 8
    then show ?thesis
      using assms
      by (intro long_option_simple [where o' = "Unknown number (drop 2 opt)"])
         (simp_all add: next_long_option_def option_meaning_def slice_from_2)
  qed (use assms long_option_mss long_option_window_scale long_option_sack_permitted long_option_sack
      long_option_timestamp long_option_fast_open in simp_all)
qed

lemma parse_options_long:
  assumes "bs = number # len # rest" "number \<noteq> 0" "number \<noteq> 1" "2 \<le> unat len" "unat len \<le> length bs"
  shows "parse_options bs =
     (case option_meaning number (drop 2 (take (unat len) bs)) of
        None \<Rightarrow> [Inl SegmentInvalid]
      | Some opts \<Rightarrow> map Inr opts @ parse_options (drop (unat len) bs))"
  using assms by (subst parse_options.simps) (auto split: option.splits)

text \<open>One call of the iterator takes one item off the items it stands for.\<close>

definition iter_step_ok :: "tcp_option_iter \<Rightarrow> bool" where
  "iter_step_ok it \<longleftrightarrow>
     (case option_iter_next it of
        None \<Rightarrow> False
      | Some (None, _) \<Rightarrow> iter_items it = []
      | Some (Some item, it') \<Rightarrow> iter_items it = item # iter_items it' \<and> iter_wf it')"

lemma iter_step_pending:
  assumes wf: "iter_wf it" and pend: "toi_sack_offset it < length (toi_sack_blocks it)"
  shows "iter_step_ok it"
proof -
  let ?o = "toi_sack_offset it" and ?s = "toi_sack_blocks it"
  have l: "?o + 8 \<le> length ?s" using pend wf
    unfolding iter_wf_def by presburger
  have sl: "slice ?s ?o (?o + 8) = Some (take 8 (drop ?o ?s))" using l by (simp add: slice_def)
  obtain b where b: "read_sack_block (take 8 (drop ?o ?s)) = Some b"
      "sack_blocks_of (drop ?o ?s) = b # sack_blocks_of (drop (?o + 8) ?s)"
    using read_sack_block_eq [of "take 8 (drop ?o ?s)"] sack_blocks_of_unfold [of "drop ?o ?s"] l
    by (simp add: add.commute)
  have "option_iter_next it = Some (Some (Inr (SackBlock b)), it\<lparr>toi_sack_offset := ?o + 8\<rparr>)"
    using pend sl b(1) by (simp add: option_iter_next_def)
  then show ?thesis using b(2) wf
    by (auto simp: iter_step_ok_def iter_items_def iter_pending_def iter_wf_def)
qed

lemma iter_step_long:
  assumes wf: "iter_wf it" and pend: "length (toi_sack_blocks it) \<le> toi_sack_offset it"
    and off: "toi_offset it < length (toi_options it)" and fin: "\<not> toi_finished it"
    and number: "toi_options it ! toi_offset it \<noteq> 0" "toi_options it ! toi_offset it \<noteq> 1"
    and len: "toi_offset it + 1 < length (toi_options it)"
      "2 \<le> unat (toi_options it ! (toi_offset it + 1))"
      "unat (toi_options it ! (toi_offset it + 1)) \<le> length (toi_options it) - toi_offset it"
  shows "iter_step_ok it"
proof -
  let ?n = "toi_options it ! toi_offset it" and ?l = "toi_options it ! (toi_offset it + 1)"
  let ?bs = "drop (toi_offset it) (toi_options it)"
  let ?it = "it\<lparr>toi_offset := toi_offset it + unat ?l\<rparr>"
  have bs: "?bs = ?n # ?l # drop (toi_offset it + 2) (toi_options it)"
    using len(1) by (metis Cons_nth_drop_Suc Suc_eq_plus1 add_2_eq_Suc' add_Suc_right off)
  have opt: "slice (toi_options it) (toi_offset it) (toi_offset it + unat ?l) = Some (take (unat ?l) ?bs)"
    using len by (simp add: slice_def)
  have run: "option_iter_next it = next_long_option ?it ?n (take (unat ?l) ?bs)"
    using pend off fin number len opt by (simp add: option_iter_next_def Let_def)
  have items: "iter_items it = parse_options ?bs"
    using pend fin by (simp add: iter_items_def iter_pending_def)
  have parse: "parse_options ?bs =
      (case option_meaning ?n (drop 2 (take (unat ?l) ?bs)) of
         None \<Rightarrow> [Inl SegmentInvalid]
       | Some opts \<Rightarrow> map Inr opts @ parse_options (drop (unat ?l) ?bs))"
    using len by (intro parse_options_long [OF bs number]) simp_all
  have "long_option_ok ?it ?n (take (unat ?l) ?bs)"
    using wf pend len by (intro long_option_any) (simp_all add: iter_wf_def)
  then show ?thesis
    using run items parse wf fin len(3) off
    by (auto simp: iter_step_ok_def long_option_ok_def stop_with_error_def iter_items_def iter_wf_def
        iter_pending_def add.commute split: option.splits)
qed

lemma iter_step:
  assumes "iter_wf it"
  shows "iter_step_ok it"
proof -
  let ?bs = "drop (toi_offset it) (toi_options it)"
  consider (pend) "toi_sack_offset it < length (toi_sack_blocks it)"
    | (stop) "length (toi_sack_blocks it) \<le> toi_sack_offset it"
        "toi_finished it \<or> length (toi_options it) \<le> toi_offset it"
    | (go) "length (toi_sack_blocks it) \<le> toi_sack_offset it" "\<not> toi_finished it"
        "toi_offset it < length (toi_options it)"
    by linarith
  then show ?thesis
  proof cases
    case pend
    then show ?thesis by (rule iter_step_pending [OF assms])
  next
    case stop
    then show ?thesis by (auto simp: iter_step_ok_def option_iter_next_def iter_items_def iter_pending_def)
  next
    case go
    define n where "n = toi_options it ! toi_offset it"
    have bs: "?bs = n # drop (toi_offset it + 1) (toi_options it)"
      using go(3) by (simp add: n_def Cons_nth_drop_Suc)
    have items: "iter_items it = parse_options ?bs"
      using go(1,2) by (simp add: iter_items_def iter_pending_def)
    consider "n = 0" | "n = 1" | (short) "n \<noteq> 0" "n \<noteq> 1" "length (toi_options it) \<le> toi_offset it + 1"
      | (bad) "n \<noteq> 0" "n \<noteq> 1" "toi_offset it + 1 < length (toi_options it)"
          "unat (toi_options it ! (toi_offset it + 1)) < 2 \<or>
           length (toi_options it) - toi_offset it < unat (toi_options it ! (toi_offset it + 1))"
      | (long) "n \<noteq> 0" "n \<noteq> 1" "toi_offset it + 1 < length (toi_options it)"
          "2 \<le> unat (toi_options it ! (toi_offset it + 1))"
          "unat (toi_options it ! (toi_offset it + 1)) \<le> length (toi_options it) - toi_offset it"
      by linarith
    then show ?thesis
    proof cases
      case 1
      then show ?thesis using go items bs assms
        by (auto simp: iter_step_ok_def option_iter_next_def iter_items_def iter_pending_def iter_wf_def n_def)
    next
      case 2
      then show ?thesis using go items bs assms
        by (auto simp: iter_step_ok_def option_iter_next_def iter_items_def iter_pending_def iter_wf_def n_def)
    next
      case short
      then have "?bs = [n]" using bs by simp
      then have "parse_options ?bs = [Inl SegmentInvalid]"
        using short by (simp add: parse_options.simps)
      then show ?thesis using go short items assms
        by (auto simp: iter_step_ok_def option_iter_next_def iter_items_def iter_pending_def iter_wf_def n_def
            stop_with_error_def)
    next
      case bad
      have "drop (toi_offset it + 1) (toi_options it) =
          toi_options it ! (toi_offset it + 1) # drop (toi_offset it + 2) (toi_options it)"
        using bad(3) by (metis Cons_nth_drop_Suc Suc_eq_plus1 add_2_eq_Suc' add_Suc_right)
      then have "parse_options ?bs = [Inl SegmentInvalid]"
        using bad bs by (subst parse_options.simps) auto
      then show ?thesis using go bad items assms
        by (auto simp: iter_step_ok_def option_iter_next_def iter_items_def iter_pending_def iter_wf_def n_def
            stop_with_error_def Let_def)
    next
      case long
      then show ?thesis using go assms by (intro iter_step_long) (simp_all add: n_def)
    qed
  qed
qed

lemma iter_collect_items: "iter_wf it \<Longrightarrow> option_iter_collect it = Some (iter_items it)"
proof (induction "iter_items it" arbitrary: it)
  case Nil
  then show ?case using iter_step [of it]
    by (subst option_iter_collect.simps) (auto simp: iter_step_ok_def split: option.splits)
next
  case (Cons item items)
  obtain it' where it': "option_iter_next it = Some (Some item, it')" "items = iter_items it'" "iter_wf it'"
    using iter_step [OF Cons.prems] Cons.hyps(2) [symmetric]
    by (auto simp: iter_step_ok_def split: option.splits)
  show ?case using Cons.hyps(1) [OF it'(2,3)] it' Cons.hyps(2)
    by (subst option_iter_collect.simps) simp
qed

lemma iter_new: "iter_wf (option_iter_new bs)" "iter_items (option_iter_new bs) = parse_options bs"
  by (simp_all add: iter_wf_def iter_items_def iter_pending_def option_iter_new_def)

text \<open>A loop over the options is a loop over the parsed items.\<close>

fun fold_items ::
  "('s \<Rightarrow> tcp_option \<Rightarrow> tcp_error + 's \<times> bool) \<Rightarrow> (tcp_error + tcp_option) list \<Rightarrow> 's \<Rightarrow> tcp_error + 's" where
  "fold_items body [] s = Inr s"
| "fold_items body (Inl e # items) s = Inl e"
| "fold_items body (Inr opt # items) s =
     (case body s opt of
        Inl e \<Rightarrow> Inl e
      | Inr (s', go) \<Rightarrow> if go then fold_items body items s' else Inr s')"

lemma for_options_items: "iter_wf it \<Longrightarrow> for_options body it s = Some (fold_items body (iter_items it) s)"
proof (induction "iter_items it" arbitrary: it s)
  case Nil
  then show ?case using iter_step [of it]
    by (subst for_options.simps) (auto simp: iter_step_ok_def split: option.splits)
next
  case (Cons item items)
  obtain it' where it': "option_iter_next it = Some (Some item, it')" "items = iter_items it'" "iter_wf it'"
    using iter_step [OF Cons.prems] Cons.hyps(2) [symmetric]
    by (auto simp: iter_step_ok_def split: option.splits)
  show ?case using Cons.hyps(1) [OF it'(2,3)] it'
    unfolding Cons.hyps(2) [symmetric]
    by (subst for_options.simps) (auto split: sum.splits)
qed

lemma for_options_new: "for_options body (option_iter_new bs) s = Some (fold_items body (parse_options bs) s)"
  using for_options_items [OF iter_new(1)] iter_new(2) by metis


subsection \<open>The option writer\<close>

definition cookie_bytes :: "tcp_segment_header \<Rightarrow> u8 list" where
  "cookie_bytes h = (case sh_fast_open_cookie h of None \<Rightarrow> [] | Some k \<Rightarrow> cookie_as_slice k)"

definition ts_of :: "tcp_segment_header \<Rightarrow> tcp_timestamp_option" where
  "ts_of h = (case sh_timestamp h of None \<Rightarrow> \<lparr>tsval = 0, tsecr = 0\<rparr> | Some ts \<Rightarrow> ts)"

definition ts_bytes :: "tcp_segment_header \<Rightarrow> u8 list" where
  "ts_bytes h = (if cap_timestamps (sh_capabilities h)
     then [1, 1, 8, 10] @ u32_be_bytes (tsval (ts_of h)) @ u32_be_bytes (tsecr (ts_of h)) else [])"

definition syn_option_bytes :: "tcp_segment_header \<Rightarrow> u8 list" where
  "syn_option_bytes h =
     (let c = sh_capabilities h in
      (case max_segment_size c of Some mss \<Rightarrow> [2, 4] @ u16_be_bytes mss | None \<Rightarrow> []) @
      (case window_scale c of Some ws \<Rightarrow> [1, 3, 3, min ws 14] | None \<Rightarrow> []) @
      (if cap_sack c then [1, 1, 4, 2] else []) @
      ts_bytes h @
      (if cap_fast_open c then [34, of_nat (2 + length (cookie_bytes h))] @ cookie_bytes h else []) @
      (if cap_accurate_ecn c then [1, 172, 2] else []))"

definition sack_bytes :: "tcp_sack_block list \<Rightarrow> u8 list" where
  "sack_bytes blocks = concat (map (\<lambda>b. u32_be_bytes (left_edge b) @ u32_be_bytes (right_edge b)) blocks)"

definition ack_option_bytes :: "tcp_segment_header \<Rightarrow> tcp_sack_block list option \<Rightarrow> u8 list" where
  "ack_option_bytes h sack_blocks =
     ts_bytes h @
     (case sack_blocks of
        None \<Rightarrow> []
      | Some blocks \<Rightarrow>
          (if blocks = [] then []
           else [1, 1, 5, of_nat (2 + min (length blocks) 4 * 8)] @ sack_bytes (take 4 blocks)))"

definition option_bytes :: "tcp_segment_header \<Rightarrow> tcp_sack_block list option \<Rightarrow> u8 list" where
  "option_bytes h sack_blocks =
     (if flags_contains (sh_flags h) TCP_SYN then syn_option_bytes h
      else if flags_contains (sh_flags h) TCP_ACK then ack_option_bytes h sack_blocks else [])"

text \<open>The writer's state after the bytes \<open>acc\<close>: they fill the buffer from the start.\<close>

definition written :: "u8 list \<Rightarrow> u8 list \<Rightarrow> u8 list \<times> usize" where
  "written out acc = (acc @ drop (length acc) out, length acc)"

lemma put_bytes_written:
  "length (acc @ bs) \<le> length out \<Longrightarrow> put_bytes bs (written out acc) = Some (written out (acc @ bs))"
  by (simp add: put_bytes_def written_def write_bytes_append add.commute)

lemma sack_bytes_simps [simp]:
  "sack_bytes [] = []" "sack_bytes (b # bs) = (u32_be_bytes (left_edge b) @ u32_be_bytes (right_edge b)) @ sack_bytes bs"
  "length (sack_bytes bs) = 8 * length bs"
  by (simp_all add: sack_bytes_def) (induction bs, simp_all)

lemma write_sack_blocks_written:
  "length (acc @ sack_bytes bs) \<le> length out \<Longrightarrow>
     write_sack_blocks bs (written out acc) = Some (written out (acc @ sack_bytes bs))"
proof (induction bs arbitrary: acc)
  case (Cons b bs)
  then show ?case
    using put_bytes_written [of acc "u32_be_bytes (left_edge b) @ u32_be_bytes (right_edge b)" out]
      Cons.IH [of "acc @ u32_be_bytes (left_edge b) @ u32_be_bytes (right_edge b)"]
    by simp
qed simp

lemma write_ts_written:
  "cap_timestamps (sh_capabilities h) \<Longrightarrow> length (acc @ ts_bytes h) \<le> length out \<Longrightarrow>
     write_tcp_timestamp_option (sh_timestamp h) (written out acc) = Some (written out (acc @ ts_bytes h))"
  using put_bytes_written [of acc "ts_bytes h" out]
  by (simp add: write_tcp_timestamp_option_def ts_bytes_def ts_of_def Let_def)

lemma put_if_written:
  "length (acc @ (if b then bs else [])) \<le> length out \<Longrightarrow>
     (if b then put_bytes bs (written out acc) else Some (written out acc)) =
     Some (written out (acc @ (if b then bs else [])))"
  by (cases b) (simp_all add: put_bytes_written)

lemma write_ts_if_written:
  "length (acc @ ts_bytes h) \<le> length out \<Longrightarrow>
     (if cap_timestamps (sh_capabilities h) then write_tcp_timestamp_option (sh_timestamp h) (written out acc)
      else Some (written out acc)) = Some (written out (acc @ ts_bytes h))"
  by (cases "cap_timestamps (sh_capabilities h)") (simp_all add: write_ts_written ts_bytes_def)

lemma option_bytes_written:
  assumes "length (option_bytes h sack_blocks) \<le> length out"
  shows "(if flags_contains (sh_flags h) TCP_SYN then write_syn_options h (written out [])
          else if flags_contains (sh_flags h) TCP_ACK then write_ack_options h sack_blocks (written out [])
          else Some (written out [])) = Some (written out (option_bytes h sack_blocks))"
proof (cases "flags_contains (sh_flags h) TCP_SYN")
  case True
  then have "length (syn_option_bytes h) \<le> length out" using assms by (simp add: option_bytes_def)
  then have "write_syn_options h (written out []) = Some (written out (syn_option_bytes h))"
    unfolding write_syn_options_def syn_option_bytes_def Let_def cookie_bytes_def [symmetric]
    by (cases "max_segment_size (sh_capabilities h)"; cases "window_scale (sh_capabilities h)")
       (simp_all add: put_bytes_written put_if_written write_ts_if_written split del: if_split)
  then show ?thesis using True by (simp add: option_bytes_def)
next
  case False
  show ?thesis
  proof (cases "flags_contains (sh_flags h) TCP_ACK")
    case True
    then have l: "length (ack_option_bytes h sack_blocks) \<le> length out"
      using assms False by (simp add: option_bytes_def)
    have m: "take (min (length bs) 4) bs = take 4 bs" for bs :: "tcp_sack_block list"
      by (cases "length bs \<le> 4") (simp_all add: min_def)
    have "write_ack_options h sack_blocks (written out []) = Some (written out (ack_option_bytes h sack_blocks))"
      using l unfolding write_ack_options_def ack_option_bytes_def Let_def
      by (cases sack_blocks)
         (auto simp: put_bytes_written write_ts_written ts_bytes_def write_sack_blocks_written m)
    then show ?thesis using True False by (simp add: option_bytes_def)
  qed (simp add: False option_bytes_def)
qed

lemma write_tcp_options_eq:
  assumes "length (option_bytes h sack_blocks) \<le> length out"
  shows "write_tcp_options out h sack_blocks =
    Some (option_bytes h sack_blocks @ replicate (length out - length (option_bytes h sack_blocks)) 0)"
proof -
  have start: "(out, 0) = written out []" by (simp add: written_def)
  show ?thesis
    unfolding write_tcp_options_def start option_bytes_written [OF assms]
    using assms by (simp add: written_def)
qed

definition header_wf :: "tcp_segment_header \<Rightarrow> bool" where
  "header_wf h \<longleftrightarrow> (case sh_fast_open_cookie h of None \<Rightarrow> True | Some k \<Rightarrow> cookie_wf k) \<and> drop_bit 9 (sh_flags h) = 0"

lemma cookie_bytes_length:
  assumes "header_wf h"
  shows "length (cookie_bytes h) = (case sh_fast_open_cookie h of None \<Rightarrow> 0 | Some k \<Rightarrow> cookie_len k)"
    and "cookie_bytes h = [] \<or> cookie_is_valid_len (length (cookie_bytes h))"
  using assms
  by (auto simp: header_wf_def cookie_bytes_def cookie_wf_def cookie_as_slice_def cookie_is_valid_len_def
      min_def split: option.splits)

lemma tcp_options_len_eq:
  assumes "header_wf h"
  shows "tcp_options_len h sack_blocks = round_tcp_options_len (length (option_bytes h sack_blocks))"
proof -
  have "length (syn_option_bytes h) =
      (if max_segment_size (sh_capabilities h) \<noteq> None then 4 else 0) +
      (if window_scale (sh_capabilities h) \<noteq> None then 4 else 0) +
      (if cap_sack (sh_capabilities h) then 4 else 0) + (if cap_timestamps (sh_capabilities h) then 12 else 0) +
      (if cap_fast_open (sh_capabilities h)
       then 2 + (case sh_fast_open_cookie h of None \<Rightarrow> 0 | Some k \<Rightarrow> cookie_len k) else 0) +
      (if cap_accurate_ecn (sh_capabilities h) then 3 else 0)"
    unfolding cookie_bytes_length(1) [OF assms, symmetric]
    by (simp add: syn_option_bytes_def ts_bytes_def Let_def split: option.split)
  then have syn: "flags_contains (sh_flags h) TCP_SYN \<Longrightarrow> ?thesis"
    by (simp only: tcp_options_len_def option_bytes_def Let_def if_True)
  have "length (ack_option_bytes h sack_blocks) =
      (if cap_timestamps (sh_capabilities h) then 12 else 0) +
      (case sack_blocks of
         None \<Rightarrow> 0
       | Some blocks \<Rightarrow> if min (length blocks) 4 \<noteq> 0 then 4 + min (length blocks) 4 * 8 else 0)"
    by (simp add: ack_option_bytes_def ts_bytes_def min.commute split: option.split)
  then have ack: "\<not> flags_contains (sh_flags h) TCP_SYN \<Longrightarrow> flags_contains (sh_flags h) TCP_ACK \<Longrightarrow> ?thesis"
    by (cases sack_blocks) (simp_all add: tcp_options_len_def option_bytes_def Let_def)
  have none: "round_tcp_options_len 0 = 0" by (simp add: round_tcp_options_len_def)
  show ?thesis using syn ack none
    by (cases "flags_contains (sh_flags h) TCP_SYN"; cases "flags_contains (sh_flags h) TCP_ACK")
       (simp_all add: tcp_options_len_def option_bytes_def)
qed

lemma round_tcp_options_len_bounds:
  "n \<le> round_tcp_options_len n" "round_tcp_options_len n < n + 4" "round_tcp_options_len n mod 4 = 0"
  unfolding round_tcp_options_len_def by simp_all


subsection \<open>Flags and data offset\<close>

lemma and_exp_neq_0: "n < LENGTH('a::len) \<Longrightarrow> (w :: 'a word) AND 2 ^ n \<noteq> 0 \<longleftrightarrow> bit w n"
  by (simp add: and_exp_eq_0_iff_not_bit)

lemma flags_contains_exp: "n < 16 \<Longrightarrow> flags_contains w (2 ^ n) \<longleftrightarrow> bit w n"
  by (auto simp: flags_contains_def bit_eq_iff [where 'a = u16] bit_simps)

lemma bit_flags_set: "n < 16 \<Longrightarrow> k < 16 \<Longrightarrow> bit (flags_set w (2 ^ n) v) k = (if k = n then v else bit w k)"
  by (auto simp: flags_set_def bit_simps)

lemma u8_mask_bit:
  "(w :: u8) AND 0x01 \<noteq> 0 \<longleftrightarrow> bit w 0" "w AND 0x02 \<noteq> 0 \<longleftrightarrow> bit w 1" "w AND 0x04 \<noteq> 0 \<longleftrightarrow> bit w 2"
  "w AND 0x08 \<noteq> 0 \<longleftrightarrow> bit w 3" "w AND 0x10 \<noteq> 0 \<longleftrightarrow> bit w 4" "w AND 0x20 \<noteq> 0 \<longleftrightarrow> bit w 5"
  "w AND 0x40 \<noteq> 0 \<longleftrightarrow> bit w 6" "w AND 0x80 \<noteq> 0 \<longleftrightarrow> bit w 7"
  using and_exp_neq_0 [of 0 w] and_exp_neq_0 [of 1 w] and_exp_neq_0 [of 2 w] and_exp_neq_0 [of 3 w]
    and_exp_neq_0 [of 4 w] and_exp_neq_0 [of 5 w] and_exp_neq_0 [of 6 w] and_exp_neq_0 [of 7 w]
  by simp_all

lemma tcp_flag_bits:
  assumes "k < 16"
  shows "bit (flags_set w TCP_FIN v) k = (if k = 0 then v else bit w k)"
    "bit (flags_set w TCP_SYN v) k = (if k = 1 then v else bit w k)"
    "bit (flags_set w TCP_RST v) k = (if k = 2 then v else bit w k)"
    "bit (flags_set w TCP_PSH v) k = (if k = 3 then v else bit w k)"
    "bit (flags_set w TCP_ACK v) k = (if k = 4 then v else bit w k)"
    "bit (flags_set w TCP_URG v) k = (if k = 5 then v else bit w k)"
    "bit (flags_set w TCP_ECE v) k = (if k = 6 then v else bit w k)"
    "bit (flags_set w TCP_CWR v) k = (if k = 7 then v else bit w k)"
    "bit (flags_set w TCP_NS v) k = (if k = 8 then v else bit w k)"
  using bit_flags_set [OF _ assms, of 0 w v] bit_flags_set [OF _ assms, of 1 w v] bit_flags_set [OF _ assms, of 2 w v]
    bit_flags_set [OF _ assms, of 3 w v] bit_flags_set [OF _ assms, of 4 w v] bit_flags_set [OF _ assms, of 5 w v]
    bit_flags_set [OF _ assms, of 6 w v] bit_flags_set [OF _ assms, of 7 w v] bit_flags_set [OF _ assms, of 8 w v]
  by (simp_all add: tcp_flag_defs)

lemma bit_hdr_flags:
  assumes "k < 16"
  shows "bit (hdr_flags hdr) k =
    (if k < 8 then bit (th_data_offset_reserved_flags hdr ! 1) k
     else if k = 8 then bit (th_data_offset_reserved_flags hdr ! 0) 0 else False)"
proof -
  have k: "k < 8 \<longleftrightarrow> k = 0 \<or> k = 1 \<or> k = 2 \<or> k = 3 \<or> k = 4 \<or> k = 5 \<or> k = 6 \<or> k = 7" by linarith
  show ?thesis
    unfolding hdr_flags_def Let_def u8_mask_bit tcp_flag_bits [OF assms] k by auto
qed

lemma bit_data_offset_flags:
  assumes "k < 16"
  shows "bit (tcp_data_offset_flags len flags) k =
    (if k < 8 then bit flags k else if k = 8 then bit flags 8
     else if k < 12 then False else bit (of_nat (len div 4) :: u8) (k - 12))"
proof -
  have ns: "flags_contains flags TCP_NS \<longleftrightarrow> bit flags 8"
    using flags_contains_exp [of 8 flags] by (simp add: tcp_flag_defs)
  have m: "(0xff :: u16) = mask 8" by (simp add: mask_eq_exp_minus_1)
  have "bit (2 ^ 8 :: u16) k \<longleftrightarrow> k = 8" using assms by (auto simp only: bit_simps) simp_all
  then have b: "bit (256 :: u16) k \<longleftrightarrow> k = 8" by simp
  show ?thesis
    unfolding tcp_data_offset_flags_def ns m Let_def
    using assms b by (auto simp: bit_simps)
qed

lemma hdr_flags_set_header_fields:
  assumes "drop_bit 9 (sh_flags h) = 0"
  shows "hdr_flags (set_header_fields h len) = sh_flags h"
proof (rule bit_word_eqI)
  fix k assume k: "k < LENGTH(16)"
  have "\<not> bit (sh_flags h) k" if "k > 8"
  proof -
    have "bit (drop_bit 9 (sh_flags h)) (k - 9) = bit (sh_flags h) k" using that by (simp add: bit_simps)
    then show ?thesis using assms by simp
  qed
  then show "bit (hdr_flags (set_header_fields h len)) k = bit (sh_flags h) k"
    using k by (auto simp: bit_hdr_flags set_header_fields_def u16_be_bytes_def bit_data_offset_flags bit_simps)
qed

lemma hdr_len_set_header_fields:
  assumes "len \<le> 60" "len mod 4 = 0"
  shows "hdr_header_len (set_header_fields h len) = len"
proof -
  have "drop_bit 4 (th_data_offset_reserved_flags (set_header_fields h len) ! 0) = (of_nat (len div 4) :: u8)"
  proof (rule bit_word_eqI)
    fix k assume k: "k < LENGTH(8)"
    have "\<not> bit (of_nat (len div 4) :: u8) k" if "k \<ge> 4"
    proof -
      have "len div 4 < 2 ^ 4" using assms(1) by simp
      also have "\<dots> \<le> 2 ^ k" using that by (rule power_increasing) simp
      finally have "\<not> bit (len div 4) k" by (simp add: bit_iff_odd)
      then show ?thesis by (simp add: bit_simps)
    qed
    then show "bit (drop_bit 4 (th_data_offset_reserved_flags (set_header_fields h len) ! 0)) k =
        bit (of_nat (len div 4) :: u8) k"
      using k by (cases "k < 4") (auto simp: set_header_fields_def u16_be_bytes_def bit_data_offset_flags bit_simps)
  qed
  moreover have "unat (of_nat (len div 4) :: u8) = len div 4"
    using assms(1) by (simp add: unat_of_nat take_bit_eq_mod)
  ultimately show ?thesis using assms(2) by (auto simp: hdr_header_len_def)
qed

subsection \<open>Parsing what was written\<close>

lemma parse_zeros: "parse_options (replicate n 0) = (if n = 0 then [] else [Inr OptEnd])"
  by (cases n) simp_all

lemma parse_option:
  assumes "number \<noteq> 0" "number \<noteq> 1" "length payload \<le> 253" "option_meaning number payload = Some opts"
  shows "parse_options (number # of_nat (2 + length payload) # payload @ rest) = map Inr opts @ parse_options rest"
proof -
  have "unat (of_nat n :: u8) = n" if "n < 256" for n using that by (simp add: unat_of_nat take_bit_eq_mod)
  from this [of "2 + length payload"] have "unat (of_nat (2 + length payload) :: u8) = 2 + length payload"
    using assms(3) by simp
  then show ?thesis using assms by (subst parse_options.simps) (simp del: of_nat_add)
qed

definition ts_items :: "tcp_segment_header \<Rightarrow> tcp_option list" where
  "ts_items h = (if cap_timestamps (sh_capabilities h) then [NoOperation, NoOperation, Timestamp (ts_of h)] else [])"

definition syn_items :: "tcp_segment_header \<Rightarrow> tcp_option list" where
  "syn_items h =
     (let c = sh_capabilities h in
      (case max_segment_size c of Some mss \<Rightarrow> [MaximumSegmentSize mss] | None \<Rightarrow> []) @
      (case window_scale c of Some ws \<Rightarrow> [NoOperation, WindowScale (min ws 14)] | None \<Rightarrow> []) @
      (if cap_sack c then [NoOperation, NoOperation, SackPermitted] else []) @
      ts_items h @
      (if cap_fast_open c then [FastOpenCookie (cookie_bytes h)] else []) @
      (if cap_accurate_ecn c then [NoOperation, AccurateEcn] else []))"

definition ack_items :: "tcp_segment_header \<Rightarrow> tcp_sack_block list option \<Rightarrow> tcp_option list" where
  "ack_items h sack_blocks =
     ts_items h @
     (case sack_blocks of
        None \<Rightarrow> []
      | Some blocks \<Rightarrow> if blocks = [] then [] else [NoOperation, NoOperation] @ map SackBlock (take 4 blocks))"

text \<open>The options a header carries, in the order of the wire.\<close>

definition option_items :: "tcp_segment_header \<Rightarrow> tcp_sack_block list option \<Rightarrow> tcp_option list" where
  "option_items h sack_blocks =
     (if flags_contains (sh_flags h) TCP_SYN then syn_items h
      else if flags_contains (sh_flags h) TCP_ACK then ack_items h sack_blocks else [])"

lemma parse_ts: "parse_options (ts_bytes h @ rest) = map Inr (ts_items h) @ parse_options rest"
  using parse_option [of 8 "u32_be_bytes (tsval (ts_of h)) @ u32_be_bytes (tsecr (ts_of h))" "[Timestamp (ts_of h)]" rest]
  by (simp add: ts_bytes_def ts_items_def option_meaning_def u32_be_bytes_def)

lemma sack_blocks_of_bytes [simp]: "sack_blocks_of (sack_bytes bs) = bs"
  by (induction bs) (simp_all add: u32_be_bytes_def u32_be_roundtrip [unfolded u32_be_bytes_def])

lemma parse_sack:
  assumes "blocks \<noteq> []"
  shows "parse_options (5 # (2 + of_nat (min (length blocks) 4) * 8) # sack_bytes (take 4 blocks) @ rest) =
    map Inr (map SackBlock (take 4 blocks)) @ parse_options rest"
proof -
  have "length (sack_bytes (take 4 blocks)) \<noteq> 0" using assms by (simp add: min_def)
  then have "sack_bytes (take 4 blocks) \<noteq> []" by force
  then have "option_meaning 5 (sack_bytes (take 4 blocks)) = Some (map SackBlock (take 4 blocks))"
    by (simp add: option_meaning_def)
  then show ?thesis
    using parse_option [of 5 "sack_bytes (take 4 blocks)" "map SackBlock (take 4 blocks)" rest]
    by (simp add: mult.commute min.commute)
qed

lemma parse_ack: "parse_options (ack_option_bytes h sack_blocks @ rest) =
    map Inr (ack_items h sack_blocks) @ parse_options rest"
  by (cases sack_blocks) (simp_all add: ack_option_bytes_def ack_items_def parse_ts parse_sack)

lemma parse_mss: "parse_options (2 # 4 # u16_be_bytes mss @ rest) = Inr (MaximumSegmentSize mss) # parse_options rest"
  using parse_option [of 2 "u16_be_bytes mss" "[MaximumSegmentSize mss]" rest]
  by (simp add: option_meaning_def u16_be_bytes_def)

lemma parse_short_options:
  "parse_options (3 # 3 # ws # rest) = Inr (WindowScale (min ws 14)) # parse_options rest"
  "parse_options (4 # 2 # rest) = Inr SackPermitted # parse_options rest"
  "parse_options (172 # 2 # rest) = Inr AccurateEcn # parse_options rest"
  using parse_option [of 3 "[ws]" "[WindowScale (min ws 14)]" rest]
    parse_option [of 4 "[]" "[SackPermitted]" rest] parse_option [of 172 "[]" "[AccurateEcn]" rest]
  by (simp_all add: option_meaning_def)

lemma parse_cookie:
  assumes "header_wf h"
  shows "parse_options (34 # (2 + of_nat (length (cookie_bytes h))) # cookie_bytes h @ rest) =
    Inr (FastOpenCookie (cookie_bytes h)) # parse_options rest"
  using parse_option [of 34 "cookie_bytes h" "[FastOpenCookie (cookie_bytes h)]" rest] cookie_bytes_length(2) [OF assms]
  by (auto simp: option_meaning_def cookie_is_valid_len_def)

lemma parse_syn:
  assumes "header_wf h"
  shows "parse_options (syn_option_bytes h @ rest) = map Inr (syn_items h) @ parse_options rest"
  by (cases "max_segment_size (sh_capabilities h)"; cases "window_scale (sh_capabilities h)")
     (simp_all add: syn_option_bytes_def syn_items_def Let_def parse_ts parse_mss parse_short_options
       parse_cookie [OF assms])

lemma parse_option_bytes:
  "header_wf h \<Longrightarrow>
     parse_options (option_bytes h sack_blocks @ rest) = map Inr (option_items h sack_blocks) @ parse_options rest"
  by (simp add: option_bytes_def option_items_def parse_syn parse_ack)


subsection \<open>The fixed part of the header\<close>

lemma tcp_header_bytes_prefix:
  "tcp_header_from_prefix (tcp_header_bytes (set_header_fields h len) @ rest) = Some (set_header_fields h len)"
  by (simp add: tcp_header_from_prefix_def tcp_header_bytes_def set_header_fields_def u16_be_bytes_def
      u32_be_bytes_def numeral_eq_Suc)

lemma length_set_header_fields [simp]: "length (tcp_header_bytes (set_header_fields h len)) = 20"
  by (simp add: tcp_header_bytes_def set_header_fields_def)

definition header_matches :: "tcp_header \<Rightarrow> tcp_segment_header \<Rightarrow> bool" where
  "header_matches hdr h \<longleftrightarrow>
     hdr_source_port hdr = sh_source_port h \<and> hdr_destination_port hdr = sh_destination_port h \<and>
     hdr_sequence_number hdr = sh_sequence_number h \<and>
     hdr_acknowledgment_number hdr = sh_acknowledgment_number h \<and>
     hdr_advertised_window hdr = sh_advertised_window h \<and> hdr_urgent_pointer hdr = sh_urgent_pointer h \<and>
     hdr_flags hdr = sh_flags h"

lemma header_matches_set:
  "header_wf h \<Longrightarrow> header_matches (set_header_fields h len) h"
  using hdr_flags_set_header_fields [of h len]
  by (simp add: header_matches_def header_wf_def hdr_source_port_def hdr_destination_port_def
      hdr_sequence_number_def hdr_acknowledgment_number_def hdr_advertised_window_def hdr_urgent_pointer_def
      set_header_fields_def u16_be_bytes_def u32_be_bytes_def Let_def)

lemma tcp_header_of_written:
  assumes "20 \<le> len" "len \<le> 60" "len mod 4 = 0" "len \<le> 20 + length rest"
  shows "tcp_header_of (tcp_header_bytes (set_header_fields h len) @ rest) = Inr (set_header_fields h len)"
  using assms by (simp add: tcp_header_of_def tcp_header_bytes_prefix hdr_len_set_header_fields Let_def)

lemma write_to_buffer_eq:
  assumes "header_wf h" "seg_header_len h sack_blocks \<le> 60" "seg_header_len h sack_blocks \<le> length out"
  shows "write_to_buffer h out sack_blocks =
    Some (Inr (seg_header_len h sack_blocks,
      tcp_header_bytes (set_header_fields h (seg_header_len h sack_blocks)) @
      (option_bytes h sack_blocks @
        replicate (seg_header_len h sack_blocks - 20 - length (option_bytes h sack_blocks)) 0) @
      drop (seg_header_len h sack_blocks) out))"
proof -
  let ?len = "seg_header_len h sack_blocks" and ?bs = "option_bytes h sack_blocks"
  let ?hd = "tcp_header_bytes (set_header_fields h ?len)"
  have len: "?len = 20 + round_tcp_options_len (length ?bs)"
    by (simp add: seg_header_len_def tcp_options_len_eq [OF assms(1)])
  then have m: "?len mod 4 = 0" "length ?bs \<le> ?len - 20" "20 \<le> ?len"
    using round_tcp_options_len_bounds [of "length ?bs"] by (simp_all add: mod_add_left_eq [symmetric])
  have out: "drop 20 (replicate ?len 0 @ drop ?len out) = replicate (?len - 20) 0 @ drop ?len out"
    using m(3) by simp
  have sl: "slice (?hd @ replicate (?len - 20) 0 @ drop ?len out) 20 ?len = Some (replicate (?len - 20) 0)"
    using assms(3) m(3) by (simp add: slice_def)
  have w: "write_tcp_options (replicate (?len - 20) 0) h sack_blocks =
      Some (?bs @ replicate (?len - 20 - length ?bs) 0)"
    using write_tcp_options_eq [of h sack_blocks "replicate (?len - 20) 0"] m(2) by simp
  have d: "drop ?len (?hd @ replicate (?len - 20) 0 @ drop ?len out) = drop ?len out"
    using m(3) by simp
  show ?thesis
    unfolding write_to_buffer_def Let_def out
    using assms m sl w d by simp
qed

subsection \<open>Properties\<close>

text \<open>C9. The option iterator implements the option grammar on every byte string: draining it always
  ends, never panics, and gives exactly the options (or the error) the grammar assigns, with at most
  four blocks of a SACK option and nothing after an end mark or a malformed option.\<close>

theorem tcp_option_iter_parses:
  "option_iter_collect (option_iter_new bs) = Some (parse_options bs)"
  using iter_collect_items [OF iter_new(1)] iter_new(2) by metis

text \<open>C26. Writing a header never panics: it fails, with \<open>Length\<close>, exactly when the header needs more than 60
  bytes or the output is too short, and otherwise writes the announced number of bytes and leaves
  the rest of the output as it was.\<close>

theorem write_to_buffer_total:
  assumes "header_wf h"
  shows "if seg_header_len h sack_blocks > 60 \<or> length out < seg_header_len h sack_blocks
    then write_to_buffer h out sack_blocks = Some (Inl Length)
    else \<exists>out'. write_to_buffer h out sack_blocks = Some (Inr (seg_header_len h sack_blocks, out')) \<and>
      length out' = length out \<and> drop (seg_header_len h sack_blocks) out' = drop (seg_header_len h sack_blocks) out"
proof (cases "seg_header_len h sack_blocks > 60 \<or> length out < seg_header_len h sack_blocks")
  case True
  then show ?thesis by (auto simp: write_to_buffer_def Let_def)
next
  case False
  have "20 \<le> seg_header_len h sack_blocks" "length (option_bytes h sack_blocks) \<le> seg_header_len h sack_blocks - 20"
    using round_tcp_options_len_bounds [of "length (option_bytes h sack_blocks)"]
    by (simp_all add: seg_header_len_def tcp_options_len_eq [OF assms])
  then show ?thesis using False write_to_buffer_eq [OF assms, of sack_blocks out] by simp linarith
qed

definition rst_header_example :: tcp_segment_header where
  "rst_header_example =
     \<lparr>sh_source_port = 80, sh_destination_port = 1024, sh_sequence_number = 1, sh_acknowledgment_number = 0,
      sh_flags = TCP_RST, sh_advertised_window = 0, sh_urgent_pointer = 0,
      sh_capabilities = tcp_capabilities_default, sh_timestamp = None, sh_fast_open_cookie = None\<rparr>"

theorem write_to_buffer_total_witness:
  "header_wf rst_header_example \<and> write_to_buffer rst_header_example [] None = Some (Inl Length)"
proof -
  have "header_wf rst_header_example" by code_simp
  moreover have "seg_header_len rst_header_example None = 20" by code_simp
  ultimately show ?thesis using write_to_buffer_total [of rst_header_example None "[]"] by simp
qed

end
