(* ===== verification/TcpSegment.thy ===== *)
theory TcpSegment imports TcpWire begin

text \<open>Segments and packets (\<open>tcp/src/segment.rs\<close>, \<open>TcpPacket\<close> of \<open>protocol/mod.rs\<close>, and the
  packet cursor of \<open>hammer-core/src/buffer/cursor.rs\<close>): the outgoing \<open>TcpSegment\<close> with its
  inline SACK array, and \<open>tcp_packet\<close>, which reads a received packet at the offsets a cursor
  holds. A buffer is the list of its current bytes. The property is the round trip through both.\<close>

subsection \<open>Packet cursor\<close>

record packet_cursor =
  pc_packet_len :: u32
  pc_network_header_offset :: u16
  pc_network_header_len :: u16
  pc_transport_header_offset :: u16
  pc_transport_header_len :: u16
  pc_transport_payload_offset :: u16

definition cursor_new :: packet_cursor where
  "cursor_new = \<lparr>pc_packet_len = 0, pc_network_header_offset = 0, pc_network_header_len = 0,
     pc_transport_header_offset = 0, pc_transport_header_len = 0, pc_transport_payload_offset = 0\<rparr>"

definition cursor_packet_len :: "packet_cursor \<Rightarrow> usize" where
  "cursor_packet_len c = unat (pc_packet_len c)"

definition network_header_offset :: "packet_cursor \<Rightarrow> usize" where
  "network_header_offset c = unat (pc_network_header_offset c)"

definition network_header_len :: "packet_cursor \<Rightarrow> usize" where
  "network_header_len c = unat (pc_network_header_len c)"

definition transport_header_offset :: "packet_cursor \<Rightarrow> usize" where
  "transport_header_offset c = unat (pc_transport_header_offset c)"

definition transport_header_len :: "packet_cursor \<Rightarrow> usize" where
  "transport_header_len c = unat (pc_transport_header_len c)"

definition transport_payload_offset :: "packet_cursor \<Rightarrow> usize" where
  "transport_payload_offset c = unat (pc_transport_payload_offset c)"

text \<open>The builders panic when a value does not fit its field.\<close>

definition with_packet_len :: "packet_cursor \<Rightarrow> usize \<Rightarrow> packet_cursor option" where
  "with_packet_len c len = (if len < 2 ^ 32 then Some (c\<lparr>pc_packet_len := of_nat len\<rparr>) else None)"

definition with_network_header :: "packet_cursor \<Rightarrow> usize \<Rightarrow> usize \<Rightarrow> packet_cursor option" where
  "with_network_header c offset len =
     (if offset < 2 ^ 16 \<and> len < 2 ^ 16
      then Some (c\<lparr>pc_network_header_offset := of_nat offset, pc_network_header_len := of_nat len\<rparr>) else None)"

definition with_transport_header :: "packet_cursor \<Rightarrow> usize \<Rightarrow> usize \<Rightarrow> packet_cursor option" where
  "with_transport_header c offset len =
     (if offset < 2 ^ 16 \<and> len < 2 ^ 16
      then Some (c\<lparr>pc_transport_header_offset := of_nat offset, pc_transport_header_len := of_nat len\<rparr>) else None)"

definition with_transport_payload_offset :: "packet_cursor \<Rightarrow> usize \<Rightarrow> packet_cursor option" where
  "with_transport_payload_offset c offset =
     (if offset < 2 ^ 16 then Some (c\<lparr>pc_transport_payload_offset := of_nat offset\<rparr>) else None)"


subsection \<open>Outgoing segments\<close>

record tcp_segment =
  seg_local :: socket_addr
  seg_remote :: socket_addr
  seg_sequence :: u32
  seg_acknowledgment :: u32
  seg_advertised_window :: u16
  seg_flags :: tcp_segment_flags
  seg_capabilities :: tcp_capabilities
  seg_sack_blocks :: "tcp_sack_block list option"
  seg_sack_block_count :: u8
  seg_timestamp :: "tcp_timestamp_option option"
  seg_fast_open_cookie :: "tcp_fast_open_cookie option"
  seg_ip_ecn :: "tcp_ecn_codepoint option"
  seg_payload_len :: usize

text \<open>The loop of \<open>copy_sack_blocks\<close> and the function itself.\<close>

function copy_sack_loop :: "tcp_sack_block list \<Rightarrow> tcp_sack_block list \<Rightarrow> usize \<Rightarrow> usize \<Rightarrow> tcp_sack_block list" where
  "copy_sack_loop sack_blocks copied len index =
     (if index < len then copy_sack_loop sack_blocks (copied[index := sack_blocks ! index]) len (index + 1)
      else copied)"
  by pat_completeness auto
termination
  by (relation "measure (\<lambda>(_, _, len, index). len - index)") auto

declare copy_sack_loop.simps [simp del]

definition copy_sack_blocks :: "tcp_sack_block list option \<Rightarrow> tcp_sack_block list option \<times> u8" where
  "copy_sack_blocks sack_blocks =
     (case sack_blocks of
        None \<Rightarrow> (None, 0)
      | Some blocks \<Rightarrow>
          if blocks = [] then (None, 0)
          else let copied = replicate 4 \<lparr>left_edge = 0, right_edge = 0\<rparr>;
                   len = min (length blocks) (length copied)
               in (Some (copy_sack_loop blocks copied len 0), of_nat len))"

definition tcp_segment_new ::
  "socket_addr \<Rightarrow> socket_addr \<Rightarrow> u32 \<Rightarrow> u32 \<Rightarrow> u16 \<Rightarrow> tcp_segment_flags \<Rightarrow> tcp_capabilities \<Rightarrow>
   tcp_sack_block list option \<Rightarrow> tcp_timestamp_option option \<Rightarrow> tcp_fast_open_cookie option \<Rightarrow>
   tcp_ecn_codepoint option \<Rightarrow> usize \<Rightarrow> tcp_segment" where
  "tcp_segment_new l r sequence acknowledgment advertised_window flags capabilities sack_blocks timestamp
     fast_open_cookie ip_ecn payload_len =
     (let (blocks, count) = copy_sack_blocks sack_blocks in
      \<lparr>seg_local = l, seg_remote = r, seg_sequence = sequence, seg_acknowledgment = acknowledgment,
       seg_advertised_window = advertised_window, seg_flags = flags, seg_capabilities = capabilities,
       seg_sack_blocks = blocks, seg_sack_block_count = count, seg_timestamp = timestamp,
       seg_fast_open_cookie = fast_open_cookie, seg_ip_ecn = ip_ecn, seg_payload_len = payload_len\<rparr>)"

text \<open>\<open>TcpSegment::sack_blocks\<close>; the count never exceeds the array, else the slice panics.\<close>

definition segment_sack_blocks :: "tcp_segment \<Rightarrow> tcp_sack_block list option option" where
  "segment_sack_blocks seg =
     (case seg_sack_blocks seg of
        None \<Rightarrow> Some None
      | Some blocks \<Rightarrow> map_option Some (slice blocks 0 (unat (seg_sack_block_count seg))))"

definition segment_header :: "tcp_segment \<Rightarrow> tcp_segment_header" where
  "segment_header seg =
     \<lparr>sh_source_port = snd (seg_local seg), sh_destination_port = snd (seg_remote seg),
      sh_sequence_number = seg_sequence seg, sh_acknowledgment_number = seg_acknowledgment seg,
      sh_flags = seg_flags seg, sh_advertised_window = seg_advertised_window seg, sh_urgent_pointer = 0,
      sh_capabilities = seg_capabilities seg, sh_timestamp = seg_timestamp seg,
      sh_fast_open_cookie = seg_fast_open_cookie seg\<rparr>"

definition segment_write_header :: "tcp_segment \<Rightarrow> u8 list \<Rightarrow> (tcp_error + usize \<times> u8 list) option" where
  "segment_write_header seg out =
     do { blocks \<leftarrow> segment_sack_blocks seg; write_to_buffer (segment_header seg) out blocks }"

definition segment_header_len :: "tcp_segment \<Rightarrow> usize option" where
  "segment_header_len seg =
     do { blocks \<leftarrow> segment_sack_blocks seg; Some (seg_header_len (segment_header seg) blocks) }"

definition segment_cache_options :: "tcp_segment \<Rightarrow> u8 list \<Rightarrow> (usize \<times> u8 list) option" where
  "segment_cache_options seg out =
     do { blocks \<leftarrow> segment_sack_blocks seg; cache_options (segment_header seg) out blocks }"

text \<open>The header part of \<open>write_burst_header\<close>: the cached options, its own sequence number and
  push bit; more than 40 option bytes panic.\<close>

definition burst_header :: "tcp_segment \<Rightarrow> tcp_seq \<Rightarrow> bool \<Rightarrow> tcp_segment_header" where
  "burst_header seg sequence psh =
     (let header = (segment_header seg)\<lparr>sh_sequence_number := sequence, sh_flags := TCP_ACK\<rparr>
      in if psh then header\<lparr>sh_flags := sh_flags header OR TCP_PSH\<rparr> else header)"

definition write_burst_header ::
  "tcp_segment \<Rightarrow> u8 list \<Rightarrow> u8 list \<Rightarrow> tcp_seq \<Rightarrow> bool \<Rightarrow> (tcp_error + usize \<times> u8 list) option" where
  "write_burst_header seg out options sequence psh =
     (if 20 + length options \<le> 60
      then Some (write_to_buffer_cached (burst_header seg sequence psh) out options) else None)"


subsection \<open>Received packets\<close>

record tcp_packet_info =
  pkt_local :: socket_addr
  pkt_remote :: socket_addr
  pkt_sequence :: tcp_seq
  pkt_acknowledgment :: "tcp_seq option"
  pkt_advertised_window :: u16
  pkt_flags :: tcp_segment_flags
  pkt_capabilities :: tcp_capabilities
  pkt_sack_blocks :: "tcp_sack_block list"
  pkt_timestamp :: "tcp_timestamp_option option"
  pkt_fast_open_cookie :: "tcp_fast_open_cookie option"
  pkt_ip_ecn :: "tcp_ecn_codepoint option"
  pkt_payload_offset :: usize
  pkt_payload_len :: usize

definition valid_tcp_cursor :: "packet_cursor \<Rightarrow> usize \<Rightarrow> bool" where
  "valid_tcp_cursor c available_len \<longleftrightarrow>
     network_header_offset c \<le> transport_header_offset c \<and>
     transport_header_offset c \<le> transport_payload_offset c \<and>
     transport_payload_offset c \<le> cursor_packet_len c \<and>
     transport_payload_offset c \<le> available_len"

definition u128_from_be :: "u8 list \<Rightarrow> 128 word" where
  "u128_from_be bs = foldl (\<lambda>acc b. push_bit 8 acc OR ucast b) 0 bs"

definition ipv4_at :: "u8 list \<Rightarrow> usize \<Rightarrow> tcp_error + ip_addr" where
  "ipv4_at packet off =
     (case slice packet off (off + 4) of
        None \<Rightarrow> Inl Length
      | Some a \<Rightarrow> Inr (V4 (u32_from_be (a ! 0) (a ! 1) (a ! 2) (a ! 3))))"

definition ipv6_at :: "u8 list \<Rightarrow> usize \<Rightarrow> tcp_error + ip_addr" where
  "ipv6_at packet off =
     (case slice packet off (off + 16) of None \<Rightarrow> Inl Length | Some a \<Rightarrow> Inr (V6 (u128_from_be a)))"

definition source_ip :: "u8 \<Rightarrow> u8 list \<Rightarrow> tcp_error + ip_addr" where
  "source_ip version packet =
     (if version = 4 then ipv4_at packet 12 else if version = 6 then ipv6_at packet 8 else Inl SegmentInvalid)"

definition destination_ip :: "u8 \<Rightarrow> u8 list \<Rightarrow> tcp_error + ip_addr" where
  "destination_ip version packet =
     (if version = 4 then ipv4_at packet 16 else if version = 6 then ipv6_at packet 24 else Inl SegmentInvalid)"

text \<open>The four variables the option loop of \<open>tcp_packet\<close> updates, and its body.\<close>

record packet_options =
  po_capabilities :: tcp_capabilities
  po_sack_blocks :: "tcp_sack_block list"
  po_timestamp :: "tcp_timestamp_option option"
  po_fast_open_cookie :: "tcp_fast_open_cookie option"

definition packet_options_init :: packet_options where
  "packet_options_init = \<lparr>po_capabilities = tcp_capabilities_default, po_sack_blocks = [], po_timestamp = None,
     po_fast_open_cookie = None\<rparr>"

fun packet_option :: "packet_options \<Rightarrow> tcp_option \<Rightarrow> tcp_error + packet_options \<times> bool" where
  "packet_option s OptEnd = Inr (s, False)"
| "packet_option s NoOperation = Inr (s, True)"
| "packet_option s (Unknown _ _) = Inr (s, True)"
| "packet_option s (MaximumSegmentSize v) =
     Inr (s\<lparr>po_capabilities := (po_capabilities s)\<lparr>max_segment_size := Some v\<rparr>\<rparr>, True)"
| "packet_option s (WindowScale v) =
     Inr (s\<lparr>po_capabilities := (po_capabilities s)\<lparr>window_scale := Some v\<rparr>\<rparr>, True)"
| "packet_option s SackPermitted = Inr (s\<lparr>po_capabilities := (po_capabilities s)\<lparr>cap_sack := True\<rparr>\<rparr>, True)"
| "packet_option s (SackBlock b) = Inr (s\<lparr>po_sack_blocks := po_sack_blocks s @ [b]\<rparr>, True)"
| "packet_option s (Timestamp v) =
     Inr (s\<lparr>po_capabilities := (po_capabilities s)\<lparr>cap_timestamps := True\<rparr>, po_timestamp := Some v\<rparr>, True)"
| "packet_option s (FastOpenCookie cookie) =
     (let s = s\<lparr>po_capabilities := (po_capabilities s)\<lparr>cap_fast_open := True\<rparr>\<rparr> in
      if cookie = [] then Inr (s, True)
      else case cookie_try_from cookie of
             None \<Rightarrow> Inl SegmentInvalid
           | Some k \<Rightarrow> Inr (s\<lparr>po_fast_open_cookie := Some k\<rparr>, True))"
| "packet_option s AccurateEcn =
     Inr (s\<lparr>po_capabilities := (po_capabilities s)\<lparr>cap_ecn := True, cap_accurate_ecn := True\<rparr>\<rparr>, True)"

text \<open>\<open>tcp_packet\<close> on the current bytes of a buffer, its cursor and its ECN mark. The outer
  option is a panic, the sum its \<open>Result\<close>. The offsets are 16-bit fields, so the additions
  of the code do not overflow.\<close>

definition tcp_packet ::
  "packet_cursor \<Rightarrow> u8 list \<Rightarrow> tcp_ecn_codepoint option \<Rightarrow> (tcp_error + tcp_packet_info) option" where
  "tcp_packet cursor packet ip_ecn =
     (let first_len = min (length packet) (cursor_packet_len cursor);
          toff = transport_header_offset cursor;
          poff = transport_payload_offset cursor in
      if \<not> valid_tcp_cursor cursor first_len then Some (Inl Length)
      else case slice packet (network_header_offset cursor) toff of
        None \<Rightarrow> Some (Inl Length)
      | Some network_header \<Rightarrow>
      (case slice packet toff first_len of
        None \<Rightarrow> Some (Inl Length)
      | Some segment \<Rightarrow>
      (case tcp_header_of segment of
        Inl _ \<Rightarrow> Some (Inl Length)
      | Inr tcp \<Rightarrow>
      let header_len = hdr_header_len tcp in
      if transport_header_len cursor \<noteq> header_len \<or> poff \<noteq> toff + header_len then Some (Inl Length)
      else if \<not> network_header_offset cursor < length packet then Some (Inl Length)
      else let version = drop_bit 4 (packet ! network_header_offset cursor) in
      (case source_ip version network_header of
        Inl e \<Rightarrow> Some (Inl e)
      | Inr src_ip \<Rightarrow>
      (case destination_ip version network_header of
        Inl e \<Rightarrow> Some (Inl e)
      | Inr dst_ip \<Rightarrow>
      (case slice packet (toff + 20) (toff + header_len) of
        None \<Rightarrow> Some (Inl Length)
      | Some options \<Rightarrow>
      do { r \<leftarrow> for_options packet_option (option_iter_new options) packet_options_init;
           case r of
             Inl e \<Rightarrow> Some (Inl e)
           | Inr s \<Rightarrow>
               let flags = hdr_flags tcp in
               if first_len < poff then Some (Inl Length)
               else Some (Inr
                 \<lparr>pkt_local = (dst_ip, hdr_destination_port tcp),
                  pkt_remote = (src_ip, hdr_source_port tcp),
                  pkt_sequence = hdr_sequence_number tcp,
                  pkt_acknowledgment =
                    (if flags_contains flags TCP_ACK then Some (hdr_acknowledgment_number tcp) else None),
                  pkt_advertised_window = hdr_advertised_window tcp, pkt_flags = flags,
                  pkt_capabilities = po_capabilities s, pkt_sack_blocks = po_sack_blocks s,
                  pkt_timestamp = po_timestamp s, pkt_fast_open_cookie = po_fast_open_cookie s,
                  pkt_ip_ecn = ip_ecn, pkt_payload_offset = poff, pkt_payload_len = first_len - poff\<rparr>) }))))))"

subsection \<open>The inline SACK array\<close>

lemma copy_sack_loop_spec:
  "index \<le> len \<Longrightarrow> len \<le> length copied \<Longrightarrow> len \<le> length blocks \<Longrightarrow> take index copied = take index blocks \<Longrightarrow>
     take len (copy_sack_loop blocks copied len index) = take len blocks \<and>
     length (copy_sack_loop blocks copied len index) = length copied"
proof (induction blocks copied len index rule: copy_sack_loop.induct)
  case (1 blocks copied len index)
  show ?case
  proof (cases "index < len")
    case True
    then have "take (index + 1) (copied[index := blocks ! index]) = take (index + 1) blocks"
      using "1.prems" by (simp add: take_Suc_conv_app_nth)
    then show ?thesis using True 1 by (simp add: copy_sack_loop.simps [of _ _ len index])
  qed (use "1.prems" in \<open>simp add: copy_sack_loop.simps [of blocks copied]\<close>)
qed

definition sack_wf :: "tcp_segment \<Rightarrow> bool" where
  "sack_wf seg \<longleftrightarrow>
     (case seg_sack_blocks seg of
        None \<Rightarrow> True
      | Some bs \<Rightarrow> length bs = 4 \<and> unat (seg_sack_block_count seg) \<le> 4)"

definition carried_sack :: "tcp_segment \<Rightarrow> tcp_sack_block list option" where
  "carried_sack seg = map_option (take (unat (seg_sack_block_count seg))) (seg_sack_blocks seg)"

lemma segment_sack_blocks_wf: "sack_wf seg \<Longrightarrow> segment_sack_blocks seg = Some (carried_sack seg)"
  by (auto simp: sack_wf_def segment_sack_blocks_def carried_sack_def slice_def split: option.splits)

lemma copy_sack_blocks_spec:
  assumes "copy_sack_blocks sb = (blocks, count)"
  shows "(case blocks of None \<Rightarrow> True | Some bs \<Rightarrow> length bs = 4 \<and> unat count \<le> 4)"
    and "map_option (take (unat count)) blocks = (if sb = Some [] then None else map_option (take 4) sb)"
proof -
  have c: "unat (of_nat (min n 4) :: u8) = min n 4" for n
    by (simp only: unat_of_nat take_bit_eq_mod) simp
  have m: "take (min (length bs) 4) bs = take 4 bs" for bs :: "tcp_sack_block list"
    by (cases "length bs \<le> 4") (simp_all add: min_def)
  note l = copy_sack_loop_spec [of 0 "min (length bs) 4" "replicate 4 \<lparr>left_edge = 0, right_edge = 0\<rparr>" bs for bs,
      simplified]
  show "(case blocks of None \<Rightarrow> True | Some bs \<Rightarrow> length bs = 4 \<and> unat count \<le> 4)"
    and "map_option (take (unat count)) blocks = (if sb = Some [] then None else map_option (take 4) sb)"
    using assms l c m
    by (auto simp: copy_sack_blocks_def Let_def simp del: of_nat_min split: option.splits if_splits)
qed

lemma tcp_segment_new_sack:
  assumes "seg = tcp_segment_new l r s a w f caps sb ts cookie ecn n"
  shows "sack_wf seg" "carried_sack seg = (if sb = Some [] then None else map_option (take 4) sb)"
  using copy_sack_blocks_spec [of sb]
  by (auto simp: assms tcp_segment_new_def sack_wf_def carried_sack_def split: prod.splits option.splits)

definition segment_wf :: "tcp_segment \<Rightarrow> bool" where
  "segment_wf seg \<longleftrightarrow> sack_wf seg \<and> drop_bit 9 (seg_flags seg) = 0 \<and>
     (case seg_fast_open_cookie seg of None \<Rightarrow> True | Some k \<Rightarrow> cookie_try_from (cookie_as_slice k) = Some k)"

lemma segment_header_wf: "segment_wf seg \<Longrightarrow> header_wf (segment_header seg)"
  using cookie_try_from_Some(2)
  by (auto simp: segment_wf_def header_wf_def segment_header_def split: option.splits)


subsection \<open>Options of a received packet\<close>

definition wire_options :: "tcp_segment_header \<Rightarrow> tcp_sack_block list option \<Rightarrow> packet_options" where
  "wire_options h sack_blocks =
     (let c = sh_capabilities h; syn = flags_contains (sh_flags h) TCP_SYN;
          ack = flags_contains (sh_flags h) TCP_ACK in
      \<lparr>po_capabilities =
         (if syn then c\<lparr>window_scale := map_option (\<lambda>ws. min ws 14) (window_scale c), cap_ecn := cap_accurate_ecn c\<rparr>
          else if ack then tcp_capabilities_default\<lparr>cap_timestamps := cap_timestamps c\<rparr>
          else tcp_capabilities_default),
       po_sack_blocks =
         (if \<not> syn \<and> ack then (case sack_blocks of None \<Rightarrow> [] | Some bs \<Rightarrow> take 4 bs) else []),
       po_timestamp = (if (syn \<or> ack) \<and> cap_timestamps c then Some (ts_of h) else None),
       po_fast_open_cookie = (if syn \<and> cap_fast_open c then sh_fast_open_cookie h else None)\<rparr>)"

lemma fold_sack_blocks:
  "fold_items packet_option (map (Inr \<circ> SackBlock) bs @ rest) s =
     fold_items packet_option rest (s\<lparr>po_sack_blocks := po_sack_blocks s @ bs\<rparr>)"
  by (induction bs arbitrary: s) simp_all

lemma packet_option_cookie:
  assumes "case sh_fast_open_cookie h of None \<Rightarrow> True | Some k \<Rightarrow> cookie_try_from (cookie_as_slice k) = Some k"
    "po_fast_open_cookie s = None"
  shows "packet_option s (FastOpenCookie (cookie_bytes h)) =
    Inr (s\<lparr>po_capabilities := (po_capabilities s)\<lparr>cap_fast_open := True\<rparr>,
           po_fast_open_cookie := sh_fast_open_cookie h\<rparr>, True)"
proof (cases "sh_fast_open_cookie h")
  case None
  then show ?thesis using assms(2) by (cases s) (simp add: cookie_bytes_def)
next
  case (Some k)
  then have k: "cookie_try_from (cookie_as_slice k) = Some k" using assms by simp
  then have "cookie_as_slice k \<noteq> []" by (auto simp: cookie_try_from_def cookie_is_valid_len_def split: if_splits)
  then show ?thesis using Some k by (simp add: cookie_bytes_def)
qed

lemma fold_option_items:
  assumes "case sh_fast_open_cookie h of None \<Rightarrow> True | Some k \<Rightarrow> cookie_try_from (cookie_as_slice k) = Some k"
    "pad = [] \<or> pad = [Inr OptEnd]"
  shows "fold_items packet_option (map Inr (option_items h sack_blocks) @ pad) packet_options_init =
    Inr (wire_options h sack_blocks)"
proof -
  have pad: "fold_items packet_option pad s = Inr s" for s using assms(2) by auto
  have syn: "fold_items packet_option (map Inr (syn_items h) @ pad) packet_options_init = Inr (wire_options h sack_blocks)"
    if "flags_contains (sh_flags h) TCP_SYN"
    using that
    by (cases "sh_capabilities h"; cases "max_segment_size (sh_capabilities h)"; cases "window_scale (sh_capabilities h)")
       (simp_all add: syn_items_def ts_items_def Let_def wire_options_def packet_options_init_def
         tcp_capabilities_default_def packet_option_cookie [OF assms(1)] pad
         del: packet_option.simps(9))
  have ack: "fold_items packet_option (map Inr (ack_items h sack_blocks) @ pad) packet_options_init = Inr (wire_options h sack_blocks)"
    if "\<not> flags_contains (sh_flags h) TCP_SYN" "flags_contains (sh_flags h) TCP_ACK"
    using that
    by (cases sack_blocks)
       (simp_all add: ack_items_def ts_items_def Let_def wire_options_def packet_options_init_def
         tcp_capabilities_default_def fold_sack_blocks pad)
  show ?thesis using syn ack
    by (auto simp: option_items_def wire_options_def packet_options_init_def pad)
qed

subsection \<open>The round trip\<close>

definition cursor_at :: "usize \<Rightarrow> usize \<Rightarrow> usize \<Rightarrow> packet_cursor option" where
  "cursor_at network_len header_len payload_len =
     do { c \<leftarrow> with_packet_len cursor_new (network_len + header_len + payload_len);
          c \<leftarrow> with_network_header c 0 network_len;
          c \<leftarrow> with_transport_header c network_len header_len;
          with_transport_payload_offset c (network_len + header_len) }"

lemma unat_of_nat_id: "n < 2 ^ LENGTH('a::len) \<Longrightarrow> unat (of_nat n :: 'a word) = n"
  by (simp add: unat_of_nat take_bit_eq_mod)

lemma cursor_at_fields:
  assumes "cursor_at n h p = Some c"
  shows "cursor_packet_len c = n + h + p" "network_header_offset c = 0" "transport_header_offset c = n"
    "transport_header_len c = h" "transport_payload_offset c = n + h"
proof -
  have lt: "n + h + p < 2 ^ 32" "n < 2 ^ 16" "h < 2 ^ 16" "n + h < 2 ^ 16"
    and c: "c = \<lparr>pc_packet_len = of_nat (n + h + p), pc_network_header_offset = of_nat 0, pc_network_header_len = of_nat n,
      pc_transport_header_offset = of_nat n, pc_transport_header_len = of_nat h,
      pc_transport_payload_offset = of_nat (n + h)\<rparr>"
    using assms unfolding cursor_at_def with_packet_len_def with_network_header_def with_transport_header_def
      with_transport_payload_offset_def cursor_new_def
    by (auto simp: bind_eq_Some_conv split: if_splits)
  show "cursor_packet_len c = n + h + p" "network_header_offset c = 0" "transport_header_offset c = n"
    "transport_header_len c = h" "transport_payload_offset c = n + h"
    using unat_of_nat_id [where 'a = 32, of "n + h + p"] unat_of_nat_id [where 'a = 16, of n]
      unat_of_nat_id [where 'a = 16, of h] unat_of_nat_id [where 'a = 16, of "n + h"] lt
    by (simp_all add: c cursor_packet_len_def network_header_offset_def transport_header_offset_def
        transport_header_len_def transport_payload_offset_def del: of_nat_add)
qed

text \<open>What the receiver of a segment sees of it.\<close>

definition received ::
  "tcp_segment \<Rightarrow> ip_addr \<Rightarrow> ip_addr \<Rightarrow> tcp_ecn_codepoint option \<Rightarrow> usize \<Rightarrow> usize \<Rightarrow> tcp_packet_info" where
  "received seg src dst ecn offset payload_len =
     (let s = wire_options (segment_header seg) (carried_sack seg) in
      \<lparr>pkt_local = (dst, snd (seg_remote seg)), pkt_remote = (src, snd (seg_local seg)),
       pkt_sequence = seg_sequence seg,
       pkt_acknowledgment = (if flags_contains (seg_flags seg) TCP_ACK then Some (seg_acknowledgment seg) else None),
       pkt_advertised_window = seg_advertised_window seg, pkt_flags = seg_flags seg,
       pkt_capabilities = po_capabilities s, pkt_sack_blocks = po_sack_blocks s, pkt_timestamp = po_timestamp s,
       pkt_fast_open_cookie = po_fast_open_cookie s, pkt_ip_ecn = ecn, pkt_payload_offset = offset,
       pkt_payload_len = payload_len\<rparr>)"

lemma seg_header_len_bounds:
  "header_wf h \<Longrightarrow> seg_header_len h sb = 20 + round_tcp_options_len (length (option_bytes h sb))"
  "header_wf h \<Longrightarrow> 20 \<le> seg_header_len h sb" "header_wf h \<Longrightarrow> seg_header_len h sb mod 4 = 0"
  "header_wf h \<Longrightarrow> length (option_bytes h sb) \<le> seg_header_len h sb - 20"
  using round_tcp_options_len_bounds [of "length (option_bytes h sb)"]
  by (simp_all add: seg_header_len_def tcp_options_len_eq mod_add_left_eq [symmetric])

lemma tcp_packet_written:
  fixes h sb defines "len \<equiv> seg_header_len h sb"
  assumes h: "header_wf h"
    and cookie: "case sh_fast_open_cookie h of None \<Rightarrow> True | Some k \<Rightarrow> cookie_try_from (cookie_as_slice k) = Some k"
    and len: "len \<le> 60" and c: "cursor_at (length ip) len (length payload) = Some c" and ne: "ip \<noteq> []"
    and ips: "source_ip (drop_bit 4 (ip ! 0)) ip = Inr src" "destination_ip (drop_bit 4 (ip ! 0)) ip = Inr dst"
    and opts: "opts = option_bytes h sb @ replicate (len - 20 - length (option_bytes h sb)) 0"
    and hdr: "hdr = set_header_fields h len"
  shows "tcp_packet c (ip @ (tcp_header_bytes hdr @ opts) @ payload) ecn =
    Some (Inr
      \<lparr>pkt_local = (dst, hdr_destination_port hdr), pkt_remote = (src, hdr_source_port hdr),
       pkt_sequence = hdr_sequence_number hdr,
       pkt_acknowledgment = (if flags_contains (hdr_flags hdr) TCP_ACK then Some (hdr_acknowledgment_number hdr) else None),
       pkt_advertised_window = hdr_advertised_window hdr, pkt_flags = hdr_flags hdr,
       pkt_capabilities = po_capabilities (wire_options h sb), pkt_sack_blocks = po_sack_blocks (wire_options h sb),
       pkt_timestamp = po_timestamp (wire_options h sb),
       pkt_fast_open_cookie = po_fast_open_cookie (wire_options h sb), pkt_ip_ecn = ecn,
       pkt_payload_offset = length ip + len, pkt_payload_len = length payload\<rparr>)"
proof -
  have l: "20 \<le> len" "len mod 4 = 0" "length (option_bytes h sb) \<le> len - 20"
    using seg_header_len_bounds(2-4) [OF h] by (simp_all add: len_def)
  have lo: "length opts = len - 20" "length (tcp_header_bytes hdr) = 20" using l by (simp_all add: opts hdr)
  let ?p = "ip @ (tcp_header_bytes hdr @ opts) @ payload"
  have v: "valid_tcp_cursor c (length ip + len + length payload)"
    using cursor_at_fields [OF c] by (simp add: valid_tcp_cursor_def)
  have s: "slice ?p 0 (length ip) = Some ip"
    "slice ?p (length ip) (length ip + len + length payload) = Some (tcp_header_bytes hdr @ opts @ payload)"
    "slice ?p (length ip + 20) (length ip + len) = Some opts"
    using l lo by (simp_all add: slice_def)
  have t: "tcp_header_of (tcp_header_bytes hdr @ opts @ payload) = Inr hdr"
    unfolding hdr by (rule tcp_header_of_written) (use l lo len in simp_all)
  have hl: "hdr_header_len hdr = len" using l len by (simp add: hdr hdr_len_set_header_fields)
  have f: "for_options packet_option (option_iter_new opts) packet_options_init = Some (Inr (wire_options h sb))"
    unfolding for_options_new opts parse_option_bytes [OF h] parse_zeros
    by (simp add: fold_option_items [OF cookie])
  have lp: "length ?p = length ip + len + length payload" using lo l by simp
  have n0: "?p ! 0 = ip ! 0" using ne by (simp add: nth_append)
  show ?thesis
    unfolding tcp_packet_def Let_def lp cursor_at_fields [OF c] min.idem
    using v s t hl f n0 ips ne l by simp
qed

lemma segment_write_header_eq:
  assumes "segment_wf seg" "segment_header_len seg = Some len" "len \<le> 60" "length out = len"
  shows "len = seg_header_len (segment_header seg) (carried_sack seg)"
    and "segment_write_header seg out =
      Some (Inr (len, tcp_header_bytes (set_header_fields (segment_header seg) len) @
        option_bytes (segment_header seg) (carried_sack seg) @
        replicate (len - 20 - length (option_bytes (segment_header seg) (carried_sack seg))) 0))"
proof -
  have sb: "segment_sack_blocks seg = Some (carried_sack seg)"
    using assms(1) by (simp add: segment_wf_def segment_sack_blocks_wf)
  then show len: "len = seg_header_len (segment_header seg) (carried_sack seg)"
    using assms(2) by (simp add: segment_header_len_def)
  show "segment_write_header seg out =
      Some (Inr (len, tcp_header_bytes (set_header_fields (segment_header seg) len) @
        option_bytes (segment_header seg) (carried_sack seg) @
        replicate (len - 20 - length (option_bytes (segment_header seg) (carried_sack seg))) 0))"
    using write_to_buffer_eq [OF segment_header_wf [OF assms(1)], of "carried_sack seg" out] assms(3,4) len sb
    by (simp add: segment_write_header_def)
qed

lemma source_ip_nonempty: "source_ip v ip = Inr src \<Longrightarrow> ip \<noteq> []"
  by (auto simp: source_ip_def ipv4_at_def ipv6_at_def slice_def split: if_splits)

text \<open>C4. A segment that is written and received comes back: for every well-formed outgoing segment whose
  header fits 60 bytes, \<open>write_header\<close> succeeds, fills exactly the header it announced, and \<open>tcp_packet\<close>
  on the network header, those bytes and any payload recovers the addresses, ports, sequence and
  acknowledgment numbers, window, flags, all negotiated options (a window scale capped at 14), the
  SACK blocks, the timestamp, the cookie and the payload extent.\<close>

theorem tcp_segment_roundtrip:
  assumes "segment_wf seg" "segment_header_len seg = Some len" "len \<le> 60" "length out = len"
    and "cursor_at (length ip) len (length payload) = Some c"
    and "source_ip (drop_bit 4 (ip ! 0)) ip = Inr src" "destination_ip (drop_bit 4 (ip ! 0)) ip = Inr dst"
  shows "\<exists>hdr. segment_write_header seg out = Some (Inr (len, hdr)) \<and> length hdr = len \<and>
    tcp_packet c (ip @ hdr @ payload) ecn =
      Some (Inr (received seg src dst ecn (length ip + len) (length payload)))"
proof -
  let ?h = "segment_header seg" and ?sb = "carried_sack seg"
  let ?bs = "option_bytes ?h ?sb @ replicate (len - 20 - length (option_bytes ?h ?sb)) 0"
  note len = segment_write_header_eq(1) [OF assms(1-4)]
  have h: "header_wf ?h" using assms(1) by (rule segment_header_wf)
  have cookie: "case sh_fast_open_cookie ?h of None \<Rightarrow> True | Some k \<Rightarrow> cookie_try_from (cookie_as_slice k) = Some k"
    using assms(1) by (simp add: segment_wf_def segment_header_def)
  have m: "header_matches (set_header_fields ?h len) ?h" using h by (rule header_matches_set)
  have "tcp_packet c (ip @ (tcp_header_bytes (set_header_fields ?h len) @ ?bs) @ payload) ecn =
      Some (Inr (received seg src dst ecn (length ip + len) (length payload)))"
    using tcp_packet_written [OF h cookie, of ?sb ip payload c src dst ?bs "set_header_fields ?h len" ecn]
      assms(3,5,6,7) source_ip_nonempty [OF assms(6)] len m
    by (simp add: received_def Let_def header_matches_def segment_header_def)
  moreover have "length (tcp_header_bytes (set_header_fields ?h len) @ ?bs) = len"
    using seg_header_len_bounds(2,4) [OF h, of ?sb] len by simp
  ultimately show ?thesis using segment_write_header_eq(2) [OF assms(1-4)] by blast
qed

definition syn_segment_example :: tcp_segment where
  "syn_segment_example =
     tcp_segment_new (V4 0x0A000001, 8080) (V4 0x0A000002, 443) 1000 0 65535 TCP_SYN
       \<lparr>max_segment_size = Some 1460, window_scale = Some 7, cap_sack = True, cap_timestamps = True,
         cap_ecn = False, cap_accurate_ecn = False, cap_fast_open = False\<rparr>
       None (Some \<lparr>tsval = 5, tsecr = 0\<rparr>) None None 0"

definition ip_header_example :: "u8 list" where
  "ip_header_example = [0x45, 0, 0, 64, 0, 0, 0, 0, 64, 6, 0, 0, 10, 0, 0, 1, 10, 0, 0, 2]"

lemma syn_segment_example_facts:
  "segment_wf syn_segment_example" "segment_header_len syn_segment_example = Some 44"
  "\<exists>c. cursor_at (length ip_header_example) 44 (length ([] :: u8 list)) = Some c"
  "source_ip (drop_bit 4 (ip_header_example ! 0)) ip_header_example = Inr (V4 0x0A000001)"
  "destination_ip (drop_bit 4 (ip_header_example ! 0)) ip_header_example = Inr (V4 0x0A000002)"
proof -
  show "segment_wf syn_segment_example" by code_simp
  show "segment_header_len syn_segment_example = Some 44" by code_simp
  show "\<exists>c. cursor_at (length ip_header_example) 44 (length ([] :: u8 list)) = Some c"
    by (simp add: cursor_at_def with_packet_len_def with_network_header_def with_transport_header_def
        with_transport_payload_offset_def ip_header_example_def)
  show "source_ip (drop_bit 4 (ip_header_example ! 0)) ip_header_example = Inr (V4 0x0A000001)" by code_simp
  show "destination_ip (drop_bit 4 (ip_header_example ! 0)) ip_header_example = Inr (V4 0x0A000002)" by code_simp
qed

theorem tcp_segment_roundtrip_witness:
  "\<exists>c hdr. segment_write_header syn_segment_example (replicate 44 0) = Some (Inr (44, hdr)) \<and> length hdr = 44 \<and>
     tcp_packet c (ip_header_example @ hdr) None =
       Some (Inr (received syn_segment_example (V4 0x0A000001) (V4 0x0A000002) None 64 0))"
proof -
  obtain c where c: "cursor_at (length ip_header_example) 44 (length ([] :: u8 list)) = Some c"
    using syn_segment_example_facts(3) by blast
  show ?thesis
    using tcp_segment_roundtrip [OF syn_segment_example_facts(1,2) _ _ c syn_segment_example_facts(4,5),
        of "replicate 44 0" None]
    by (auto simp: ip_header_example_def)
qed


subsection \<open>The burst path\<close>

lemma burst_header_segment:
  "burst_header seg sequence psh =
     segment_header (seg\<lparr>seg_sequence := sequence, seg_flags := TCP_ACK OR (if psh then TCP_PSH else 0)\<rparr>)"
  by (simp add: burst_header_def segment_header_def Let_def)

lemma ack_flags:
  "flags_contains (TCP_ACK OR (if psh then TCP_PSH else 0)) TCP_SYN = False"
  "flags_contains (TCP_ACK OR (if psh then TCP_PSH else 0)) TCP_ACK"
  "drop_bit 9 (TCP_ACK OR (if psh then TCP_PSH else 0)) = 0"
  by (cases psh; simp add: flags_contains_def tcp_flag_defs; code_simp)+

lemma ack_options_len_bound:
  assumes "cap_timestamps (sh_capabilities h) \<longrightarrow> (case sb of None \<Rightarrow> True | Some bs \<Rightarrow> length bs \<le> 3)"
  shows "round_tcp_options_len (length (ack_option_bytes h sb)) \<le> 40"
  using assms by (auto simp: ack_option_bytes_def ts_bytes_def round_tcp_options_len_def split: option.splits)

lemma ack_option_bytes_burst:
  "ack_option_bytes (segment_header (seg\<lparr>seg_sequence := s, seg_flags := f\<rparr>)) sb = ack_option_bytes (segment_header seg) sb"
  by (simp add: ack_option_bytes_def ts_bytes_def ts_of_def segment_header_def)

lemma segment_header_flags: "sh_flags (segment_header (seg\<lparr>seg_sequence := s, seg_flags := f\<rparr>)) = f"
  by (simp add: segment_header_def)

lemma segment_cache_options_eq:
  assumes "segment_wf seg" "flags_contains (seg_flags seg) TCP_ACK" "\<not> flags_contains (seg_flags seg) TCP_SYN"
    and bs: "bs = ack_option_bytes (segment_header seg) (carried_sack seg)"
    and n: "n = round_tcp_options_len (length bs)" "n \<le> length buf"
  shows "segment_cache_options seg buf = Some (n, (bs @ replicate (n - length bs) 0) @ drop n buf)"
proof -
  have o: "option_bytes (segment_header seg) (carried_sack seg) = bs"
    using assms(2,3) by (simp add: option_bytes_def bs segment_header_def)
  have t: "tcp_options_len (segment_header seg) (carried_sack seg) = n"
    using tcp_options_len_eq [OF segment_header_wf [OF assms(1)]] by (simp add: o n)
  have "segment_sack_blocks seg = Some (carried_sack seg)"
    using assms(1) by (simp add: segment_wf_def segment_sack_blocks_wf)
  then show ?thesis
    using write_tcp_options_eq [of "segment_header seg" "carried_sack seg" "take n buf"] n
      round_tcp_options_len_bounds(1) [of "length bs"]
    by (simp add: segment_cache_options_def cache_options_def t o slice_def Let_def)
qed

text \<open>C25. The fast path of a burst agrees with the general one: options cached once by
  \<open>cache_options\<close> and a header written around them by \<open>write_burst_header\<close> give, byte for byte,
  what \<open>write_header\<close> gives for a segment with that sequence number and the flags ACK or
  ACK and PSH. Up to three SACK blocks beside timestamps the 40-byte cache never overflows.\<close>

theorem burst_header_equals_general_path:
  assumes "segment_wf seg" "flags_contains (seg_flags seg) TCP_ACK" "\<not> flags_contains (seg_flags seg) TCP_SYN"
    and "cap_timestamps (seg_capabilities seg) \<longrightarrow> unat (seg_sack_block_count seg) \<le> 3"
    and "length buf = 40"
  shows "\<exists>n buf'. segment_cache_options seg buf = Some (n, buf') \<and> length buf' = 40 \<and> n \<le> 40 \<and>
    (\<forall>out. length out = 20 + n \<longrightarrow>
       write_burst_header seg out (take n buf') sequence psh =
       segment_write_header
         (seg\<lparr>seg_sequence := sequence, seg_flags := TCP_ACK OR (if psh then TCP_PSH else 0)\<rparr>) out)"
proof -
  let ?seg = "seg\<lparr>seg_sequence := sequence, seg_flags := TCP_ACK OR (if psh then TCP_PSH else 0)\<rparr>"
  define bs where "bs = ack_option_bytes (segment_header seg) (carried_sack seg)"
  define n where "n = round_tcp_options_len (length bs)"
  have n: "n \<le> 40" unfolding n_def bs_def
    by (rule ack_options_len_bound) (use assms(4) in \<open>auto simp: segment_header_def carried_sack_def split: option.splits\<close>)
  have nb: "length bs \<le> n" "n mod 4 = 0" using round_tcp_options_len_bounds [of "length bs"] by (simp_all add: n_def)
  have wf: "segment_wf ?seg" using assms(1) ack_flags(3) by (auto simp: segment_wf_def sack_wf_def split: option.splits)
  have sb: "carried_sack ?seg = carried_sack seg" by (simp add: carried_sack_def)
  have o: "option_bytes (segment_header ?seg) (carried_sack seg) = bs"
    by (simp only: option_bytes_def bs_def ack_option_bytes_burst segment_header_flags ack_flags(1,2) if_True if_False)
  have hl: "segment_header_len ?seg = Some (20 + n)"
    using wf seg_header_len_bounds(1) [OF segment_header_wf [OF wf], of "carried_sack seg"]
    by (simp add: segment_header_len_def segment_wf_def segment_sack_blocks_wf sb o n_def)
  have "write_burst_header seg out (bs @ replicate (n - length bs) 0) sequence psh = segment_write_header ?seg out"
    if "length out = 20 + n" for out
    using segment_write_header_eq(2) [OF wf hl _ that] that n nb
    by (simp add: write_burst_header_def write_to_buffer_cached_def burst_header_segment sb o Let_def
        mod_add_left_eq [symmetric])
  then show ?thesis
    using segment_cache_options_eq [OF assms(1-3) bs_def n_def, of buf] n nb assms(5) by simp
qed

theorem burst_header_equals_general_path_witness:
  "\<exists>n buf'. segment_cache_options (syn_segment_example\<lparr>seg_flags := TCP_ACK\<rparr>) (replicate 40 0) = Some (n, buf') \<and>
     (\<forall>out. length out = 20 + n \<longrightarrow>
       write_burst_header (syn_segment_example\<lparr>seg_flags := TCP_ACK\<rparr>) out (take n buf') 7 True =
       segment_write_header
         (syn_segment_example\<lparr>seg_flags := TCP_ACK, seg_sequence := 7, seg_flags := TCP_ACK OR TCP_PSH\<rparr>) out)"
proof -
  have "segment_wf (syn_segment_example\<lparr>seg_flags := TCP_ACK\<rparr>)" by code_simp
  moreover have "unat (seg_sack_block_count syn_segment_example) \<le> 3" by code_simp
  moreover have "flags_contains TCP_ACK TCP_ACK" "\<not> flags_contains TCP_ACK TCP_SYN" by code_simp+
  ultimately show ?thesis
    using burst_header_equals_general_path
      [of "syn_segment_example\<lparr>seg_flags := TCP_ACK\<rparr>" "replicate 40 0" 7 True]
    by auto
qed

end
