(* ===== verification/IpHeader.thy ===== *)
theory IpHeader
  imports TcpSegment Checksum
begin

text \<open>
  The IP headers of \<open>src/crates/hammer-plugins/net/ip/src/protocol\<close>: \<open>ip.rs\<close> (protocol numbers, fragment keys,
  the IPv4, IPv6 and fragment headers with their accessors, the writers of locally originated headers, the MTU
  check), \<open>icmp.rs\<close> (the packed ICMP error request) and \<open>ip_ecn.rs\<close>.  A header is the record of the bytes of
  the \<open>repr(C)\<close> struct; borrowing one from the front of a slice fails exactly when the slice is shorter than
  the struct.
\<close>

subsection \<open>Constants and enumerations\<close>

definition IPV4_HEADER_MIN_LEN :: usize where "IPV4_HEADER_MIN_LEN = 20"
definition IPV6_HEADER_LEN :: usize where "IPV6_HEADER_LEN = 40"
definition IPV4_FLAG_MORE_FRAGMENTS :: u16 where "IPV4_FLAG_MORE_FRAGMENTS = 0x2000"
definition IPV4_FLAG_DONT_FRAGMENT :: u16 where "IPV4_FLAG_DONT_FRAGMENT = 0x4000"
definition IPV4_FRAGMENT_OFFSET_MASK :: u16 where "IPV4_FRAGMENT_OFFSET_MASK = 0x1fff"
definition IPV6_NEXT_HEADER_FRAGMENT :: u8 where "IPV6_NEXT_HEADER_FRAGMENT = 44"
definition IPV6_FRAGMENT_HEADER_LEN :: usize where "IPV6_FRAGMENT_HEADER_LEN = 8"

lemmas ip_consts = IPV4_HEADER_MIN_LEN_def IPV6_HEADER_LEN_def IPV4_FLAG_MORE_FRAGMENTS_def
  IPV4_FLAG_DONT_FRAGMENT_def IPV4_FRAGMENT_OFFSET_MASK_def IPV6_NEXT_HEADER_FRAGMENT_def
  IPV6_FRAGMENT_HEADER_LEN_def

datatype ip_protocol = Icmpv4 | Tcp | Udp | Icmpv6 | Other u8

datatype ip_input_target =
  DropTarget | PuntTarget | OptionsTarget | LookupTarget | LookupMulticastTarget | IcmpErrorTarget | ReassemblyTarget

datatype ip_input_error =
  NoInputError | VersionError | HeaderTooShort | OptionsError | BadChecksum | TimeExpired | FragmentOffsetOne
  | TooShort | BadLength

fun input_error_code :: "ip_input_error \<Rightarrow> u16" where
  "input_error_code NoInputError = 0"
| "input_error_code VersionError = 1"
| "input_error_code HeaderTooShort = 2"
| "input_error_code OptionsError = 3"
| "input_error_code BadChecksum = 4"
| "input_error_code TimeExpired = 5"
| "input_error_code FragmentOffsetOne = 6"
| "input_error_code TooShort = 7"
| "input_error_code BadLength = 8"

datatype ip_version = IpV4 | IpV6

definition ip_protocol_from_u8 :: "u8 \<Rightarrow> ip_protocol" where
  "ip_protocol_from_u8 value =
     (if value = 1 then Icmpv4 else if value = 6 then Tcp else if value = 17 then Udp
      else if value = 58 then Icmpv6 else Other value)"

fun ip_protocol_to_u8 :: "ip_protocol \<Rightarrow> u8" where
  "ip_protocol_to_u8 Icmpv4 = 1"
| "ip_protocol_to_u8 Tcp = 6"
| "ip_protocol_to_u8 Udp = 17"
| "ip_protocol_to_u8 Icmpv6 = 58"
| "ip_protocol_to_u8 (Other value) = value"

datatype ip_ecn_codepoint = IpNotEct | IpEct1 | IpEct0 | IpCe

fun ip_ecn_to_u8 :: "ip_ecn_codepoint \<Rightarrow> u8" where
  "ip_ecn_to_u8 IpNotEct = 0"
| "ip_ecn_to_u8 IpEct1 = 1"
| "ip_ecn_to_u8 IpEct0 = 2"
| "ip_ecn_to_u8 IpCe = 3"

definition ip_ecn_from_u8 :: "u8 \<Rightarrow> ip_ecn_codepoint" where
  "ip_ecn_from_u8 value = (if value = 1 then IpEct1 else if value = 2 then IpEct0 else if value = 3 then IpCe else IpNotEct)"

subsection \<open>Fragment keys\<close>

datatype ip_fragment_key =
    FragmentV4 (frag_source4: u32) (frag_destination4: u32) (frag_protocol: u8) (frag_identification4: u16)
  | FragmentV6 (frag_source6: "128 word") (frag_destination6: "128 word") (frag_next_header: u8) (frag_identification6: u32)

definition fragment_key_default :: ip_fragment_key where
  "fragment_key_default = FragmentV4 0 0 0 0"

fun fragment_key_hash :: "ip_fragment_key \<Rightarrow> u64" where
  "fragment_key_hash (FragmentV4 source destination protocol identification) =
     (let packed = push_bit 96 (ucast source) OR push_bit 64 (ucast destination) OR push_bit 48 (ucast protocol)
            OR (ucast identification :: 128 word)
      in splitmix64 (ucast (packed XOR drop_bit 64 packed)))"
| "fragment_key_hash (FragmentV6 source destination next_header identification) =
     hash_words [fold_u128 source, fold_u128 destination, ucast next_header, ucast identification]"

subsection \<open>The IPv4 header\<close>

record ipv4_header =
  v4_version_ihl :: u8
  v4_dscp_ecn :: u8
  v4_total_len :: "u8 list"
  v4_identification :: "u8 list"
  v4_flags_fragment :: "u8 list"
  v4_ttl :: u8
  v4_protocol :: u8
  v4_checksum :: "u8 list"
  v4_source :: "u8 list"
  v4_destination :: "u8 list"

text \<open>\<open>ref_from_prefix\<close> and \<open>mut_from_prefix\<close>: the struct at the front of a slice and the rest of it;
  \<open>as_bytes\<close> is the memory of the struct.\<close>

definition ipv4_from_prefix :: "u8 list \<Rightarrow> (ipv4_header \<times> u8 list) option" where
  "ipv4_from_prefix bs =
     (if length bs < 20 then None
      else Some (\<lparr>v4_version_ihl = bs ! 0, v4_dscp_ecn = bs ! 1, v4_total_len = take 2 (drop 2 bs),
                  v4_identification = take 2 (drop 4 bs), v4_flags_fragment = take 2 (drop 6 bs), v4_ttl = bs ! 8,
                  v4_protocol = bs ! 9, v4_checksum = take 2 (drop 10 bs), v4_source = take 4 (drop 12 bs),
                  v4_destination = take 4 (drop 16 bs)\<rparr>, drop 20 bs))"

definition ipv4_as_bytes :: "ipv4_header \<Rightarrow> u8 list" where
  "ipv4_as_bytes h =
     [v4_version_ihl h, v4_dscp_ecn h] @ v4_total_len h @ v4_identification h @ v4_flags_fragment h @
     [v4_ttl h, v4_protocol h] @ v4_checksum h @ v4_source h @ v4_destination h"

definition ipv4_version :: "ipv4_header \<Rightarrow> u8" where
  "ipv4_version h = drop_bit 4 (v4_version_ihl h)"

definition ipv4_header_len :: "ipv4_header \<Rightarrow> usize" where
  "ipv4_header_len h = unat (v4_version_ihl h AND 0x0f) * 4"

definition ipv4_total_len :: "ipv4_header \<Rightarrow> usize" where
  "ipv4_total_len h = unat (from_be_bytes (v4_total_len h) :: u16)"

definition ipv4_identification :: "ipv4_header \<Rightarrow> u16" where
  "ipv4_identification h = from_be_bytes (v4_identification h)"

definition ipv4_flags_fragment :: "ipv4_header \<Rightarrow> u16" where
  "ipv4_flags_fragment h = from_be_bytes (v4_flags_fragment h)"

definition ipv4_dont_fragment :: "ipv4_header \<Rightarrow> bool" where
  "ipv4_dont_fragment h \<longleftrightarrow> ipv4_flags_fragment h AND IPV4_FLAG_DONT_FRAGMENT \<noteq> 0"

definition ipv4_set_ttl :: "u8 \<Rightarrow> ipv4_header \<Rightarrow> ipv4_header" where
  "ipv4_set_ttl ttl h = h\<lparr>v4_ttl := ttl\<rparr>"

definition ipv4_set_identification :: "u16 \<Rightarrow> ipv4_header \<Rightarrow> ipv4_header" where
  "ipv4_set_identification identification h = h\<lparr>v4_identification := to_be_bytes 2 identification\<rparr>"

definition ipv4_swap_addresses :: "ipv4_header \<Rightarrow> ipv4_header" where
  "ipv4_swap_addresses h = h\<lparr>v4_source := v4_destination h, v4_destination := v4_source h\<rparr>"

definition ipv4_source :: "ipv4_header \<Rightarrow> u32" where
  "ipv4_source h = from_be_bytes (v4_source h)"

definition ipv4_destination :: "ipv4_header \<Rightarrow> u32" where
  "ipv4_destination h = from_be_bytes (v4_destination h)"

definition ipv4_set_total_len :: "u16 \<Rightarrow> ipv4_header \<Rightarrow> ipv4_header" where
  "ipv4_set_total_len total_len h = h\<lparr>v4_total_len := to_be_bytes 2 total_len\<rparr>"

definition ipv4_set_flags_fragment :: "u16 \<Rightarrow> ipv4_header \<Rightarrow> ipv4_header" where
  "ipv4_set_flags_fragment flags_fragment h = h\<lparr>v4_flags_fragment := to_be_bytes 2 flags_fragment\<rparr>"

definition ipv4_set_checksum :: "u16 \<Rightarrow> ipv4_header \<Rightarrow> ipv4_header" where
  "ipv4_set_checksum checksum h = h\<lparr>v4_checksum := to_be_bytes 2 checksum\<rparr>"

subsection \<open>The IPv6 headers\<close>

record ipv6_header =
  v6_version_traffic_flow :: "u8 list"
  v6_payload_len :: "u8 list"
  v6_next_header :: u8
  v6_hop_limit :: u8
  v6_source :: "u8 list"
  v6_destination :: "u8 list"

definition ipv6_from_prefix :: "u8 list \<Rightarrow> (ipv6_header \<times> u8 list) option" where
  "ipv6_from_prefix bs =
     (if length bs < 40 then None
      else Some (\<lparr>v6_version_traffic_flow = take 4 bs, v6_payload_len = take 2 (drop 4 bs), v6_next_header = bs ! 6,
                  v6_hop_limit = bs ! 7, v6_source = take 16 (drop 8 bs), v6_destination = take 16 (drop 24 bs)\<rparr>,
                 drop 40 bs))"

definition ipv6_as_bytes :: "ipv6_header \<Rightarrow> u8 list" where
  "ipv6_as_bytes h =
     v6_version_traffic_flow h @ v6_payload_len h @ [v6_next_header h, v6_hop_limit h] @ v6_source h @ v6_destination h"

definition ipv6_version :: "ipv6_header \<Rightarrow> u8" where
  "ipv6_version h = drop_bit 4 (v6_version_traffic_flow h ! 0)"

definition ipv6_payload_len :: "ipv6_header \<Rightarrow> usize" where
  "ipv6_payload_len h = unat (from_be_bytes (v6_payload_len h) :: u16)"

definition ipv6_set_hop_limit :: "u8 \<Rightarrow> ipv6_header \<Rightarrow> ipv6_header" where
  "ipv6_set_hop_limit hop_limit h = h\<lparr>v6_hop_limit := hop_limit\<rparr>"

definition ipv6_swap_addresses :: "ipv6_header \<Rightarrow> ipv6_header" where
  "ipv6_swap_addresses h = h\<lparr>v6_source := v6_destination h, v6_destination := v6_source h\<rparr>"

definition ipv6_flow_label :: "ipv6_header \<Rightarrow> u32" where
  "ipv6_flow_label h = from_be_bytes (v6_version_traffic_flow h) AND 0x000fffff"

definition ipv6_source :: "ipv6_header \<Rightarrow> 128 word" where
  "ipv6_source h = from_be_bytes (v6_source h)"

definition ipv6_destination :: "ipv6_header \<Rightarrow> 128 word" where
  "ipv6_destination h = from_be_bytes (v6_destination h)"

definition ipv6_set_payload_len :: "u16 \<Rightarrow> ipv6_header \<Rightarrow> ipv6_header" where
  "ipv6_set_payload_len payload_len h = h\<lparr>v6_payload_len := to_be_bytes 2 payload_len\<rparr>"

definition ipv6_set_next_protocol :: "u8 \<Rightarrow> ipv6_header \<Rightarrow> ipv6_header" where
  "ipv6_set_next_protocol protocol h = h\<lparr>v6_next_header := protocol\<rparr>"

record ipv6_fragment_header =
  fr_next_header :: u8
  fr_reserved :: u8
  fr_offset_more :: "u8 list"
  fr_identification :: "u8 list"

definition fragment_from_prefix :: "u8 list \<Rightarrow> (ipv6_fragment_header \<times> u8 list) option" where
  "fragment_from_prefix bs =
     (if length bs < 8 then None
      else Some (\<lparr>fr_next_header = bs ! 0, fr_reserved = bs ! 1, fr_offset_more = take 2 (drop 2 bs),
                  fr_identification = take 4 (drop 4 bs)\<rparr>, drop 8 bs))"

definition fragment_offset_more :: "ipv6_fragment_header \<Rightarrow> u16" where
  "fragment_offset_more h = from_be_bytes (fr_offset_more h)"

definition fragment_identification :: "ipv6_fragment_header \<Rightarrow> u32" where
  "fragment_identification h = from_be_bytes (fr_identification h)"

subsection \<open>Operations on raw headers\<close>

definition read_ipv4_flags_fragment :: "u8 list \<Rightarrow> u16 option" where
  "read_ipv4_flags_fragment header = do { (h, _) \<leftarrow> ipv4_from_prefix header; Some (ipv4_flags_fragment h) }"

definition apply_ipv4_dont_fragment :: "bool \<Rightarrow> u8 list \<Rightarrow> u8 list" where
  "apply_ipv4_dont_fragment enabled output =
     (case ipv4_from_prefix output of
        None \<Rightarrow> output
      | Some (h, rest) \<Rightarrow>
          let flags = (from_be_bytes (v4_flags_fragment h) :: u16);
              flags = (if enabled then flags OR IPV4_FLAG_DONT_FRAGMENT else flags AND NOT IPV4_FLAG_DONT_FRAGMENT)
          in ipv4_as_bytes (h\<lparr>v4_flags_fragment := to_be_bytes 2 flags\<rparr>) @ rest)"

text \<open>\<open>le\<close> and \<open>arch\<close> are the byte order of the target and the processor \<open>internet_checksum\<close> dispatches on.\<close>

definition write_ipv4_push_header ::
  "bool \<Rightarrow> target_arch \<Rightarrow> u32 \<Rightarrow> u32 \<Rightarrow> u8 \<Rightarrow> u16 \<Rightarrow> bool \<Rightarrow> u8 list \<Rightarrow> ip_input_error + u8 list" where
  "write_ipv4_push_header le arch src dst protocol total_len dont_fragment output =
     (case ipv4_from_prefix output of
        None \<Rightarrow> Inl HeaderTooShort
      | Some (h, rest) \<Rightarrow>
          let h = h\<lparr>v4_version_ihl := 0x45, v4_dscp_ecn := 0, v4_total_len := to_be_bytes 2 total_len,
                    v4_identification := [0, 0],
                    v4_flags_fragment := (if dont_fragment then to_be_bytes 2 IPV4_FLAG_DONT_FRAGMENT else [0, 0]),
                    v4_ttl := 255, v4_protocol := protocol, v4_checksum := [0, 0],
                    v4_source := to_be_bytes 4 src, v4_destination := to_be_bytes 4 dst\<rparr>;
              checksum = internet_checksum le arch (ipv4_as_bytes h);
              h = h\<lparr>v4_checksum := to_be_bytes 2 checksum\<rparr>
          in Inr (ipv4_as_bytes h @ rest))"

definition write_ipv6_push_header ::
  "128 word \<Rightarrow> 128 word \<Rightarrow> u8 \<Rightarrow> u16 \<Rightarrow> u8 list \<Rightarrow> ip_input_error + u8 list" where
  "write_ipv6_push_header src dst next_header payload_len output =
     (case ipv6_from_prefix output of
        None \<Rightarrow> Inl HeaderTooShort
      | Some (h, rest) \<Rightarrow>
          Inr (ipv6_as_bytes (h\<lparr>v6_version_traffic_flow := [0x60, 0, 0, 0], v6_payload_len := to_be_bytes 2 payload_len,
                 v6_next_header := next_header, v6_hop_limit := 255, v6_source := to_be_bytes 16 src,
                 v6_destination := to_be_bytes 16 dst\<rparr>) @ rest))"

datatype ipv4_mtu_action = MtuOk | Fragment u16 | IcmpFragNeeded u16

definition ipv4_mtu_check :: "u16 \<Rightarrow> u16 \<Rightarrow> bool \<Rightarrow> ipv4_mtu_action" where
  "ipv4_mtu_check packet_len adj_packet_bytes dont_fragment =
     (if packet_len \<le> adj_packet_bytes then MtuOk
      else if dont_fragment then IcmpFragNeeded adj_packet_bytes
      else Fragment adj_packet_bytes)"

subsection \<open>ICMP error requests\<close>

datatype icmp_error_family = FamilyIpv4 | FamilyIpv6

text \<open>A request is one non-zero 64-bit word; \<open>NonZeroU64::new\<close> fails on zero, which \<open>expect\<close> makes a panic.\<close>

definition icmp_metadata_new :: "icmp_error_family \<Rightarrow> u8 \<Rightarrow> u8 \<Rightarrow> u32 \<Rightarrow> u64 option" where
  "icmp_metadata_new family icmp_type code data =
     (let family = (case family of FamilyIpv4 \<Rightarrow> 4 | FamilyIpv6 \<Rightarrow> 6);
          packed = push_bit 63 1 OR push_bit 48 family OR push_bit 40 (ucast icmp_type) OR push_bit 32 (ucast code)
            OR ucast data
      in if packed = 0 then None else Some packed)"

definition ipv4_time_exceeded :: "u64 option" where
  "ipv4_time_exceeded = icmp_metadata_new FamilyIpv4 11 0 0"

definition ipv4_destination_unreachable :: "u8 \<Rightarrow> u32 \<Rightarrow> u64 option" where
  "ipv4_destination_unreachable code data = icmp_metadata_new FamilyIpv4 3 code data"

definition ipv6_time_exceeded :: "u64 option" where
  "ipv6_time_exceeded = icmp_metadata_new FamilyIpv6 3 0 0"

definition ipv6_packet_too_big :: "u32 \<Rightarrow> u64 option" where
  "ipv6_packet_too_big mtu = icmp_metadata_new FamilyIpv6 2 0 mtu"

definition ipv6_port_unreachable :: "u64 option" where
  "ipv6_port_unreachable = icmp_metadata_new FamilyIpv6 1 4 0"

definition icmp_family :: "u64 \<Rightarrow> icmp_error_family option" where
  "icmp_family m =
     (let f = drop_bit 48 m AND 0xff in if f = 4 then Some FamilyIpv4 else if f = 6 then Some FamilyIpv6 else None)"

definition icmp_type :: "u64 \<Rightarrow> u8" where
  "icmp_type m = ucast (drop_bit 40 m AND 0xff)"

definition icmp_code :: "u64 \<Rightarrow> u8" where
  "icmp_code m = ucast (drop_bit 32 m AND 0xff)"

definition icmp_data :: "u64 \<Rightarrow> u32" where
  "icmp_data m = ucast m"

text \<open>The secondary opaque area of a buffer: the words lookup owns, and the request in the last one.\<close>

record 'l ip_secondary_opaque =
  so_lookup :: 'l
  so_icmp_error :: u64

definition icmp_metadata_write :: "u64 \<Rightarrow> 'l ip_secondary_opaque \<Rightarrow> 'l ip_secondary_opaque" where
  "icmp_metadata_write m opaque = opaque\<lparr>so_icmp_error := m\<rparr>"

definition icmp_metadata_read :: "'l ip_secondary_opaque \<Rightarrow> u64 option" where
  "icmp_metadata_read opaque =
     (let value = so_icmp_error opaque in
      if drop_bit 63 value = 0 \<or> \<not> (drop_bit 48 value AND 0xff = 4 \<or> drop_bit 48 value AND 0xff = 6) then None
      else if value = 0 then None else Some value)"

definition icmp_metadata_clear :: "'l ip_secondary_opaque \<Rightarrow> 'l ip_secondary_opaque" where
  "icmp_metadata_clear opaque = opaque\<lparr>so_icmp_error := 0\<rparr>"


subsection \<open>Reading back what was written\<close>

lemma to_be_bytes_2: "to_be_bytes 2 v = [ucast (drop_bit 8 v), ucast (v :: u16)]"
  by (simp add: numeral_2_eq_2)

lemma from_be_bytes_2: "from_be_bytes [a, b] = u16_from_be a b"
  by (simp add: from_be_bytes_def u16_from_be_def)

definition ipv4_shape :: "ipv4_header \<Rightarrow> bool" where
  "ipv4_shape h \<longleftrightarrow> length (v4_total_len h) = 2 \<and> length (v4_identification h) = 2 \<and> length (v4_flags_fragment h) = 2 \<and>
     length (v4_checksum h) = 2 \<and> length (v4_source h) = 4 \<and> length (v4_destination h) = 4"

lemma list_of_2: "length xs = 2 \<longleftrightarrow> (\<exists>a b. xs = [a, b])"
  by (auto simp: numeral_2_eq_2 length_Suc_conv)

lemma list_of_4: "length xs = 4 \<longleftrightarrow> (\<exists>a b c d. xs = [a, b, c, d])"
  by (auto simp: eval_nat_numeral length_Suc_conv)

lemma ipv4_prefix_shape: "ipv4_from_prefix bs = Some (h, rest) \<Longrightarrow> ipv4_shape h"
  by (auto simp: ipv4_from_prefix_def ipv4_shape_def split: if_splits)

lemma ipv4_prefix_as_bytes: "ipv4_shape h \<Longrightarrow> ipv4_from_prefix (ipv4_as_bytes h @ rest) = Some (h, rest)"
  by (auto simp: ipv4_shape_def list_of_2 list_of_4 ipv4_as_bytes_def ipv4_from_prefix_def)

lemma length_ipv4_as_bytes: "ipv4_shape h \<Longrightarrow> length (ipv4_as_bytes h) = 20"
  by (simp add: ipv4_shape_def ipv4_as_bytes_def)

lemma ipv4_prefix_Some: "20 \<le> length bs \<Longrightarrow> \<exists>h. ipv4_from_prefix bs = Some (h, drop 20 bs)"
  by (simp add: ipv4_from_prefix_def)

definition ipv6_shape :: "ipv6_header \<Rightarrow> bool" where
  "ipv6_shape h \<longleftrightarrow> length (v6_version_traffic_flow h) = 4 \<and> length (v6_payload_len h) = 2 \<and>
     length (v6_source h) = 16 \<and> length (v6_destination h) = 16"

lemma ipv6_prefix_as_bytes: "ipv6_shape h \<Longrightarrow> ipv6_from_prefix (ipv6_as_bytes h @ rest) = Some (h, rest)"
  by (auto simp: ipv6_shape_def list_of_2 list_of_4 ipv6_as_bytes_def ipv6_from_prefix_def)

lemma length_ipv6_as_bytes: "ipv6_shape h \<Longrightarrow> length (ipv6_as_bytes h) = 40"
  by (simp add: ipv6_shape_def ipv6_as_bytes_def)

text \<open>A checksum stored over zero bytes makes the checksum of the whole zero.\<close>

lemma unat_rfc1071: "unat (rfc1071_checksum bs) = 65535 - norm16 (word_sum bs)"
proof -
  have "unat (foldl ones_complement_add 0 (be_words bs)) = norm16 (word_sum bs)"
    by (simp add: foldl_ones_complement word_sum_def)
  moreover have "unat (NOT w) = 65535 - unat w" for w :: u16
  proof -
    have "NOT w = - 1 - w" by (simp add: not_eq_complement)
    then have "unat (NOT w) = unat (- 1 :: u16) - unat w" using unat_sub [of w "- 1"] by (simp add: word_order.extremum)
    then show ?thesis by (simp add: unsigned_minus_1_eq_mask mask_eq_exp_minus_1)
  qed
  ultimately show ?thesis by (simp add: rfc1071_checksum_def)
qed

lemma rfc1071_insert:
  assumes "even (length pre)"
  shows "rfc1071_checksum (pre @ to_be_bytes 2 (rfc1071_checksum (pre @ [0, 0] @ post)) @ post) = 0"
proof -
  let ?s = "word_sum pre + word_sum post"
  let ?c = "rfc1071_checksum (pre @ [0, 0] @ post)"
  have "word_sum (pre @ [0, 0] @ post) = ?s" using assms by (simp add: word_sum_append u16_from_be_def)
  then have c: "unat ?c = 65535 - norm16 ?s" by (simp only: unat_rfc1071)
  have "word_sum (pre @ to_be_bytes 2 ?c @ post) = ?s + unat ?c"
    using assms by (simp add: word_sum_append to_be_bytes_2)
  moreover have "norm16 (?s + unat ?c) = 65535"
  proof -
    have "(?s + unat ?c) mod 65535 = (norm16 ?s + unat ?c) mod 65535" by (metis mod_add_left_eq norm16_mod)
    also have "norm16 ?s + unat ?c = 65535" using c norm16_less [of ?s] by simp
    finally have "(?s + unat ?c) mod 65535 = 0" by simp
    moreover have "?s + unat ?c \<noteq> 0" using c by (auto simp: norm16_def)
    ultimately have "norm16 (?s + unat ?c) = norm16 65535" by (intro norm16_cong) simp_all
    then show ?thesis by (simp add: norm16_def)
  qed
  ultimately have "unat (rfc1071_checksum (pre @ to_be_bytes 2 ?c @ post)) = 0" by (simp only: unat_rfc1071)
  then show ?thesis by (simp only: unat_eq_zero)
qed

subsection \<open>The packed ICMP request\<close>

lemma and_ff: "w AND 0xff = take_bit 8 (w :: u64)"
  by (simp add: take_bit_eq_mask mask_eq_exp_minus_1)

lemma icmp_new_Some: "\<exists>m. icmp_metadata_new family t c d = Some m"
proof -
  have "push_bit 63 1 OR x \<noteq> (0 :: u64)" for x by (simp add: bit_eq_iff [of _ 0] bit_simps) (auto intro: exI [of _ 63])
  then show ?thesis by (simp add: icmp_metadata_new_def Let_def del: push_bit_of_1)
qed

lemma bit_beyond: "LENGTH('a) \<le> k \<Longrightarrow> \<not> bit (w :: 'a::len word) k"
  using bit_imp_le_length leD by blast

lemma icmp_fields:
  assumes "icmp_metadata_new family t c d = Some m"
  shows "bit m 63" "take_bit 8 (drop_bit 48 m) = (case family of FamilyIpv4 \<Rightarrow> 4 | FamilyIpv6 \<Rightarrow> 6)"
    "ucast (take_bit 8 (drop_bit 40 m)) = t" "ucast (take_bit 8 (drop_bit 32 m)) = c" "ucast m = d"
proof -
  define f :: u64 where "f = (case family of FamilyIpv4 \<Rightarrow> 4 | FamilyIpv6 \<Rightarrow> 6)"
  define top :: u64 where "top = push_bit 63 1"
  have top: "bit top n \<longleftrightarrow> n = 63" for n unfolding top_def by (auto simp only: bit_push_bit_iff bit_1_iff; simp)
  have "take_bit 8 f = f" by (simp add: f_def split: icmp_error_family.split)
  then have f: "bit f n \<Longrightarrow> n < 8" for n by (metis bit_take_bit_iff)
  have m: "m = top OR push_bit 48 f OR push_bit 40 (ucast t) OR push_bit 32 (ucast c) OR ucast d"
    using assms by (auto simp: icmp_metadata_new_def Let_def f_def top_def split: if_splits)
  note B = m bit_simps bit_beyond top
  show "bit m 63" by (simp add: B)
  show "take_bit 8 (drop_bit 48 m) = (case family of FamilyIpv4 \<Rightarrow> 4 | FamilyIpv6 \<Rightarrow> 6)"
    unfolding f_def [symmetric] by (rule bit_word_eqI) (auto simp: B dest: f)
  show "ucast (take_bit 8 (drop_bit 40 m)) = t" by (rule bit_word_eqI) (simp add: B)
  show "ucast (take_bit 8 (drop_bit 32 m)) = c" by (rule bit_word_eqI) (simp add: B)
  show "ucast m = d" by (rule bit_word_eqI) (simp add: B)
qed

lemma icmp_read_written:
  assumes "icmp_metadata_new family t c d = Some m"
  shows "icmp_metadata_read (icmp_metadata_write m opaque) = Some m"
proof -
  note F = icmp_fields [OF assms]
  have "m \<noteq> 0" "drop_bit 63 m \<noteq> 0" using F(1) by (auto simp: bit_eq_iff [of "drop_bit 63 m" 0] bit_simps intro!: exI [of _ 0])
  then show ?thesis using F(2) by (cases family) (simp_all add: icmp_metadata_read_def icmp_metadata_write_def Let_def and_ff)
qed

text \<open>
  C40. An ICMP error request packs into one non-zero word without panicking and every field is read back from
  it; stored in a buffer's secondary opaque area it is found again, the words lookup owns stay as they are, and
  after \<open>clear\<close> nothing is found.
\<close>
theorem icmp_metadata_roundtrip:
  "\<exists>m. icmp_metadata_new family t c d = Some m \<and>
     icmp_family m = Some family \<and> icmp_type m = t \<and> icmp_code m = c \<and> icmp_data m = d \<and>
     icmp_metadata_read (icmp_metadata_write m opaque) = Some m \<and>
     so_lookup (icmp_metadata_write m opaque) = so_lookup opaque \<and>
     icmp_metadata_read (icmp_metadata_clear (icmp_metadata_write m opaque)) = None"
proof -
  obtain m where m: "icmp_metadata_new family t c d = Some m" using icmp_new_Some by blast
  have "so_lookup (icmp_metadata_write m opaque) = so_lookup opaque"
    "icmp_metadata_read (icmp_metadata_clear (icmp_metadata_write m opaque)) = None"
    by (simp_all add: icmp_metadata_read_def icmp_metadata_write_def icmp_metadata_clear_def)
  then show ?thesis using m icmp_fields(2-5) [OF m] icmp_read_written [OF m]
    by (cases family) (simp_all add: icmp_family_def icmp_type_def icmp_code_def icmp_data_def Let_def and_ff)
qed

end
