(* ===== verification/IpInput.thy ===== *)
theory IpInput
  imports IpHeader
begin

text \<open>
  The IP input nodes of \<open>src/crates/hammer-plugins/net/ip/src/input.rs\<close>: the classification of a packet, what
  \<open>ip4-input\<close> and \<open>ip6-input\<close> do with one buffer, the four- and two-way unrolled frame loop and the error
  accounting; and the network part of a buffer's opaque area (\<open>src/crates/hammer-service/src/opaque.rs\<close>) in which
  the nodes leave the packet cursor.  The runtime is the buffers by index and the error counters.  A panic is
  \<open>None\<close>.  The feature arcs of an interface, configured elsewhere, are an argument.
\<close>

subsection \<open>The network opaque area\<close>

record network_ip_opaque =
  ni_packet_len :: u32
  ni_network_header_len :: u16
  ni_transport_header_len :: u16
  ni_transport_payload_offset :: u16
  ni_ip_version :: u8
  ni_ip_protocol :: u8
  ni_ip_ecn :: u8
  ni_ip_ecn_valid :: u8
  ni_fib_index :: u32
  ni_rx_sw_if_index :: u32
  ni_reserved :: "u8 list"

definition set_fib_index_override :: "u32 option \<Rightarrow> network_ip_opaque \<Rightarrow> network_ip_opaque" where
  "set_fib_index_override index ip =
     ip\<lparr>ni_reserved := to_le_bytes 4 (case index of None \<Rightarrow> - 1 | Some i \<Rightarrow> i)\<rparr>"

definition fib_index_override :: "network_ip_opaque \<Rightarrow> u32 option" where
  "fib_index_override ip =
     (let index = from_le_bytes (ni_reserved ip) in if index \<noteq> - 1 then Some index else None)"

definition network_ip_default :: network_ip_opaque where
  "network_ip_default = set_fib_index_override None
     \<lparr>ni_packet_len = 0, ni_network_header_len = 0, ni_transport_header_len = 0, ni_transport_payload_offset = 0,
      ni_ip_version = 0, ni_ip_protocol = 0, ni_ip_ecn = 0, ni_ip_ecn_valid = 0, ni_fib_index = - 1,
      ni_rx_sw_if_index = - 1, ni_reserved = [0, 0, 0, 0]\<rparr>"

definition ip_version_of :: "network_ip_opaque \<Rightarrow> u8 option" where
  "ip_version_of ip = (if ni_ip_version ip \<noteq> 0 then Some (ni_ip_version ip) else None)"

definition set_ip_version :: "u8 option \<Rightarrow> network_ip_opaque \<Rightarrow> network_ip_opaque" where
  "set_ip_version v ip = ip\<lparr>ni_ip_version := (case v of None \<Rightarrow> 0 | Some v \<Rightarrow> v)\<rparr>"

definition ip_protocol_of :: "network_ip_opaque \<Rightarrow> u8 option" where
  "ip_protocol_of ip = (if ni_ip_protocol ip \<noteq> 0 then Some (ni_ip_protocol ip) else None)"

definition set_ip_protocol :: "u8 option \<Rightarrow> network_ip_opaque \<Rightarrow> network_ip_opaque" where
  "set_ip_protocol p ip = ip\<lparr>ni_ip_protocol := (case p of None \<Rightarrow> 0 | Some p \<Rightarrow> p)\<rparr>"

definition ip_ecn_of :: "network_ip_opaque \<Rightarrow> u8 option" where
  "ip_ecn_of ip = (if ni_ip_ecn_valid ip \<noteq> 0 then Some (ni_ip_ecn ip) else None)"

definition set_ip_ecn :: "u8 option \<Rightarrow> network_ip_opaque \<Rightarrow> network_ip_opaque" where
  "set_ip_ecn ecn ip =
     (case ecn of
        Some value \<Rightarrow> ip\<lparr>ni_ip_ecn := value, ni_ip_ecn_valid := 1\<rparr>
      | None \<Rightarrow> ip\<lparr>ni_ip_ecn := 0, ni_ip_ecn_valid := 0\<rparr>)"

definition fib_index_of :: "network_ip_opaque \<Rightarrow> u32 option" where
  "fib_index_of ip = (if ni_fib_index ip \<noteq> - 1 then Some (ni_fib_index ip) else None)"

definition set_fib_index :: "u32 option \<Rightarrow> network_ip_opaque \<Rightarrow> network_ip_opaque" where
  "set_fib_index index ip = ip\<lparr>ni_fib_index := (case index of None \<Rightarrow> - 1 | Some i \<Rightarrow> i)\<rparr>"

record network_opaque =
  no_sw_if_index :: "u32 \<times> u32"
  no_l3_hdr_offset :: "16 word"
  no_oflags :: u8
  no_flags :: u8
  no_ip :: network_ip_opaque

definition network_opaque_default :: network_opaque where
  "network_opaque_default =
     \<lparr>no_sw_if_index = (- 1, - 1), no_l3_hdr_offset = 0, no_oflags = 0, no_flags = 0, no_ip = network_ip_default\<rparr>"

text \<open>The level 3 offset is a signed 16-bit number.\<close>

definition network_packet_cursor :: "network_opaque \<Rightarrow> packet_cursor option" where
  "network_packet_cursor n =
     (let ip = no_ip n; payload = unat (ni_transport_payload_offset ip); hl = unat (ni_transport_header_len ip) in
      do { c \<leftarrow> with_packet_len cursor_new (unat (ni_packet_len ip));
           c \<leftarrow> with_network_header c (nat (max 0 (sint (no_l3_hdr_offset n)))) (unat (ni_network_header_len ip));
           c \<leftarrow> with_transport_header c (payload - hl) hl;
           with_transport_payload_offset c payload })"

definition set_packet_cursor :: "packet_cursor \<Rightarrow> network_opaque \<Rightarrow> network_opaque option" where
  "set_packet_cursor c n =
     (if network_header_offset c < 2 ^ 15 \<and> cursor_packet_len c < 2 ^ 32 \<and> network_header_len c < 2 ^ 16 \<and>
         transport_header_len c < 2 ^ 16 \<and> transport_payload_offset c < 2 ^ 16
      then Some (n\<lparr>no_l3_hdr_offset := of_nat (network_header_offset c),
                   no_ip := (no_ip n)\<lparr>ni_packet_len := of_nat (cursor_packet_len c),
                     ni_network_header_len := of_nat (network_header_len c),
                     ni_transport_header_len := of_nat (transport_header_len c),
                     ni_transport_payload_offset := of_nat (transport_payload_offset c)\<rparr>\<rparr>)
      else None)"

subsection \<open>Classification\<close>

definition ipv4_is_multicast :: "u32 \<Rightarrow> bool" where
  "ipv4_is_multicast a \<longleftrightarrow> 224 \<le> drop_bit 24 a \<and> drop_bit 24 a \<le> 239"

definition ipv6_is_multicast :: "128 word \<Rightarrow> bool" where
  "ipv6_is_multicast a \<longleftrightarrow> drop_bit 120 a = 0xff"

type_synonym classification = "ip_protocol \<times> ip_input_target \<times> ip_input_error \<times> usize \<times> usize \<times> usize"

definition ipv4_input_error :: "bool \<Rightarrow> target_arch \<Rightarrow> u8 list \<Rightarrow> ipv4_header \<Rightarrow> usize \<Rightarrow> ip_input_error" where
  "ipv4_input_error le arch packet h chain_len =
     (let header_len = ipv4_header_len h;
          packet_len = ipv4_total_len h;
          fragment_offset = ipv4_flags_fragment h AND IPV4_FRAGMENT_OFFSET_MASK;
          checksum_bad = (internet_checksum le arch (take header_len packet) \<noteq> 0);
          error = (if header_len \<noteq> IPV4_HEADER_MIN_LEN then OptionsError else NoInputError);
          error = (if checksum_bad then BadChecksum else error);
          error = (if v4_ttl h < 1 then TimeExpired else error);
          error = (if fragment_offset = 1 then FragmentOffsetOne else error);
          error = (if packet_len < IPV4_HEADER_MIN_LEN then TooShort else error);
          error = (if chain_len < packet_len \<or> packet_len < header_len then BadLength else error)
      in error)"

definition ipv4_input_target :: "ipv4_header \<Rightarrow> ip_input_error \<Rightarrow> ip_input_target" where
  "ipv4_input_target h error =
     (case error of
        TimeExpired \<Rightarrow> IcmpErrorTarget
      | OptionsError \<Rightarrow> OptionsTarget
      | NoInputError \<Rightarrow>
          if ipv4_flags_fragment h AND (IPV4_FLAG_MORE_FRAGMENTS OR IPV4_FRAGMENT_OFFSET_MASK) \<noteq> 0 then ReassemblyTarget
          else if ipv4_is_multicast (ipv4_destination h) then LookupMulticastTarget
          else LookupTarget
      | _ \<Rightarrow> DropTarget)"

definition classify_ipv4_input :: "bool \<Rightarrow> target_arch \<Rightarrow> u8 list \<Rightarrow> usize \<Rightarrow> ip_input_error + classification" where
  "classify_ipv4_input le arch packet chain_len =
     (case ipv4_from_prefix packet of
        None \<Rightarrow> Inl HeaderTooShort
      | Some (h, _) \<Rightarrow>
          let header_len = ipv4_header_len h in
          if ipv4_version h \<noteq> 4 then Inl VersionError
          else if header_len < IPV4_HEADER_MIN_LEN \<or> length packet < header_len then Inl HeaderTooShort
          else let error = ipv4_input_error le arch packet h chain_len;
                   target = ipv4_input_target h error
               in Inr (ip_protocol_from_u8 (v4_protocol h), target, error, ipv4_total_len h, header_len, header_len))"

definition classify_ipv6_input :: "u8 list \<Rightarrow> ip_input_error + classification" where
  "classify_ipv6_input packet =
     (case ipv6_from_prefix packet of
        None \<Rightarrow> Inl HeaderTooShort
      | Some (h, _) \<Rightarrow>
          if ipv6_version h \<noteq> 6 then Inl VersionError
          else let payload_len = ipv6_payload_len h in
               case checked_add IPV6_HEADER_LEN payload_len of
                 None \<Rightarrow> Inl BadLength
               | Some packet_len \<Rightarrow>
                   let result = (\<lambda>(protocol, target, error, transport_offset).
                         (ip_protocol_from_u8 protocol, target, error, packet_len, IPV6_HEADER_LEN, transport_offset))
                   in if v6_next_header h = IPV6_NEXT_HEADER_FRAGMENT then
                        if payload_len < IPV6_FRAGMENT_HEADER_LEN then Inl HeaderTooShort
                        else case fragment_from_prefix (drop IPV6_HEADER_LEN packet) of
                               None \<Rightarrow> Inl HeaderTooShort
                             | Some (fragment, _) \<Rightarrow>
                                 Inr (result (fr_next_header fragment,
                                   if v6_hop_limit h < 1 then IcmpErrorTarget else ReassemblyTarget,
                                   if v6_hop_limit h < 1 then TimeExpired else NoInputError,
                                   IPV6_HEADER_LEN + IPV6_FRAGMENT_HEADER_LEN))
                      else if v6_hop_limit h < 1 then
                        Inr (result (v6_next_header h, IcmpErrorTarget, TimeExpired, IPV6_HEADER_LEN))
                      else if ipv6_is_multicast (ipv6_destination h) then
                        Inr (result (v6_next_header h, LookupMulticastTarget, NoInputError, IPV6_HEADER_LEN))
                      else Inr (result (v6_next_header h, LookupTarget, NoInputError, IPV6_HEADER_LEN)))"

definition ip_ecn_from_packet :: "u8 list \<Rightarrow> ip_version \<Rightarrow> ip_ecn_codepoint option" where
  "ip_ecn_from_packet packet version =
     do { traffic_class \<leftarrow>
            (case version of
               IpV4 \<Rightarrow> if 1 < length packet then Some (packet ! 1) else None
             | IpV6 \<Rightarrow> if 1 < length packet
                 then Some (push_bit 4 (packet ! 0 AND 0x0f) OR drop_bit 4 (packet ! 1)) else None);
          let e = traffic_class AND 0x03;
          if e = 0 then Some IpNotEct else if e = 1 then Some IpEct1 else if e = 2 then Some IpEct0
          else if e = 3 then Some IpCe else None }"

subsection \<open>One buffer\<close>

text \<open>The part of a \<open>Buffer\<close> the nodes read and write.\<close>

record 'l ip_buffer =
  b_current :: "u8 list"
  b_total_length_valid :: bool
  b_total_length_not_including_first :: u32
  b_error :: "u16 option"
  b_config_index :: u32
  b_network :: network_opaque
  b_secondary :: "'l ip_secondary_opaque"

definition total_len_not_including_first :: "'l ip_buffer \<Rightarrow> usize" where
  "total_len_not_including_first b =
     (if b_total_length_valid b then unat (b_total_length_not_including_first b) else 0)"

definition clear_node_error :: "'l ip_buffer \<Rightarrow> 'l ip_buffer" where
  "clear_node_error b = b\<lparr>b_error := None\<rparr>"

record 'l ip_runtime =
  rt_buffers :: "u32 \<rightharpoonup> 'l ip_buffer"
  rt_error_counters :: "u16 \<Rightarrow> u64"

text \<open>What the nodes find configured: the target, the FIB table of each interface, the feature arc of each
  version, the feature arcs and the error indices of the node.\<close>

record 'l ip_env =
  env_little_endian :: bool
  env_arch :: target_arch
  env_fib_index_by_sw_if_index :: "ip_version \<Rightarrow> u32 option list"
  env_unicast_feature_arc_index :: "ip_version \<Rightarrow> u8 option"
  env_start_feature_arc :: "u8 \<Rightarrow> u32 \<Rightarrow> 'l ip_buffer \<Rightarrow> u16 \<Rightarrow> (u16 \<times> 'l ip_buffer) option"
  env_node_error_index :: "u16 \<Rightarrow> u16 option"

definition fib_table_get_index_for_sw_if_index :: "'l ip_env \<Rightarrow> ip_version \<Rightarrow> u32 \<Rightarrow> u32 option" where
  "fib_table_get_index_for_sw_if_index env version sw_if_index =
     (let table = env_fib_index_by_sw_if_index env version in
      if unat sw_if_index < length table then table ! unat sw_if_index else None)"

datatype ip_input_next = NextDrop | NextPunt | NextOptions | NextLookup | NextIcmpError | NextReassembly

fun next_slot :: "ip_input_next \<Rightarrow> u16" where
  "next_slot NextDrop = 0"
| "next_slot NextPunt = 1"
| "next_slot NextOptions = 2"
| "next_slot NextLookup = 3"
| "next_slot NextIcmpError = 4"
| "next_slot NextReassembly = 5"

definition input_drop_slot :: "ip_version \<Rightarrow> u16" where
  "input_drop_slot version = next_slot NextDrop"

definition input_fallback_next :: "ip_version \<Rightarrow> ip_input_target \<Rightarrow> u16" where
  "input_fallback_next version target =
     (case target of
        DropTarget \<Rightarrow> input_drop_slot version
      | PuntTarget \<Rightarrow> next_slot NextPunt
      | OptionsTarget \<Rightarrow> next_slot NextOptions
      | LookupTarget \<Rightarrow> next_slot NextLookup
      | LookupMulticastTarget \<Rightarrow> (case version of IpV4 \<Rightarrow> next_slot NextPunt | IpV6 \<Rightarrow> next_slot NextLookup)
      | IcmpErrorTarget \<Rightarrow> next_slot NextIcmpError
      | ReassemblyTarget \<Rightarrow> next_slot NextReassembly)"

definition starts_unicast_arc :: "ip_version \<Rightarrow> ip_input_target \<Rightarrow> bool" where
  "starts_unicast_arc version target \<longleftrightarrow>
     target = LookupTarget \<or> version = IpV4 \<and> (target = LookupMulticastTarget \<or> target = ReassemblyTarget)"

definition input_metadata :: "'l ip_env \<Rightarrow> ip_version \<Rightarrow> classification \<Rightarrow> ip_ecn_codepoint option \<Rightarrow> 'l ip_buffer \<Rightarrow> 'l ip_buffer option" where
  "input_metadata env version cl ip_ecn b =
     (case cl of (protocol, target, error, packet_len, header_len, transport_offset) \<Rightarrow>
        do { let b = clear_node_error b;
             let sw_if_index = fst (no_sw_if_index (b_network b));
             c \<leftarrow> with_packet_len cursor_new packet_len;
             c \<leftarrow> with_network_header c 0 header_len;
             c \<leftarrow> with_transport_header c transport_offset 0;
             c \<leftarrow> with_transport_payload_offset c transport_offset;
             network \<leftarrow> set_packet_cursor c (b_network b);
             let ip = set_ip_ecn (map_option ip_ecn_to_u8 ip_ecn) (no_ip network);
             let ip = set_ip_version (Some (case version of IpV4 \<Rightarrow> 4 | IpV6 \<Rightarrow> 6)) ip;
             let ip = set_ip_protocol (Some (ip_protocol_to_u8 protocol)) ip;
             let ip = set_fib_index (fib_table_get_index_for_sw_if_index env version sw_if_index) ip;
             Some (b\<lparr>b_network := network\<lparr>no_ip := ip\<rparr>\<rparr>) })"

definition write_icmp_request :: "ip_version \<Rightarrow> ip_input_target \<Rightarrow> 'l ip_buffer \<Rightarrow> 'l ip_buffer option" where
  "write_icmp_request version target b =
     (if target = IcmpErrorTarget
      then do { metadata \<leftarrow> (case version of IpV4 \<Rightarrow> ipv4_time_exceeded | IpV6 \<Rightarrow> ipv6_time_exceeded);
                Some (b\<lparr>b_secondary := icmp_metadata_write metadata (b_secondary b)\<rparr>) }
      else Some b)"

definition process_input_packet ::
  "'l ip_env \<Rightarrow> ip_version \<Rightarrow> u32 \<Rightarrow> 'l ip_runtime \<Rightarrow> (u16 \<times> ip_input_error \<times> 'l ip_runtime) option" where
  "process_input_packet env version index rt =
     do { b \<leftarrow> rt_buffers rt index;
          let store = (\<lambda>b. rt\<lparr>rt_buffers := (rt_buffers rt)(index \<mapsto> b)\<rparr>);
          let classification =
            (case version of
               IpV4 \<Rightarrow> classify_ipv4_input (env_little_endian env) (env_arch env) (b_current b)
                          (length (b_current b) + total_len_not_including_first b)
             | IpV6 \<Rightarrow> classify_ipv6_input (b_current b));
          let ip_ecn = ip_ecn_from_packet (b_current b) version;
          case classification of
            Inl error \<Rightarrow> Some (input_drop_slot version, error, store (clear_node_error b))
          | Inr cl \<Rightarrow>
              do { let target = fst (snd cl);
                   let error = fst (snd (snd cl));
                   b \<leftarrow> input_metadata env version cl ip_ecn b;
                   b \<leftarrow> write_icmp_request version target b;
                   let fallback_next = input_fallback_next version target;
                   if starts_unicast_arc version target
                   then do { arc_index \<leftarrow> env_unicast_feature_arc_index env version;
                             (feature_next, b) \<leftarrow> env_start_feature_arc env arc_index
                                   (fst (no_sw_if_index (b_network b))) b (next_slot NextLookup);
                             Some (if feature_next = next_slot NextLookup then fallback_next else feature_next,
                                   error, store b) }
                   else Some (fallback_next, error, store b) } }"

subsection \<open>A frame\<close>

definition DEFAULT_BUFFER_FRAME_CAPACITY :: usize where
  "DEFAULT_BUFFER_FRAME_CAPACITY = 256"

record 'l frame_state =
  fs_runtime :: "'l ip_runtime"
  fs_nexts :: "u16 list"
  fs_errors :: "ip_input_error list"

text \<open>One call of \<open>process_input_packet\<close> in the loop: reads \<open>indices[offset]\<close> and writes \<open>nexts[offset]\<close> and
  \<open>errors[offset]\<close>, all bounds-checked.\<close>

definition process_at :: "'l ip_env \<Rightarrow> ip_version \<Rightarrow> u32 list \<Rightarrow> usize \<Rightarrow> 'l frame_state \<Rightarrow> 'l frame_state option" where
  "process_at env version indices offset fs =
     (if offset < length indices \<and> offset < length (fs_nexts fs) \<and> offset < length (fs_errors fs)
      then do { (next, error, rt) \<leftarrow> process_input_packet env version (indices ! offset) (fs_runtime fs);
                Some (fs\<lparr>fs_runtime := rt, fs_nexts := (fs_nexts fs)[offset := next],
                         fs_errors := (fs_errors fs)[offset := error]\<rparr>) }
      else None)"

function quad_loop :: "'l ip_env \<Rightarrow> ip_version \<Rightarrow> u32 list \<Rightarrow> usize \<Rightarrow> 'l frame_state \<Rightarrow> (usize \<times> 'l frame_state) option" where
  "quad_loop env version indices offset fs =
     (if offset + 4 \<le> length indices
      then do { fs \<leftarrow> process_at env version indices offset fs;
                fs \<leftarrow> process_at env version indices (offset + 1) fs;
                fs \<leftarrow> process_at env version indices (offset + 2) fs;
                fs \<leftarrow> process_at env version indices (offset + 3) fs;
                quad_loop env version indices (offset + 4) fs }
      else Some (offset, fs))"
  by auto
termination by (relation "measure (\<lambda>(_, _, indices, offset, _). length indices - offset)") auto

function pair_loop :: "'l ip_env \<Rightarrow> ip_version \<Rightarrow> u32 list \<Rightarrow> usize \<Rightarrow> 'l frame_state \<Rightarrow> (usize \<times> 'l frame_state) option" where
  "pair_loop env version indices offset fs =
     (if offset + 2 \<le> length indices
      then do { fs \<leftarrow> process_at env version indices offset fs;
                fs \<leftarrow> process_at env version indices (offset + 1) fs;
                pair_loop env version indices (offset + 2) fs }
      else Some (offset, fs))"
  by auto
termination by (relation "measure (\<lambda>(_, _, indices, offset, _). length indices - offset)") auto

text \<open>\<open>finish_input_errors\<close>: count the errors by code, add the counts to the counters of the node, and mark the
  buffers.\<close>

fun count_errors :: "ip_input_error list \<Rightarrow> u64 list \<Rightarrow> u64 list" where
  "count_errors [] counts = counts"
| "count_errors (error # errors) counts =
     count_errors errors
       (if error \<noteq> NoInputError
        then counts[unat (input_error_code error) := counts ! unat (input_error_code error) + 1] else counts)"

fun record_error_counts ::
  "'l ip_env \<Rightarrow> nat list \<Rightarrow> u64 list \<Rightarrow> u16 option list \<Rightarrow> 'l ip_runtime \<Rightarrow> (u16 option list \<times> 'l ip_runtime) option" where
  "record_error_counts env [] counts indexes rt = Some (indexes, rt)"
| "record_error_counts env (code # codes) counts indexes rt =
     (if counts ! code \<noteq> 0
      then do { i \<leftarrow> env_node_error_index env (of_nat code);
                record_error_counts env codes counts (indexes[code := Some i])
                  (rt\<lparr>rt_error_counters := (rt_error_counters rt)(i := rt_error_counters rt i + counts ! code)\<rparr>) }
      else record_error_counts env codes counts indexes rt)"

fun mark_errors :: "u16 option list \<Rightarrow> u32 list \<Rightarrow> ip_input_error list \<Rightarrow> 'l ip_runtime \<Rightarrow> 'l ip_runtime option" where
  "mark_errors indexes (index # indices) (error # errors) rt =
     (case indexes ! unat (input_error_code error) of
        Some e \<Rightarrow> do { b \<leftarrow> rt_buffers rt index;
                       mark_errors indexes indices errors
                         (rt\<lparr>rt_buffers := (rt_buffers rt)(index \<mapsto> b\<lparr>b_error := Some e\<rparr>)\<rparr>) }
      | None \<Rightarrow> mark_errors indexes indices errors rt)"
| "mark_errors indexes indices errors rt = Some rt"

definition finish_input_errors ::
  "'l ip_env \<Rightarrow> u32 list \<Rightarrow> ip_input_error list \<Rightarrow> 'l ip_runtime \<Rightarrow> 'l ip_runtime option" where
  "finish_input_errors env indices errors rt =
     do { let counts = count_errors errors (replicate 9 0);
          (indexes, rt) \<leftarrow> record_error_counts env [1..<9] counts (replicate 9 None) rt;
          mark_errors indexes indices errors rt }"

text \<open>The node: the nexts it enqueues the packets to, and the runtime after it.\<close>

definition ip_input_process_frame ::
  "'l ip_env \<Rightarrow> ip_version \<Rightarrow> u32 list \<Rightarrow> 'l ip_runtime \<Rightarrow> (u16 list \<times> 'l ip_runtime) option" where
  "ip_input_process_frame env version indices rt =
     (let count = length indices;
          fs = \<lparr>fs_runtime = rt, fs_nexts = replicate DEFAULT_BUFFER_FRAME_CAPACITY 0,
                fs_errors = replicate DEFAULT_BUFFER_FRAME_CAPACITY NoInputError\<rparr> in
      do { (offset, fs) \<leftarrow> (if version = IpV4 then quad_loop env version indices 0 fs else Some (0, fs));
           (offset, fs) \<leftarrow> pair_loop env version indices offset fs;
           fs \<leftarrow> (if offset < count then process_at env version indices offset fs else Some fs);
           if count \<le> length (fs_errors fs) \<and> count \<le> length (fs_nexts fs)
           then do { rt \<leftarrow> finish_input_errors env indices (take count (fs_errors fs)) (fs_runtime fs);
                     Some (take count (fs_nexts fs), rt) }
           else None })"

subsection \<open>The cursor left in the opaque area\<close>

lemma set_packet_cursor_read:
  assumes "set_packet_cursor c n = Some n'"
    and "transport_header_offset c + transport_header_len c = transport_payload_offset c"
  shows "network_packet_cursor n' = Some c"
proof -
  have b: "network_header_offset c < 2 ^ 15" using assms(1) by (auto simp: set_packet_cursor_def split: if_splits)
  have o: "sint (of_nat (network_header_offset c) :: 16 word) = int (network_header_offset c)"
    using b by (simp add: signed_of_nat signed_take_bit_int_eq_self)
  have "pc_transport_payload_offset c = pc_transport_header_offset c + pc_transport_header_len c"
    using arg_cong [OF assms(2), of "of_nat :: nat \<Rightarrow> u16"]
    by (simp add: transport_header_offset_def transport_header_len_def transport_payload_offset_def)
  then show ?thesis using assms b o
    by (cases c) (auto simp: set_packet_cursor_def network_packet_cursor_def with_packet_len_def with_network_header_def
        with_transport_header_def with_transport_payload_offset_def cursor_new_def Let_def
        cursor_packet_len_def network_header_offset_def network_header_len_def transport_header_len_def
        transport_header_offset_def transport_payload_offset_def split: if_splits)
qed

subsection \<open>Locally originated headers are accepted\<close>

lemma ipv4_checksum_zero:
  assumes "ipv4_shape h" "v4_checksum h = [0, 0]"
  shows "internet_checksum True arch (ipv4_as_bytes (h\<lparr>v4_checksum := to_be_bytes 2
           (internet_checksum True arch (ipv4_as_bytes h))\<rparr>)) = 0"
proof -
  let ?pre = "[v4_version_ihl h, v4_dscp_ecn h] @ v4_total_len h @ v4_identification h @ v4_flags_fragment h @ [v4_ttl h, v4_protocol h]"
  let ?post = "v4_source h @ v4_destination h"
  have "ipv4_as_bytes (h\<lparr>v4_checksum := cs\<rparr>) = ?pre @ cs @ ?post" for cs by (simp add: ipv4_as_bytes_def)
  moreover have "ipv4_as_bytes h = ?pre @ [0, 0] @ ?post" using assms(2) by (simp add: ipv4_as_bytes_def)
  moreover have "even (length ?pre)" using assms(1) by (simp add: ipv4_shape_def)
  ultimately show ?thesis by (simp only: internet_checksum_rfc1071 rfc1071_insert)
qed

lemma ip6_push_header_accepted:
  assumes "40 \<le> length output" "next_header \<noteq> IPV6_NEXT_HEADER_FRAGMENT"
  shows "\<exists>packet h. write_ipv6_push_header src dst next_header payload_len output = Inr packet \<and>
    length packet = length output \<and> drop 40 packet = drop 40 output \<and>
    ipv6_from_prefix packet = Some (h, drop 40 output) \<and> ipv6_source h = src \<and> ipv6_destination h = dst \<and>
    classify_ipv6_input packet =
      Inr (ip_protocol_from_u8 next_header, if ipv6_is_multicast dst then LookupMulticastTarget else LookupTarget,
           NoInputError, 40 + unat payload_len, 40, 40)"
proof -
  obtain h0 where h0: "ipv6_from_prefix output = Some (h0, drop 40 output)" using assms(1) by (simp add: ipv6_from_prefix_def)
  define h where "h = h0\<lparr>v6_version_traffic_flow := [0x60, 0, 0, 0], v6_payload_len := to_be_bytes 2 payload_len,
                 v6_next_header := next_header, v6_hop_limit := 255, v6_source := to_be_bytes 16 src,
                 v6_destination := to_be_bytes 16 dst\<rparr>"
  have s: "ipv6_shape h" by (simp add: ipv6_shape_def h_def)
  have w: "write_ipv6_push_header src dst next_header payload_len output = Inr (ipv6_as_bytes h @ drop 40 output)"
    by (simp add: write_ipv6_push_header_def h0 h_def)
  note p = ipv6_prefix_as_bytes [OF s, of "drop 40 output"] and l = length_ipv6_as_bytes [OF s]
  have f: "ipv6_version h = 6" "ipv6_payload_len h = unat payload_len" "v6_next_header h = next_header" "v6_hop_limit h = 255"
    "ipv6_source h = src" "ipv6_destination h = dst"
    by (simp_all add: h_def ipv6_version_def ipv6_payload_len_def ipv6_source_def ipv6_destination_def)
  have "unat payload_len < 2 ^ 16" using unat_lt2p [of payload_len] by simp
  then have "checked_add 40 (unat payload_len) = Some (40 + unat payload_len)" by (simp add: usize_max_def)
  then have "classify_ipv6_input (ipv6_as_bytes h @ drop 40 output) =
      Inr (ip_protocol_from_u8 next_header, if ipv6_is_multicast dst then LookupMulticastTarget else LookupTarget,
           NoInputError, 40 + unat payload_len, 40, 40)"
    using f p assms(2) by (simp add: classify_ipv6_input_def IPV6_HEADER_LEN_def del: checked_add_Some_iff)
  then show ?thesis using w p f l assms(1) by auto
qed

lemma ipv4_error_cases:
  assumes "20 \<le> ipv4_header_len h"
  shows "ipv4_input_error le arch packet h chain_len = NoInputError \<longleftrightarrow>
      ipv4_header_len h = 20 \<and> internet_checksum le arch (take (ipv4_header_len h) packet) = 0 \<and> 0 < v4_ttl h \<and>
      ipv4_flags_fragment h AND IPV4_FRAGMENT_OFFSET_MASK \<noteq> 1 \<and> ipv4_header_len h \<le> ipv4_total_len h \<and> ipv4_total_len h \<le> chain_len"
    "ipv4_input_error le arch packet h chain_len = BadLength \<longleftrightarrow> chain_len < ipv4_total_len h \<or> ipv4_total_len h < ipv4_header_len h"
    "ipv4_input_error le arch packet h chain_len \<noteq> TooShort"
proof -
  have t: "v4_ttl h < 1 \<longleftrightarrow> \<not> 0 < v4_ttl h" by (simp add: word_less_nat_alt)
  show "ipv4_input_error le arch packet h chain_len = NoInputError \<longleftrightarrow>
      ipv4_header_len h = 20 \<and> internet_checksum le arch (take (ipv4_header_len h) packet) = 0 \<and> 0 < v4_ttl h \<and>
      ipv4_flags_fragment h AND IPV4_FRAGMENT_OFFSET_MASK \<noteq> 1 \<and> ipv4_header_len h \<le> ipv4_total_len h \<and> ipv4_total_len h \<le> chain_len"
    using assms by (simp add: ipv4_input_error_def IPV4_HEADER_MIN_LEN_def Let_def t word_gt_0)
  show "ipv4_input_error le arch packet h chain_len = BadLength \<longleftrightarrow> chain_len < ipv4_total_len h \<or> ipv4_total_len h < ipv4_header_len h"
    by (simp add: ipv4_input_error_def Let_def)
  show "ipv4_input_error le arch packet h chain_len \<noteq> TooShort"
    using assms by (simp add: ipv4_input_error_def IPV4_HEADER_MIN_LEN_def Let_def)
qed


lemma classify_ipv4_Inr:
  assumes "classify_ipv4_input le arch packet chain_len = Inr (protocol, target, error, packet_len, header_len, transport_offset)"
  obtains h rest where "ipv4_from_prefix packet = Some (h, rest)" "ipv4_version h = 4" "20 \<le> ipv4_header_len h"
    "ipv4_header_len h \<le> length packet" "protocol = ip_protocol_from_u8 (v4_protocol h)"
    "error = ipv4_input_error le arch packet h chain_len" "target = ipv4_input_target h error" "header_len = ipv4_header_len h"
    "packet_len = ipv4_total_len h" "transport_offset = header_len"
proof (cases "ipv4_from_prefix packet")
  case (Some p)
  obtain h rest where p: "p = (h, rest)" by (cases p)
  have "ipv4_version h = 4 \<and> 20 \<le> ipv4_header_len h \<and> ipv4_header_len h \<le> length packet \<and>
      protocol = ip_protocol_from_u8 (v4_protocol h) \<and> error = ipv4_input_error le arch packet h chain_len \<and>
      target = ipv4_input_target h error \<and> header_len = ipv4_header_len h \<and> packet_len = ipv4_total_len h \<and> transport_offset = header_len"
    using assms by (auto simp: classify_ipv4_input_def IPV4_HEADER_MIN_LEN_def Let_def Some p split: if_splits)
  then show ?thesis using Some p by (intro that [of h rest]) simp_all
qed (use assms in \<open>simp add: classify_ipv4_input_def\<close>)

lemma ipv4_lengths_bound: "ipv4_header_len h \<le> 60" "ipv4_total_len h < 2 ^ 16"
proof -
  have "unat (v4_version_ihl h AND 0x0f) \<le> unat (0x0f :: u8)" by (simp only: word_and_le1 flip: word_le_nat_alt)
  then show "ipv4_header_len h \<le> 60" by (simp add: ipv4_header_len_def)
  show "ipv4_total_len h < 2 ^ 16" using unat_lt2p [of "from_be_bytes (v4_total_len h) :: u16"] by (simp add: ipv4_total_len_def)
qed

definition classify_input :: "'l ip_env \<Rightarrow> ip_version \<Rightarrow> 'l ip_buffer \<Rightarrow> ip_input_error + classification" where
  "classify_input env version b =
     (case version of
        IpV4 \<Rightarrow> classify_ipv4_input (env_little_endian env) (env_arch env) (b_current b)
                  (length (b_current b) + total_len_not_including_first b)
      | IpV6 \<Rightarrow> classify_ipv6_input (b_current b))"

lemma classify_input_bounds:
  assumes "classify_input env version b = Inr (protocol, target, error, packet_len, header_len, transport_offset)"
  shows "packet_len < 2 ^ 32 \<and> header_len < 2 ^ 16 \<and> transport_offset < 2 ^ 16"
proof (cases version)
  case IpV4
  then obtain h where "header_len = ipv4_header_len h" "packet_len = ipv4_total_len h" "transport_offset = header_len"
    using assms classify_ipv4_Inr unfolding classify_input_def by (metis ip_version.case(1))
  then show ?thesis using ipv4_lengths_bound [of h] by simp
next
  case IpV6
  have p: "ipv6_payload_len h < 2 ^ 32 - 40" for h
    using unat_lt2p [of "from_be_bytes (v6_payload_len h) :: u16"] by (simp add: ipv6_payload_len_def)
  show ?thesis using assms IpV6
    by (auto simp: classify_input_def classify_ipv6_input_def ip_consts Let_def p [simplified] split: option.splits if_splits)
qed

lemma input_metadata_spec:
  assumes "packet_len < 2 ^ 32" "header_len < 2 ^ 16" "transport_offset < 2 ^ 16"
  shows "\<exists>b' c. input_metadata env version (protocol, target, error, packet_len, header_len, transport_offset) ecn b = Some b' \<and>
    b_current b' = b_current b \<and> b_error b' = None \<and> no_sw_if_index (b_network b') = no_sw_if_index (b_network b) \<and>
    network_packet_cursor (b_network b') = Some c \<and> cursor_packet_len c = packet_len \<and> network_header_offset c = 0 \<and>
    network_header_len c = header_len \<and> transport_header_offset c = transport_offset \<and> transport_payload_offset c = transport_offset \<and>
    ni_ip_version (no_ip (b_network b')) = (case version of IpV4 \<Rightarrow> 4 | IpV6 \<Rightarrow> 6) \<and>
    ni_ip_protocol (no_ip (b_network b')) = ip_protocol_to_u8 protocol \<and>
    ip_ecn_of (no_ip (b_network b')) = map_option ip_ecn_to_u8 ecn"
proof -
  define c where "c = \<lparr>pc_packet_len = of_nat packet_len, pc_network_header_offset = 0, pc_network_header_len = of_nat header_len,
    pc_transport_header_offset = of_nat transport_offset, pc_transport_header_len = 0, pc_transport_payload_offset = of_nat transport_offset\<rparr>"
  have F: "cursor_packet_len c = packet_len" "network_header_offset c = 0" "network_header_len c = header_len" "transport_header_len c = 0"
    "transport_header_offset c = transport_offset" "transport_payload_offset c = transport_offset"
    using assms by (simp_all add: c_def cursor_packet_len_def network_header_offset_def network_header_len_def
        transport_header_offset_def transport_payload_offset_def transport_header_len_def unat_of_nat_id)
  have b: "do { c \<leftarrow> with_packet_len cursor_new packet_len; c \<leftarrow> with_network_header c 0 header_len;
               c \<leftarrow> with_transport_header c transport_offset 0; with_transport_payload_offset c transport_offset } = Some c"
    using assms by (simp add: with_packet_len_def with_network_header_def with_transport_header_def
        with_transport_payload_offset_def cursor_new_def c_def)
  obtain n where n: "set_packet_cursor c (b_network (clear_node_error b)) = Some n"
    using F assms by (simp add: set_packet_cursor_def)
  have r: "network_packet_cursor n = Some c" by (rule set_packet_cursor_read [OF n]) (simp add: F)
  have i: "no_sw_if_index n = no_sw_if_index (b_network b)"
    using n by (auto simp: set_packet_cursor_def clear_node_error_def split: if_splits)
  let ?fib = "fib_table_get_index_for_sw_if_index env version (fst (no_sw_if_index (b_network (clear_node_error b))))"
  let ?ip = "set_fib_index ?fib (set_ip_protocol (Some (ip_protocol_to_u8 protocol))
    (set_ip_version (Some (case version of IpV4 \<Rightarrow> 4 | IpV6 \<Rightarrow> 6)) (set_ip_ecn (map_option ip_ecn_to_u8 ecn) (no_ip n))))"
  have k: "network_packet_cursor (n\<lparr>no_ip := ?ip\<rparr>) = network_packet_cursor n" "ni_ip_version ?ip = (case version of IpV4 \<Rightarrow> 4 | IpV6 \<Rightarrow> 6)"
    "ni_ip_protocol ?ip = ip_protocol_to_u8 protocol" "ip_ecn_of ?ip = map_option ip_ecn_to_u8 ecn"
    by (simp_all add: network_packet_cursor_def set_fib_index_def set_ip_protocol_def set_ip_version_def set_ip_ecn_def ip_ecn_of_def
        Let_def split: option.split)
  have "input_metadata env version (protocol, target, error, packet_len, header_len, transport_offset) ecn b =
      Some ((clear_node_error b)\<lparr>b_network := n\<lparr>no_ip := ?ip\<rparr>\<rparr>)"
    using b n by (simp add: input_metadata_def Let_def flip: bind_assoc)
  then show ?thesis using k r i F by (simp add: clear_node_error_def)
qed

subsection \<open>The frame loops\<close>

declare quad_loop.simps [simp del] pair_loop.simps [simp del]

fun process_all :: "'l ip_env \<Rightarrow> ip_version \<Rightarrow> u32 list \<Rightarrow> usize list \<Rightarrow> 'l frame_state \<Rightarrow> 'l frame_state option" where
  "process_all env version indices [] fs = Some fs"
| "process_all env version indices (offset # offsets) fs =
     do { fs \<leftarrow> process_at env version indices offset fs; process_all env version indices offsets fs }"

lemma process_all_eta [simp]:
  "process_all env version indices [] = Some"
  "process_all env version indices (offset # offsets) =
     (\<lambda>fs. do { fs \<leftarrow> process_at env version indices offset fs; process_all env version indices offsets fs })"
  by (simp_all add: fun_eq_iff)

lemma upt_split: "i \<le> j \<Longrightarrow> j \<le> k \<Longrightarrow> [i..<k] = [i..<j] @ [j..<k]"
  by (metis le_add_diff_inverse upt_add_eq_append)

lemma process_all_append:
  "process_all env version indices (xs @ ys) fs =
     do { fs \<leftarrow> process_all env version indices xs fs; process_all env version indices ys fs }"
  by (induction xs arbitrary: fs) (auto split: Option.bind_splits)

text \<open>The unrolled loops process the offsets one after the other, up to where they stop.\<close>

definition quad_end :: "nat \<Rightarrow> nat \<Rightarrow> nat" where
  "quad_end n offset = offset + 4 * ((n - offset) div 4)"

definition pair_end :: "nat \<Rightarrow> nat \<Rightarrow> nat" where
  "pair_end n offset = offset + 2 * ((n - offset) div 2)"

lemma quad_end_simps:
  "offset + 4 \<le> n \<Longrightarrow> quad_end n (offset + 4) = quad_end n offset \<and> offset + 4 \<le> quad_end n offset"
  "\<not> offset + 4 \<le> n \<Longrightarrow> quad_end n offset = offset"
  by (auto simp: quad_end_def div_if [of "n - offset"])

lemma pair_end_simps:
  "offset + 2 \<le> n \<Longrightarrow> pair_end n (offset + 2) = pair_end n offset \<and> offset + 2 \<le> pair_end n offset"
  "\<not> offset + 2 \<le> n \<Longrightarrow> pair_end n offset = offset"
  by (auto simp: pair_end_def div_if [of "n - offset"])

lemma quad_loop_all:
  "quad_loop env version indices offset fs =
     do { fs \<leftarrow> process_all env version indices [offset..<quad_end (length indices) offset] fs;
          Some (quad_end (length indices) offset, fs) }"
proof (induction env version indices offset fs rule: quad_loop.induct)
  case (1 env version indices offset fs)
  show ?case
  proof (cases "offset + 4 \<le> length indices")
    case True
    let ?e = "quad_end (length indices) offset"
    have "[offset..<?e] = [offset, offset + 1, offset + 2, offset + 3] @ [offset + 4..<?e]"
      using quad_end_simps(1) [OF True] by (simp add: upt_conv_Cons eval_nat_numeral)
    then have "process_all env version indices [offset..<?e] fs =
        do { fs \<leftarrow> process_at env version indices offset fs;
             fs \<leftarrow> process_at env version indices (offset + 1) fs;
             fs \<leftarrow> process_at env version indices (offset + 2) fs;
             fs \<leftarrow> process_at env version indices (offset + 3) fs;
             process_all env version indices [offset + 4..<?e] fs }"
      by (simp add: process_all_append)
    then show ?thesis using 1 [OF True] quad_end_simps(1) [OF True]
      by (subst quad_loop.simps) (auto simp: True split: Option.bind_splits)
  qed (simp add: quad_loop.simps [of env version indices offset fs] quad_end_simps(2))
qed

lemma pair_loop_all:
  "pair_loop env version indices offset fs =
     do { fs \<leftarrow> process_all env version indices [offset..<pair_end (length indices) offset] fs;
          Some (pair_end (length indices) offset, fs) }"
proof (induction env version indices offset fs rule: pair_loop.induct)
  case (1 env version indices offset fs)
  show ?case
  proof (cases "offset + 2 \<le> length indices")
    case True
    let ?e = "pair_end (length indices) offset"
    have "[offset..<?e] = [offset, offset + 1] @ [offset + 2..<?e]"
      using pair_end_simps(1) [OF True] by (simp add: upt_conv_Cons)
    then have "process_all env version indices [offset..<?e] fs =
        do { fs \<leftarrow> process_at env version indices offset fs;
             fs \<leftarrow> process_at env version indices (offset + 1) fs;
             process_all env version indices [offset + 2..<?e] fs }"
      by (simp add: process_all_append)
    then show ?thesis using 1 [OF True] pair_end_simps(1) [OF True] True
      by (subst pair_loop.simps) (auto split: Option.bind_splits)
  qed (simp add: pair_loop.simps [of env version indices offset fs] pair_end_simps(2))
qed

lemma loop_ends: "quad_end n 0 \<le> n" "offset \<le> n \<Longrightarrow> offset \<le> pair_end n offset \<and> pair_end n offset \<le> n \<and> n \<le> Suc (pair_end n offset)"
  by (auto simp: quad_end_def pair_end_def)

lemma tail_all:
  assumes "offset \<le> length indices" "length indices \<le> Suc offset"
  shows "(if offset < length indices then process_at env version indices offset fs else Some fs) =
    process_all env version indices [offset..<length indices] fs"
proof (cases "offset < length indices")
  case True
  then have "[offset..<length indices] = [offset]" using assms by (simp add: upt_conv_Cons)
  then show ?thesis using True by simp
qed (use assms in simp)

lemma frame_all:
  "ip_input_process_frame env version indices rt =
     (let fs = \<lparr>fs_runtime = rt, fs_nexts = replicate DEFAULT_BUFFER_FRAME_CAPACITY 0,
                fs_errors = replicate DEFAULT_BUFFER_FRAME_CAPACITY NoInputError\<rparr> in
      do { fs \<leftarrow> process_all env version indices [0..<length indices] fs;
           if length indices \<le> length (fs_errors fs) \<and> length indices \<le> length (fs_nexts fs)
           then do { rt \<leftarrow> finish_input_errors env indices (take (length indices) (fs_errors fs)) (fs_runtime fs);
                     Some (take (length indices) (fs_nexts fs), rt) }
           else None })"
proof -
  let ?n = "length indices"
  define q where "q = (if version = IpV4 then quad_end ?n 0 else 0)"
  define p where "p = pair_end ?n q"
  have q: "q \<le> ?n" using loop_ends(1) [of ?n] by (simp add: q_def)
  have p: "q \<le> p" "p \<le> ?n" "?n \<le> Suc p" using loop_ends(2) [OF q] by (simp_all add: p_def)
  have s: "[0..<?n] = [0..<q] @ [q..<p] @ [p..<?n]" using q p upt_split [of 0 q ?n] upt_split [of q p ?n] by simp
  have 1: "(if version = IpV4 then quad_loop env version indices 0 fs else Some (0, fs)) =
      do { fs \<leftarrow> process_all env version indices [0..<q] fs; Some (q, fs) }" for fs
    by (simp add: q_def quad_loop_all)
  have 2: "pair_loop env version indices q fs = do { fs \<leftarrow> process_all env version indices [q..<p] fs; Some (p, fs) }" for fs
    by (simp add: p_def pair_loop_all)
  show ?thesis
    unfolding ip_input_process_frame_def Let_def 1 s process_all_append
    by (simp add: 2 tail_all [OF p(2,3)])
qed

subsection \<open>One packet at a time\<close>

definition input_buffer :: "'l ip_env \<Rightarrow> ip_version \<Rightarrow> 'l ip_buffer \<Rightarrow> (u16 \<times> ip_input_error \<times> 'l ip_buffer) option" where
  "input_buffer env version b =
     do { (next, error, rt) \<leftarrow> process_input_packet env version 0 \<lparr>rt_buffers = [0 \<mapsto> b], rt_error_counters = (\<lambda>_. 0)\<rparr>;
          b \<leftarrow> rt_buffers rt 0; Some (next, error, b) }"

lemma process_input_packet_local:
  "process_input_packet env version index rt =
     do { b \<leftarrow> rt_buffers rt index; (next, error, b) \<leftarrow> input_buffer env version b;
          Some (next, error, rt\<lparr>rt_buffers := (rt_buffers rt)(index \<mapsto> b)\<rparr>) }"
proof (cases "rt_buffers rt index")
  case (Some b)
  show ?thesis
    by (cases "case version of IpV4 \<Rightarrow> classify_ipv4_input (env_little_endian env) (env_arch env) (b_current b)
                 (length (b_current b) + total_len_not_including_first b) | IpV6 \<Rightarrow> classify_ipv6_input (b_current b)")
      (simp_all add: input_buffer_def process_input_packet_def Some Let_def split: Option.bind_split)
qed (simp add: process_input_packet_def)


text \<open>\<open>results\<close> is what processing each buffer of the frame on its own gives.\<close>

definition frame_results ::
  "'l ip_env \<Rightarrow> ip_version \<Rightarrow> (u32 \<rightharpoonup> 'l ip_buffer) \<Rightarrow> u32 list \<Rightarrow> (u16 \<times> ip_input_error \<times> 'l ip_buffer) list \<Rightarrow> bool" where
  "frame_results env version buffers indices results \<longleftrightarrow>
     list_all2 (\<lambda>i r. \<exists>b. buffers i = Some b \<and> input_buffer env version b = Some r) indices results"

abbreviation result_next :: "u16 \<times> ip_input_error \<times> 'l ip_buffer \<Rightarrow> u16" where
  "result_next \<equiv> fst"

abbreviation result_error :: "u16 \<times> ip_input_error \<times> 'l ip_buffer \<Rightarrow> ip_input_error" where
  "result_error r \<equiv> fst (snd r)"

abbreviation result_buffer :: "u16 \<times> ip_input_error \<times> 'l ip_buffer \<Rightarrow> 'l ip_buffer" where
  "result_buffer r \<equiv> snd (snd r)"

lemma frame_results_at:
  assumes "frame_results env version buffers indices results" "k < length indices"
  obtains b where "buffers (indices ! k) = Some b" "input_buffer env version b = Some (results ! k)" "k < length results"
  using assms by (auto simp: frame_results_def list_all2_conv_all_nth)

lemma prefix_update:
  assumes "k < length rs" "k < n"
  shows "(map f (take k rs) @ replicate (n - k) d)[k := f (rs ! k)] = map f (take (Suc k) rs) @ replicate (n - Suc k) d"
proof -
  obtain m where m: "n - k = Suc m" "n - Suc k = m" using assms(2) by (metis Suc_diff_Suc)
  show ?thesis using assms(1) by (simp add: m list_update_append take_Suc_conv_app_nth)
qed

lemma process_all_results:
  assumes r: "frame_results env version (rt_buffers rt) indices results" and d: "distinct indices"
    and c: "length indices \<le> cap" and k: "k \<le> length indices"
  shows "process_all env version indices [0..<k] \<lparr>fs_runtime = rt, fs_nexts = replicate cap 0, fs_errors = replicate cap NoInputError\<rparr> =
    Some \<lparr>fs_runtime = rt\<lparr>rt_buffers := (rt_buffers rt)(take k indices [\<mapsto>] map result_buffer results)\<rparr>,
          fs_nexts = map result_next (take k results) @ replicate (cap - k) 0,
          fs_errors = map result_error (take k results) @ replicate (cap - k) NoInputError\<rparr>"
  using k
proof (induction k)
  case (Suc k)
  then have kn: "k < length indices" by simp
  obtain b where b: "rt_buffers rt (indices ! k) = Some b" "input_buffer env version b = Some (results ! k)" "k < length results"
    by (rule frame_results_at [OF r kn])
  have new: "indices ! k \<notin> set (take k indices)" using d kn by (auto simp: in_set_conv_nth distinct_conv_nth)
  have t: "take (Suc k) indices = take k indices @ [indices ! k]" using kn by (simp add: take_Suc_conv_app_nth)
  have u: "m(take (Suc k) indices [\<mapsto>] map result_buffer results) =
      (m(take k indices [\<mapsto>] map result_buffer results))(indices ! k \<mapsto> result_buffer (results ! k))" for m
    unfolding t using kn b(3) by (subst map_upds_append1) simp_all
  have b': "((rt_buffers rt)(take k indices [\<mapsto>] map result_buffer results)) (indices ! k) = Some b"
    using new b(1) by (simp add: map_upds_apply_nontin)
  obtain n e b2 where res: "results ! k = (n, e, b2)" by (cases "results ! k")
  have p: "process_at env version indices k
      \<lparr>fs_runtime = rt\<lparr>rt_buffers := (rt_buffers rt)(take k indices [\<mapsto>] map result_buffer results)\<rparr>,
       fs_nexts = map result_next (take k results) @ replicate (cap - k) 0,
       fs_errors = map result_error (take k results) @ replicate (cap - k) NoInputError\<rparr> =
    Some \<lparr>fs_runtime = rt\<lparr>rt_buffers := (rt_buffers rt)(take (Suc k) indices [\<mapsto>] map result_buffer results)\<rparr>,
          fs_nexts = map result_next (take (Suc k) results) @ replicate (cap - Suc k) 0,
          fs_errors = map result_error (take (Suc k) results) @ replicate (cap - Suc k) NoInputError\<rparr>"
    using prefix_update [OF b(3), of cap result_next 0] prefix_update [OF b(3), of cap result_error NoInputError] kn c b b' res
    by (simp add: process_at_def process_input_packet_local u)
  show ?case using Suc p by (simp add: process_all_append)
qed simp


subsection \<open>The error accounting\<close>

definition failed :: "ip_input_error \<Rightarrow> bool" where
  "failed e \<longleftrightarrow> e \<noteq> NoInputError"

lemma code_less: "unat (input_error_code e) < 9"
  by (cases e) simp_all

lemma code_0: "unat (input_error_code e) = 0 \<longleftrightarrow> \<not> failed e"
  by (cases e) (simp_all add: failed_def)

lemma length_count_errors [simp]: "length (count_errors es counts) = length counts"
  by (induction es arbitrary: counts) simp_all

lemma count_errors_nth:
  assumes "length counts = 9" "c < 9"
  shows "count_errors es counts ! c =
    counts ! c + of_nat (length (filter (\<lambda>e. failed e \<and> unat (input_error_code e) = c) es))"
  using assms(1)
proof (induction es arbitrary: counts)
  case (Cons e es)
  then show ?case using Cons.IH [of "counts[unat (input_error_code e) := counts ! unat (input_error_code e) + 1]"] assms(2)
    by (auto simp: failed_def nth_list_update)
qed simp

lemma record_error_counts_spec:
  assumes "distinct codes" "\<forall>c \<in> set codes. c < length indexes" "\<forall>c \<in> set codes. env_node_error_index env (of_nat c) = Some (g (of_nat c))"
  shows "\<exists>indexes'. record_error_counts env codes counts indexes rt = Some (indexes',
      rt\<lparr>rt_error_counters := (\<lambda>x. rt_error_counters rt x + (\<Sum>c\<leftarrow>codes. if g (of_nat c) = x then counts ! c else 0))\<rparr>) \<and>
    length indexes' = length indexes \<and>
    (\<forall>j < length indexes. indexes' ! j = (if j \<in> set codes \<and> counts ! j \<noteq> 0 then Some (g (of_nat j)) else indexes ! j))"
  using assms
proof (induction codes arbitrary: indexes rt)
  case (Cons code codes)
  let ?rt = "rt\<lparr>rt_error_counters := (rt_error_counters rt)(g (of_nat code) := rt_error_counters rt (g (of_nat code)) + counts ! code)\<rparr>"
  show ?case
  proof (cases "counts ! code = 0")
    case True
    then show ?thesis using Cons.IH [of indexes rt] Cons.prems by (auto simp: fun_eq_iff)
  next
    case False
    obtain ix where ix: "record_error_counts env codes counts (indexes[code := Some (g (of_nat code))]) ?rt = Some (ix,
        ?rt\<lparr>rt_error_counters := (\<lambda>x. rt_error_counters ?rt x + (\<Sum>c\<leftarrow>codes. if g (of_nat c) = x then counts ! c else 0))\<rparr>)"
      "length ix = length indexes"
      "\<forall>j < length indexes. ix ! j = (if j \<in> set codes \<and> counts ! j \<noteq> 0 then Some (g (of_nat j)) else indexes[code := Some (g (of_nat code))] ! j)"
      using Cons.IH [of "indexes[code := Some (g (of_nat code))]" ?rt] Cons.prems by auto
    have "(\<lambda>x. rt_error_counters ?rt x + (\<Sum>c\<leftarrow>codes. if g (of_nat c) = x then counts ! c else 0)) =
        (\<lambda>x. rt_error_counters rt x + (\<Sum>c\<leftarrow>code # codes. if g (of_nat c) = x then counts ! c else 0))"
      by (auto simp: fun_eq_iff add.assoc)
    then show ?thesis using ix Cons.prems False by (auto simp: nth_list_update)
  qed
qed simp

fun set_error :: "u16 option \<Rightarrow> 'l ip_buffer \<Rightarrow> 'l ip_buffer" where
  "set_error None b = b"
| "set_error (Some e) b = b\<lparr>b_error := Some e\<rparr>"

lemma mark_errors_step:
  "mark_errors indexes (i # indices) (e # errors) (rt\<lparr>rt_buffers := m\<rparr>) =
     (case indexes ! unat (input_error_code e) of
        Some x \<Rightarrow> do { b \<leftarrow> m i; mark_errors indexes indices errors (rt\<lparr>rt_buffers := m(i \<mapsto> b\<lparr>b_error := Some x\<rparr>)\<rparr>) }
      | None \<Rightarrow> mark_errors indexes indices errors (rt\<lparr>rt_buffers := m\<rparr>))"
  by (simp split: option.split)

lemma mark_errors_spec:
  assumes "distinct indices" "length errors = length indices" "length bs = length indices"
  shows "mark_errors indexes indices errors (rt\<lparr>rt_buffers := m(indices [\<mapsto>] bs)\<rparr>) =
    Some (rt\<lparr>rt_buffers := m(indices [\<mapsto>] map2 (\<lambda>e. set_error (indexes ! unat (input_error_code e))) errors bs)\<rparr>)"
  using assms
proof (induction indices arbitrary: errors bs m)
  case (Cons i indices)
  then obtain e es b bs' where l: "errors = e # es" "bs = b # bs'" by (metis length_Suc_conv)
  have n: "i \<notin> set indices" using Cons.prems by simp
  have b: "(m(i \<mapsto> x, indices [\<mapsto>] bs')) i = Some x" for x using n by (simp add: map_upds_apply_nontin)
  have t: "(m(i \<mapsto> b, indices [\<mapsto>] bs'))(i \<mapsto> x) = m(i \<mapsto> x, indices [\<mapsto>] bs')" for x
    using n by (simp add: map_upds_twist)
  have IH: "mark_errors indexes indices es (rt\<lparr>rt_buffers := m(i \<mapsto> x, indices [\<mapsto>] bs')\<rparr>) =
      Some (rt\<lparr>rt_buffers := m(i \<mapsto> x, indices [\<mapsto>] map2 (\<lambda>e. set_error (indexes ! unat (input_error_code e))) es bs')\<rparr>)" for x
    by (rule Cons.IH) (use Cons.prems l in simp_all)
  show ?case
  proof (cases "indexes ! unat (input_error_code e)")
    case None
    then show ?thesis by (simp only: l mark_errors.simps option.case map_upds_Cons IH list.map zip_Cons_Cons split set_error.simps)
  next
    case (Some x)
    have u: "m(i \<mapsto> b, indices [\<mapsto>] bs', i \<mapsto> b\<lparr>b_error := Some x\<rparr>) = m(i \<mapsto> b\<lparr>b_error := Some x\<rparr>, indices [\<mapsto>] bs')" by (rule t)
    show ?thesis using IH [of "b\<lparr>b_error := Some x\<rparr>"] b [of b] unfolding l map_upds_Cons
      by (simp only: mark_errors_step option.case Some bind.bind_lunit u list.map zip_Cons_Cons split set_error.simps map_upds_Cons)
  qed
qed simp

lemma error_codes: "[1..<9] = [1, 2, 3, 4, 5, 6, 7, 8 :: nat]"
  by (simp add: upt_rec)

lemma sum_by_code:
  "(\<Sum>c\<leftarrow>[1..<9]. if g (of_nat c :: u16) = x then (of_nat (length (filter (\<lambda>e. failed e \<and> unat (input_error_code e) = c) es)) :: u64) else 0) =
    of_nat (length (filter (\<lambda>e. failed e \<and> g (input_error_code e) = x) es))"
proof (induction es)
  case (Cons e es)
  have "(\<Sum>c\<leftarrow>[1..<9]. if g (of_nat c :: u16) = x then (of_nat (length (filter (\<lambda>e. failed e \<and> unat (input_error_code e) = c) (e # es))) :: u64) else 0) =
      (\<Sum>c\<leftarrow>[1..<9]. (if g (of_nat c :: u16) = x then (of_nat (length (filter (\<lambda>e. failed e \<and> unat (input_error_code e) = c) es)) :: u64) else 0) +
        (if g (of_nat c) = x \<and> failed e \<and> unat (input_error_code e) = c then 1 else 0))"
    by (intro arg_cong [of _ _ sum_list] map_cong) auto
  also have "\<dots> = of_nat (length (filter (\<lambda>e. failed e \<and> g (input_error_code e) = x) es)) +
      (\<Sum>c\<leftarrow>[1..<9]. if g (of_nat c) = x \<and> failed e \<and> unat (input_error_code e) = c then 1 else 0)"
    by (simp only: sum_list_addf Cons)
  also have "(\<Sum>c\<leftarrow>[1..<9]. if g (of_nat c :: u16) = x \<and> failed e \<and> unat (input_error_code e) = c then 1 else (0 :: u64)) =
      (if failed e \<and> g (input_error_code e) = x then 1 else 0)"
    unfolding error_codes by (cases e) (simp_all add: failed_def)
  finally show ?case by simp
qed (unfold error_codes, simp)


lemma runtime_update_swap:
  "rt\<lparr>rt_buffers := m, rt_error_counters := c\<rparr> = rt\<lparr>rt_error_counters := c, rt_buffers := m\<rparr>"
  by (cases rt) simp

lemma of_nat_u64_nonzero: "k \<noteq> 0 \<Longrightarrow> k \<le> 256 \<Longrightarrow> (of_nat k :: u64) \<noteq> 0"
  using unat_of_nat_id [of k, where 'a = 64] by auto

text \<open>Feature arcs, configured elsewhere, hand out a next and touch nothing but the buffer's configuration index.\<close>

definition arc_ready :: "'l ip_env \<Rightarrow> ip_version \<Rightarrow> bool" where
  "arc_ready env version \<longleftrightarrow> (\<exists>arc. env_unicast_feature_arc_index env version = Some arc \<and>
     (\<forall>sw b next. \<exists>n i. env_start_feature_arc env arc sw b next = Some (n, b\<lparr>b_config_index := i\<rparr>)))"

lemma process_input_packet_classified:
  "input_buffer env version b =
     (case classify_input env version b of
        Inl error \<Rightarrow> Some (input_drop_slot version, error, clear_node_error b)
      | Inr cl \<Rightarrow>
          do { b \<leftarrow> input_metadata env version cl (ip_ecn_from_packet (b_current b) version) b;
               b \<leftarrow> write_icmp_request version (fst (snd cl)) b;
               if starts_unicast_arc version (fst (snd cl))
               then do { arc_index \<leftarrow> env_unicast_feature_arc_index env version;
                         (feature_next, b) \<leftarrow> env_start_feature_arc env arc_index
                               (fst (no_sw_if_index (b_network b))) b (next_slot NextLookup);
                         Some (if feature_next = next_slot NextLookup then input_fallback_next version (fst (snd cl)) else feature_next,
                               fst (snd (snd cl)), b) }
               else Some (input_fallback_next version (fst (snd cl)), fst (snd (snd cl)), b) })"
  by (cases "classify_input env version b")
    (simp_all add: input_buffer_def process_input_packet_def Let_def flip: classify_input_def, auto split: Option.bind_split)

lemma write_icmp_request_spec:
  "\<exists>b'. write_icmp_request version target b = Some b' \<and> b_network b' = b_network b \<and> b_current b' = b_current b \<and>
    (target = IcmpErrorTarget \<longrightarrow> icmp_metadata_read (b_secondary b') \<noteq> None)"
proof -
  define f :: icmp_error_family and t :: u8 where "f = (case version of IpV4 \<Rightarrow> FamilyIpv4 | IpV6 \<Rightarrow> FamilyIpv6)"
    and "t = (case version of IpV4 \<Rightarrow> 11 | IpV6 \<Rightarrow> 3)"
  have r: "(case version of IpV4 \<Rightarrow> ipv4_time_exceeded | IpV6 \<Rightarrow> ipv6_time_exceeded) = icmp_metadata_new f t 0 0"
    by (simp add: f_def t_def ipv4_time_exceeded_def ipv6_time_exceeded_def split: ip_version.split)
  obtain m where m: "icmp_metadata_new f t 0 0 = Some m" using icmp_new_Some by blast
  show ?thesis by (simp add: write_icmp_request_def r m icmp_read_written [OF m])
qed

lemma input_buffer_accepted:
  assumes arc: "arc_ready env version" and cl: "classify_input env version b = Inr (protocol, target, e, rest)"
    and b1: "input_metadata env version (protocol, target, e, rest) (ip_ecn_from_packet (b_current b) version) b = Some b1"
    and b2: "write_icmp_request version target b1 = Some b2"
  shows "\<exists>next i. input_buffer env version b = Some (next, e, b2\<lparr>b_config_index := i\<rparr>)"
proof (cases "starts_unicast_arc version target")
  case True
  obtain arc n i where "env_unicast_feature_arc_index env version = Some arc"
      "env_start_feature_arc env arc (fst (no_sw_if_index (b_network b2))) b2 (next_slot NextLookup) = Some (n, b2\<lparr>b_config_index := i\<rparr>)"
    using arc unfolding arc_ready_def by metis
  then show ?thesis using True by (auto simp: process_input_packet_classified cl b1 b2)
next
  case False
  then show ?thesis
    by (intro exI [of _ "input_fallback_next version target"] exI [of _ "b_config_index b2"])
      (simp add: process_input_packet_classified cl b1 b2)
qed

subsection \<open>Properties\<close>

text \<open>Inputs for the witnesses.\<close>

definition demo_env :: "unit ip_env" where
  "demo_env = \<lparr>env_little_endian = True, env_arch = OtherArch, env_fib_index_by_sw_if_index = (\<lambda>_. [Some 0]),
     env_unicast_feature_arc_index = (\<lambda>_. Some 0), env_start_feature_arc = (\<lambda>_ _ b next. Some (next, b)),
     env_node_error_index = (\<lambda>code. Some (code + 100))\<rparr>"

definition demo_buffer :: "u8 list \<Rightarrow> unit ip_buffer" where
  "demo_buffer bytes = \<lparr>b_current = bytes, b_total_length_valid = False, b_total_length_not_including_first = 0,
     b_error = None, b_config_index = 0, b_network = network_opaque_default, b_secondary = \<lparr>so_lookup = (), so_icmp_error = 0\<rparr>\<rparr>"

lemma demo_short: "input_buffer demo_env IpV4 (demo_buffer [0x45]) = Some (0, HeaderTooShort, demo_buffer [0x45])"
  by (simp add: input_buffer_def process_input_packet_def demo_buffer_def demo_env_def classify_ipv4_input_def
      ipv4_from_prefix_def clear_node_error_def input_drop_slot_def)

lemma demo_version: "input_buffer demo_env IpV4 (demo_buffer (replicate 20 0x65)) = Some (0, VersionError, demo_buffer (replicate 20 0x65))"
  by (simp add: input_buffer_def process_input_packet_def demo_buffer_def demo_env_def classify_ipv4_input_def
      ipv4_from_prefix_def clear_node_error_def input_drop_slot_def ipv4_version_def)

lemma demo_bad_length:
  "classify_ipv4_input True OtherArch (0x45 # replicate 19 0) 20 = Inr (Other 0, DropTarget, BadLength, 0, 20, 20)"
proof -
  define h :: ipv4_header where "h = \<lparr>v4_version_ihl = 0x45, v4_dscp_ecn = 0, v4_total_len = [0, 0], v4_identification = [0, 0],
    v4_flags_fragment = [0, 0], v4_ttl = 0, v4_protocol = 0, v4_checksum = [0, 0], v4_source = [0, 0, 0, 0], v4_destination = [0, 0, 0, 0]\<rparr>"
  have p: "ipv4_from_prefix (0x45 # replicate 19 0) = Some (h, [])"
    by (simp add: ipv4_from_prefix_def h_def eval_nat_numeral)
  have h: "ipv4_version h = 4" "ipv4_header_len h = 20" "ipv4_total_len h = 0" "v4_protocol h = 0"
    by (simp_all add: h_def ipv4_version_def ipv4_header_len_def ipv4_total_len_def from_be_bytes_def)
  have "ipv4_input_error True OtherArch (0x45 # replicate 19 0) h 20 = BadLength" using h by (simp add: ipv4_error_cases(2))
  then show ?thesis
    using p h by (simp add: classify_ipv4_input_def IPV4_HEADER_MIN_LEN_def ip_protocol_from_u8_def ipv4_input_target_def Let_def)
qed

text \<open>
  C13. Round trip of a locally originated header: \<open>write_ipv4_push_header\<close> writes its twenty bytes and leaves the
  rest of the output alone, the addresses, the length and the DF flag are read back, and \<open>ip4-input\<close> accepts the
  packet (its checksum included) and sends it to lookup, or to the multicast lookup for a multicast destination.
  The target is little-endian and the total length covers the header and is within the buffer chain.
\<close>
theorem ip4_push_header_accepted:
  assumes "20 \<le> length output" "20 \<le> unat total_len" "unat total_len \<le> chain_len"
  shows "\<exists>packet h. write_ipv4_push_header True arch src dst protocol total_len df output = Inr packet \<and>
    length packet = length output \<and> drop 20 packet = drop 20 output \<and>
    ipv4_from_prefix packet = Some (h, drop 20 output) \<and> ipv4_source h = src \<and> ipv4_destination h = dst \<and>
    ipv4_total_len h = unat total_len \<and> ipv4_dont_fragment h = df \<and>
    classify_ipv4_input True arch packet chain_len =
      Inr (ip_protocol_from_u8 protocol, if ipv4_is_multicast dst then LookupMulticastTarget else LookupTarget,
           NoInputError, unat total_len, 20, 20)"
proof -
  obtain h0 where h0: "ipv4_from_prefix output = Some (h0, drop 20 output)" using ipv4_prefix_Some [OF assms(1)] by blast
  let ?h = "h0\<lparr>v4_version_ihl := 0x45, v4_dscp_ecn := 0, v4_total_len := to_be_bytes 2 total_len,
              v4_identification := [0, 0],
              v4_flags_fragment := (if df then to_be_bytes 2 IPV4_FLAG_DONT_FRAGMENT else [0, 0]),
              v4_ttl := 255, v4_protocol := protocol, v4_checksum := [0, 0],
              v4_source := to_be_bytes 4 src, v4_destination := to_be_bytes 4 dst\<rparr>"
  let ?c = "internet_checksum True arch (ipv4_as_bytes ?h)"
  define h where "h = ?h\<lparr>v4_checksum := to_be_bytes 2 ?c\<rparr>"
  have s: "ipv4_shape ?h" "ipv4_shape h" by (simp_all add: ipv4_shape_def h_def)
  have z: "internet_checksum True arch (ipv4_as_bytes h) = 0" unfolding h_def by (rule ipv4_checksum_zero [OF s(1)]) simp
  have w: "write_ipv4_push_header True arch src dst protocol total_len df output = Inr (ipv4_as_bytes h @ drop 20 output)"
    by (simp add: write_ipv4_push_header_def h0 h_def Let_def)
  have p: "ipv4_from_prefix (ipv4_as_bytes h @ drop 20 output) = Some (h, drop 20 output)" by (rule ipv4_prefix_as_bytes [OF s(2)])
  have f: "ipv4_version h = 4" "ipv4_header_len h = 20" "ipv4_total_len h = unat total_len" "v4_ttl h = 255" "v4_protocol h = protocol"
    "ipv4_source h = src" "ipv4_destination h = dst"
    by (simp_all add: h_def ipv4_version_def ipv4_header_len_def ipv4_total_len_def ipv4_source_def ipv4_destination_def)
  have ff: "ipv4_flags_fragment h = (if df then 0x4000 else 0)"
    by (simp add: h_def ipv4_flags_fragment_def ip_consts from_be_bytes_2 u16_from_be_def)
  have l: "length (ipv4_as_bytes h) = 20" by (rule length_ipv4_as_bytes [OF s(2)])
  have e: "ipv4_input_error True arch (ipv4_as_bytes h @ drop 20 output) h chain_len = NoInputError"
    using f ff z l assms(2,3) by (simp add: ipv4_input_error_def ip_consts Let_def)
  have "classify_ipv4_input True arch (ipv4_as_bytes h @ drop 20 output) chain_len =
      Inr (ip_protocol_from_u8 protocol, if ipv4_is_multicast dst then LookupMulticastTarget else LookupTarget,
           NoInputError, unat total_len, 20, 20)"
    using f ff e l p by (simp add: classify_ipv4_input_def ipv4_input_target_def ip_consts Let_def)
  moreover have "ipv4_dont_fragment h = df" using ff by (simp add: ipv4_dont_fragment_def ip_consts)
  ultimately show ?thesis using w p f l assms(1) by auto
qed

theorem ip4_push_header_accepted_witness:
  "\<exists>packet. write_ipv4_push_header True OtherArch 0x0a000001 0x0a000002 6 40 True (replicate 44 7) = Inr packet \<and>
     drop 20 packet = replicate 24 7 \<and>
     classify_ipv4_input True OtherArch packet 44 = Inr (Tcp, LookupTarget, NoInputError, 40, 20, 20)"
  using ip4_push_header_accepted [of "replicate 44 7" 40 44 OtherArch "0x0a000001" "0x0a000002" 6 True]
  by (auto simp: ip_protocol_from_u8_def ipv4_is_multicast_def)




text \<open>
  C11. Whatever its bytes, a packet gets a next and an error without a panic once the feature arc of its version
  exists: a packet whose header is unusable is dropped with the error of its classification; any other keeps its
  bytes and carries the error of its classification, and the cursor its buffer then holds spans the whole packet,
  with the network header at its start and the transport header behind it, beside the version, protocol and ECN
  field of the header.
\<close>
theorem ip_input_no_panic:
  assumes arc: "arc_ready env version"
  shows "\<exists>next error b'. input_buffer env version b = Some (next, error, b') \<and> b_current b' = b_current b \<and>
    (case classify_input env version b of
       Inl e \<Rightarrow> next = input_drop_slot version \<and> error = e \<and> b' = clear_node_error b
     | Inr (protocol, target, e, packet_len, header_len, transport_offset) \<Rightarrow>
         error = e \<and>
         (\<exists>c. network_packet_cursor (b_network b') = Some c \<and> cursor_packet_len c = packet_len \<and> network_header_offset c = 0 \<and>
            network_header_len c = header_len \<and> transport_header_offset c = transport_offset \<and> transport_payload_offset c = transport_offset) \<and>
         ni_ip_version (no_ip (b_network b')) = (case version of IpV4 \<Rightarrow> 4 | IpV6 \<Rightarrow> 6) \<and>
         ni_ip_protocol (no_ip (b_network b')) = ip_protocol_to_u8 protocol \<and>
         ip_ecn_of (no_ip (b_network b')) = map_option ip_ecn_to_u8 (ip_ecn_from_packet (b_current b) version) \<and>
         (target = IcmpErrorTarget \<longrightarrow> icmp_metadata_read (b_secondary b') \<noteq> None))"
proof (cases "classify_input env version b")
  case (Inl e)
  then show ?thesis by (simp add: process_input_packet_classified clear_node_error_def)
next
  case (Inr cl)
  obtain protocol target e packet_len header_len transport_offset where
    cl: "cl = (protocol, target, e, packet_len, header_len, transport_offset)" by (cases cl)
  let ?ecn = "ip_ecn_from_packet (b_current b) version"
  have bounds: "packet_len < 2 ^ 32" "header_len < 2 ^ 16" "transport_offset < 2 ^ 16"
    using classify_input_bounds [of env version b] Inr cl by auto
  obtain b1 c where b1: "input_metadata env version cl ?ecn b = Some b1" "b_current b1 = b_current b"
    and c: "network_packet_cursor (b_network b1) = Some c" "cursor_packet_len c = packet_len" "network_header_offset c = 0"
      "network_header_len c = header_len" "transport_header_offset c = transport_offset" "transport_payload_offset c = transport_offset"
      "ni_ip_version (no_ip (b_network b1)) = (case version of IpV4 \<Rightarrow> 4 | IpV6 \<Rightarrow> 6)"
      "ni_ip_protocol (no_ip (b_network b1)) = ip_protocol_to_u8 protocol"
      "ip_ecn_of (no_ip (b_network b1)) = map_option ip_ecn_to_u8 ?ecn"
    using input_metadata_spec [OF bounds, of env version protocol target e ?ecn b] unfolding cl by blast
  obtain b2 where b2: "write_icmp_request version target b1 = Some b2" "b_network b2 = b_network b1" "b_current b2 = b_current b1"
      "target = IcmpErrorTarget \<longrightarrow> icmp_metadata_read (b_secondary b2) \<noteq> None"
    using write_icmp_request_spec [of version target b1] by blast
  obtain nx b3 i where "input_buffer env version b = Some (nx, e, b3)" "b3 = b2\<lparr>b_config_index := i\<rparr>"
    using input_buffer_accepted [OF arc Inr [unfolded cl] b1(1) [unfolded cl] b2(1)] by blast
  then show ?thesis using b1 b2 c by (simp add: Inr cl)
qed

theorem ip_input_no_panic_witness:
  "\<exists>n b'. input_buffer demo_env IpV4 (demo_buffer (0x45 # replicate 19 0)) = Some (n, BadLength, b') \<and>
     (\<exists>c. network_packet_cursor (b_network b') = Some c \<and> cursor_packet_len c = 0 \<and> transport_header_offset c = 20)"
proof -
  have "\<exists>i. b = b\<lparr>b_config_index := i\<rparr>" for b :: "unit ip_buffer" by (rule exI [of _ "b_config_index b"]) simp
  then have "arc_ready demo_env IpV4" by (auto simp: arc_ready_def demo_env_def)
  moreover have "classify_input demo_env IpV4 (demo_buffer (0x45 # replicate 19 0)) = Inr (Other 0, DropTarget, BadLength, 0, 20, 20)"
    using demo_bad_length by (simp add: classify_input_def demo_env_def demo_buffer_def total_len_not_including_first_def)
  ultimately show ?thesis using ip_input_no_panic [of demo_env IpV4 "demo_buffer (0x45 # replicate 19 0)"] by auto
qed

text \<open>
  C6. The unrolled frame loops of \<open>ip4-input\<close> and \<open>ip6-input\<close> process every packet of a frame exactly once and as if
  it were alone: the next of each packet, its buffer and its error are those of \<open>process_input_packet\<close> on that
  buffer; buffers outside the frame are untouched; every failed packet is marked with its error index, and each
  error counter grows by the number of packets that failed with its error.  (The frame has at most 256 distinct
  buffers that can be processed, and the node's error indices are registered.)
\<close>
theorem ip_input_frame:
  assumes r: "frame_results env version (rt_buffers rt) indices results" and d: "distinct indices"
    and n: "length indices \<le> DEFAULT_BUFFER_FRAME_CAPACITY" and g: "\<And>c. env_node_error_index env c = Some (g c)"
  shows "\<exists>rt'. ip_input_process_frame env version indices rt = Some (map result_next results, rt') \<and>
    rt_buffers rt' = (rt_buffers rt)(indices [\<mapsto>] map (\<lambda>r. if failed (result_error r)
        then (result_buffer r)\<lparr>b_error := Some (g (input_error_code (result_error r)))\<rparr> else result_buffer r) results) \<and>
    (\<forall>x. rt_error_counters rt' x = rt_error_counters rt x +
        of_nat (length (filter (\<lambda>r. failed (result_error r) \<and> g (input_error_code (result_error r)) = x) results)))"
proof -
  let ?n = "length indices" and ?es = "map result_error results" and ?bs = "map result_buffer results"
  let ?counts = "count_errors ?es (replicate 9 0)"
  have l: "length results = ?n" using r by (simp add: frame_results_def list_all2_lengthD)
  let ?rt = "rt\<lparr>rt_buffers := (rt_buffers rt)(indices [\<mapsto>] ?bs)\<rparr>"
  have c: "?counts ! j = of_nat (length (filter (\<lambda>e. failed e \<and> unat (input_error_code e) = j) ?es))" if "j < 9" for j
    using count_errors_nth [of "replicate 9 0" j ?es] that by simp
  obtain ix where ix: "record_error_counts env [1..<9] ?counts (replicate 9 None) ?rt = Some (ix,
        ?rt\<lparr>rt_error_counters := (\<lambda>x. rt_error_counters ?rt x + (\<Sum>c\<leftarrow>[1..<9]. if g (of_nat c) = x then ?counts ! c else 0))\<rparr>)"
      "\<forall>j < 9. ix ! j = (if j \<in> set [1..<9] \<and> ?counts ! j \<noteq> 0 then Some (g (of_nat j)) else None)"
    using record_error_counts_spec [of "[1..<9]" "replicate 9 None" env g ?counts ?rt] g by auto
  have sum: "(\<Sum>c\<leftarrow>[1..<9]. if g (of_nat c) = x then ?counts ! c else 0) =
      of_nat (length (filter (\<lambda>e. failed e \<and> g (input_error_code e) = x) ?es))" for x
  proof -
    have "(\<Sum>c\<leftarrow>[1..<9]. if g (of_nat c) = x then ?counts ! c else 0) =
        (\<Sum>c\<leftarrow>[1..<9]. if g (of_nat c) = x then of_nat (length (filter (\<lambda>e. failed e \<and> unat (input_error_code e) = c) ?es)) else 0)"
      using c by (intro arg_cong [of _ _ sum_list] map_cong refl) auto
    then show ?thesis by (simp only: sum_by_code)
  qed
  have m: "ix ! unat (input_error_code e) = (if failed e then Some (g (input_error_code e)) else None)" if "e \<in> set ?es" for e
  proof (cases "failed e")
    case True
    have "length (filter (\<lambda>e'. failed e' \<and> unat (input_error_code e') = unat (input_error_code e)) ?es) \<noteq> 0"
      using that True by (auto simp: filter_empty_conv)
    moreover have "length (filter (\<lambda>e'. failed e' \<and> unat (input_error_code e') = unat (input_error_code e)) ?es) \<le> 256"
      using n l le_trans [OF length_filter_le, of ?es 256] by (simp add: DEFAULT_BUFFER_FRAME_CAPACITY_def)
    ultimately have "?counts ! unat (input_error_code e) \<noteq> 0"
      unfolding c [OF code_less] by (simp add: of_nat_u64_nonzero)
    then show ?thesis using ix(2) code_less [of e] code_0 [of e] True by simp
  next
    case False
    then show ?thesis using ix(2) code_0 [of e] by simp
  qed
  let ?cs = "\<lambda>x. rt_error_counters rt x + of_nat (length (filter (\<lambda>e. failed e \<and> g (input_error_code e) = x) ?es))"
  let ?bs' = "map (\<lambda>r. if failed (result_error r) then (result_buffer r)\<lparr>b_error := Some (g (input_error_code (result_error r)))\<rparr>
      else result_buffer r) results"
  have b: "map2 (\<lambda>e. set_error (ix ! unat (input_error_code e))) ?es ?bs = ?bs'"
  proof (rule nth_equalityI)
    fix i assume "i < length (map2 (\<lambda>e. set_error (ix ! unat (input_error_code e))) ?es ?bs)"
    then have i: "i < length results" by simp
    show "map2 (\<lambda>e. set_error (ix ! unat (input_error_code e))) ?es ?bs ! i = ?bs' ! i"
      using i m [of "result_error (results ! i)"] by (simp add: split_beta)
  qed simp
  have f: "finish_input_errors env indices ?es ?rt = Some (rt\<lparr>rt_error_counters := ?cs, rt_buffers := (rt_buffers rt)(indices [\<mapsto>] ?bs')\<rparr>)"
    using mark_errors_spec [OF d, of ?es ?bs ix "rt_buffers rt" "rt\<lparr>rt_error_counters := ?cs\<rparr>"] ix(1) l
    by (simp only: finish_input_errors_def Let_def bind.bind_lunit split sum b length_map runtime_update_swap) simp
  have p: "process_all env version indices [0..<?n] \<lparr>fs_runtime = rt, fs_nexts = replicate DEFAULT_BUFFER_FRAME_CAPACITY 0,
        fs_errors = replicate DEFAULT_BUFFER_FRAME_CAPACITY NoInputError\<rparr> =
      Some \<lparr>fs_runtime = ?rt, fs_nexts = map result_next results @ replicate (DEFAULT_BUFFER_FRAME_CAPACITY - ?n) 0,
          fs_errors = ?es @ replicate (DEFAULT_BUFFER_FRAME_CAPACITY - ?n) NoInputError\<rparr>"
    using process_all_results [OF r d n order.refl] l by simp
  have "length (filter (\<lambda>e. failed e \<and> g (input_error_code e) = x) ?es) =
      length (filter (\<lambda>r. failed (result_error r) \<and> g (input_error_code (result_error r)) = x) results)" for x
    by (simp add: filter_map o_def)
  then show ?thesis unfolding frame_all Let_def p using n l f by simp
qed

theorem ip_input_frame_witness:
  "\<exists>rt'. ip_input_process_frame demo_env IpV4 [5, 9] \<lparr>rt_buffers = [5 \<mapsto> demo_buffer [0x45], 9 \<mapsto> demo_buffer (replicate 20 0x65)],
       rt_error_counters = (\<lambda>_. 0)\<rparr> = Some ([0, 0], rt') \<and>
     rt_error_counters rt' 102 = 1 \<and> rt_error_counters rt' 101 = 1 \<and> rt_error_counters rt' 103 = 0 \<and>
     map_option b_error (rt_buffers rt' 9) = Some (Some 101)"
proof -
  let ?rt = "\<lparr>rt_buffers = [5 \<mapsto> demo_buffer [0x45], 9 \<mapsto> demo_buffer (replicate 20 0x65)], rt_error_counters = (\<lambda>_. 0)\<rparr>"
  have "frame_results demo_env IpV4 (rt_buffers ?rt) [5, 9]
      [(0, HeaderTooShort, demo_buffer [0x45]), (0, VersionError, demo_buffer (replicate 20 0x65))]"
    by (simp add: frame_results_def demo_short demo_version)
  from ip_input_frame [OF this, of "\<lambda>code. code + 100"] show ?thesis
    by (auto simp: DEFAULT_BUFFER_FRAME_CAPACITY_def demo_env_def failed_def)
qed

end
