(* ===== verification/TimerWheel.thy ===== *)
theory TimerWheel imports Bitmap "HOL-Library.Multiset" begin

text \<open>The hierarchical timer wheel of \<open>hammer-infra/src/timer_wheel.rs\<close>: one to three rings of
  slots, an optional overflow list, and a table of entries that form doubly linked lists through
  indices. The const generics are the record \<open>geometry\<close>. The 32- and 64-bit fields are natural
  numbers; every checked addition and every conversion that can fail is written out, and \<open>None\<close> is
  a panic. Debug assertions are left out; the invariant implies them. The second half of the file
  (the timers named by a slot, a generation and an id) is the wheel over 32-bit payloads.

  The lemmas go in three layers: linked lists in the entry table, the placement of a timer as a
  function of its expiration tick and the current tick, and the operations. The properties say that
  the wheel implements a finite set of timers in which every tick expires exactly those due.\<close>

subsection \<open>Types\<close>

record geometry =
  WHEELS :: nat
  SLOTS :: nat
  FAST_BITMAP :: bool
  OVERFLOW :: bool
  DUPLICATE_STOP :: bool

definition TimerWheel1t1w32sl :: geometry where
  "TimerWheel1t1w32sl = \<lparr>WHEELS = 1, SLOTS = 32, FAST_BITMAP = False, OVERFLOW = False, DUPLICATE_STOP = True\<rparr>"

definition TimerWheel1w32FastHint :: geometry where
  "TimerWheel1w32FastHint = \<lparr>WHEELS = 1, SLOTS = 32, FAST_BITMAP = True, OVERFLOW = False, DUPLICATE_STOP = True\<rparr>"

definition TimerWheel1t2w32sl :: geometry where
  "TimerWheel1t2w32sl = \<lparr>WHEELS = 2, SLOTS = 32, FAST_BITMAP = False, OVERFLOW = False, DUPLICATE_STOP = True\<rparr>"

definition TimerWheel2t1w2048sl :: geometry where
  "TimerWheel2t1w2048sl = \<lparr>WHEELS = 1, SLOTS = 2048, FAST_BITMAP = False, OVERFLOW = False, DUPLICATE_STOP = True\<rparr>"

definition TimerWheel1t2w2048sl :: geometry where
  "TimerWheel1t2w2048sl = \<lparr>WHEELS = 2, SLOTS = 2048, FAST_BITMAP = False, OVERFLOW = False, DUPLICATE_STOP = True\<rparr>"

definition TimerWheel1t3w1024slOv :: geometry where
  "TimerWheel1t3w1024slOv = \<lparr>WHEELS = 3, SLOTS = 1024, FAST_BITMAP = True, OVERFLOW = True, DUPLICATE_STOP = True\<rparr>"

definition INVALID_INDEX :: nat where
  "INVALID_INDEX = 2 ^ 32 - 1"

definition u64_max :: nat where
  "u64_max = 2 ^ 64 - 1"

datatype timer_start_error = ZeroInterval | IntervalOutOfRange

record 'a timer_entry =
  te_next :: nat
  te_prev :: nat
  te_payload :: "'a option"
  te_live :: bool
  fast_ring_offset :: nat
  slow_ring_offset :: nat
  expiration_tick :: nat

definition entry_list_head :: "nat \<Rightarrow> 'a timer_entry" where
  "entry_list_head index = \<lparr>te_next = index, te_prev = index, te_payload = None, te_live = False,
     fast_ring_offset = 0, slow_ring_offset = 0, expiration_tick = 0\<rparr>"

definition entry_timer :: "'a \<Rightarrow> nat \<Rightarrow> 'a timer_entry" where
  "entry_timer payload tick = \<lparr>te_next = INVALID_INDEX, te_prev = INVALID_INDEX, te_payload = Some payload,
     te_live = True, fast_ring_offset = 0, slow_ring_offset = 0, expiration_tick = tick\<rparr>"

record 'a timer_wheel =
  current_tick :: nat
  current_index :: "nat list"
  slot_heads :: "nat list"
  overflow_head :: nat
  entries :: "'a timer_entry list"
  free_slots :: "nat list"
  fast_slot_bitmap :: bitmap
  slot_generations :: "nat list"
  timer_slots :: "nat list"
  timer_bitmap :: bitmap
  timers_per_slot :: usize
  tw_len :: usize
  max_expirations :: usize


subsection \<open>Geometry\<close>

definition ring_shift :: "geometry \<Rightarrow> nat" where
  "ring_shift g = nat_trailing_zeros (SLOTS g)"

fun horizon_loop :: "nat \<Rightarrow> nat \<Rightarrow> nat \<Rightarrow> nat option" where
  "horizon_loop slots 0 h = Some h"
| "horizon_loop slots (Suc n) h = (if h * slots > u64_max then None else horizon_loop slots n (h * slots))"

definition horizon :: "geometry \<Rightarrow> nat option" where
  "horizon g = horizon_loop (SLOTS g) (WHEELS g) 1"

definition validate_geometry :: "geometry \<Rightarrow> unit option" where
  "validate_geometry g =
     (if 1 \<le> WHEELS g \<and> WHEELS g \<le> 3 \<and> SLOTS g > 0 \<and> is_power_of_two (SLOTS g) \<and> SLOTS g < 2 ^ 32
      then map_option (\<lambda>_. ()) (horizon g) else None)"

definition max_direct_interval :: "geometry \<Rightarrow> nat option" where
  "max_direct_interval g = (if WHEELS g = 1 then Some (SLOTS g) else map_option (\<lambda>h. h - 1) (horizon g))"


subsection \<open>Entry table and lists\<close>

definition get_entry :: "'a timer_wheel \<Rightarrow> nat \<Rightarrow> 'a timer_entry option" where
  "get_entry w i = (if i < length (entries w) then Some (entries w ! i) else None)"

definition set_entry :: "nat \<Rightarrow> ('a timer_entry \<Rightarrow> 'a timer_entry) \<Rightarrow> 'a timer_wheel \<Rightarrow> 'a timer_wheel option" where
  "set_entry i f w =
     (if i < length (entries w) then Some (w\<lparr>entries := (entries w)[i := f (entries w ! i)]\<rparr>) else None)"

definition push_list_head :: "'a timer_entry list \<Rightarrow> (nat \<times> 'a timer_entry list) option" where
  "push_list_head es =
     (if length es < 2 ^ 32 then Some (length es, es @ [entry_list_head (length es)]) else None)"

definition slot_head :: "geometry \<Rightarrow> 'a timer_wheel \<Rightarrow> nat \<Rightarrow> nat \<Rightarrow> nat option" where
  "slot_head g w ring slot =
     (let i = ring * SLOTS g + slot in if i < length (slot_heads w) then Some (slot_heads w ! i) else None)"

definition detach_entry :: "nat \<Rightarrow> 'a timer_wheel \<Rightarrow> 'a timer_wheel option" where
  "detach_entry slot w =
     do { w \<leftarrow> set_entry slot (te_next_update (\<lambda>_. INVALID_INDEX)) w;
          set_entry slot (te_prev_update (\<lambda>_. INVALID_INDEX)) w }"

definition take_list :: "nat \<Rightarrow> 'a timer_wheel \<Rightarrow> (nat \<times> 'a timer_wheel) option" where
  "take_list head w =
     do { e \<leftarrow> get_entry w head;
          w \<leftarrow> set_entry head (te_next_update (\<lambda>_. head)) w;
          w \<leftarrow> set_entry head (te_prev_update (\<lambda>_. head)) w;
          Some (te_next e, w) }"

definition unlink :: "nat \<Rightarrow> 'a timer_wheel \<Rightarrow> 'a timer_wheel option" where
  "unlink slot w =
     do { e \<leftarrow> get_entry w slot;
          w \<leftarrow> set_entry (te_prev e) (te_next_update (\<lambda>_. te_next e)) w;
          w \<leftarrow> set_entry (te_next e) (te_prev_update (\<lambda>_. te_prev e)) w;
          detach_entry slot w }"

definition add_to_list :: "nat \<Rightarrow> nat \<Rightarrow> 'a timer_wheel \<Rightarrow> 'a timer_wheel option" where
  "add_to_list head slot w =
     do { e \<leftarrow> get_entry w head;
          w \<leftarrow> set_entry slot (te_next_update (\<lambda>_. te_next e)) w;
          w \<leftarrow> set_entry slot (te_prev_update (\<lambda>_. head)) w;
          w \<leftarrow> set_entry (te_next e) (te_prev_update (\<lambda>_. slot)) w;
          set_entry head (te_next_update (\<lambda>_. slot)) w }"

definition add_to_fast_slot :: "geometry \<Rightarrow> nat \<Rightarrow> nat \<Rightarrow> 'a timer_wheel \<Rightarrow> 'a timer_wheel option" where
  "add_to_fast_slot g fast_offset slot w =
     do { head \<leftarrow> slot_head g w 0 fast_offset;
          w \<leftarrow> add_to_list head slot w;
          Some (if FAST_BITMAP g then w\<lparr>fast_slot_bitmap := snd (bitmap_set (fast_slot_bitmap w) fast_offset)\<rparr> else w) }"


subsection \<open>Placement\<close>

text \<open>The offsets are below \<open>SLOTS\<close>, which fits 32 bits, so the final conversions keep them.\<close>

definition timer_offsets :: "geometry \<Rightarrow> 'a timer_wheel \<Rightarrow> nat \<Rightarrow> nat \<times> nat \<times> nat" where
  "timer_offsets g w interval =
     (let shift = ring_shift g;
          slots = SLOTS g;
          remaining = interval;
          glacier = (if WHEELS g > 2 then remaining div 2 ^ (shift * 2) else 0);
          remaining = (if WHEELS g > 2 then remaining - glacier * 2 ^ (shift * 2) else remaining);
          slow = (if WHEELS g > 1 then remaining div 2 ^ shift else 0);
          remaining = (if WHEELS g > 1 then remaining - slow * 2 ^ shift else remaining);
          fast = remaining mod slots + current_index w ! 0;
          carry = (if fast \<ge> slots then 1 else 0);
          fast = fast mod slots;
          slow' = slow + current_index w ! 1 + carry;
          carry = (if WHEELS g > 1 then (if slow' \<ge> slots then 1 else 0) else carry);
          slow = (if WHEELS g > 1 then slow' mod slots else slow);
          glacier = (if WHEELS g > 2 then (glacier + current_index w ! 2 + carry) mod slots else glacier)
      in (fast mod 2 ^ 32, slow mod 2 ^ 32, glacier mod 2 ^ 32))"

definition should_overflow :: "geometry \<Rightarrow> 'a timer_wheel \<Rightarrow> nat \<Rightarrow> bool option" where
  "should_overflow g w interval =
     (if \<not> (OVERFLOW g \<and> WHEELS g = 3) then Some False
      else do { h \<leftarrow> horizon g;
                let phase = current_tick w mod h;
                Some (min (interval + phase) u64_max \<ge> h) })"

definition place_timer_direct :: "geometry \<Rightarrow> nat \<Rightarrow> nat \<Rightarrow> 'a timer_wheel \<Rightarrow> 'a timer_wheel option" where
  "place_timer_direct g slot interval w =
     (let (fast, slow, glacier) = timer_offsets g w interval in
      if WHEELS g > 2 \<and> glacier \<noteq> current_index w ! 2 then
        do { w \<leftarrow> set_entry slot (slow_ring_offset_update (\<lambda>_. slow)) w;
             w \<leftarrow> set_entry slot (fast_ring_offset_update (\<lambda>_. fast)) w;
             head \<leftarrow> slot_head g w 2 glacier;
             add_to_list head slot w }
      else if WHEELS g > 1 \<and> slow \<noteq> current_index w ! 1 then
        do { w \<leftarrow> set_entry slot (fast_ring_offset_update (\<lambda>_. fast)) w;
             head \<leftarrow> slot_head g w 1 slow;
             add_to_list head slot w }
      else add_to_fast_slot g fast slot w)"

definition place_timer :: "geometry \<Rightarrow> nat \<Rightarrow> nat \<Rightarrow> 'a timer_wheel \<Rightarrow> 'a timer_wheel option" where
  "place_timer g slot interval w =
     do { ov \<leftarrow> should_overflow g w interval;
          if ov then add_to_list (overflow_head w) slot w else place_timer_direct g slot interval w }"


subsection \<open>Timers\<close>

definition wheel_new :: "geometry \<Rightarrow> usize \<Rightarrow> 'a timer_wheel option" where
  "wheel_new g budget =
     do { validate_geometry g;
          (heads, es) \<leftarrow>
            fold (\<lambda>_ acc. do { (heads, es) \<leftarrow> acc; (h, es) \<leftarrow> push_list_head es; Some (heads @ [h], es) })
              [0..<WHEELS g * SLOTS g] (Some ([], []));
          (ov, es) \<leftarrow> (if OVERFLOW g then push_list_head es else Some (INVALID_INDEX, es));
          Some \<lparr>current_tick = 0, current_index = [0, 0, 0], slot_heads = heads, overflow_head = ov, entries = es,
                free_slots = [],
                fast_slot_bitmap = (if FAST_BITMAP g then bitmap_with_capacity (SLOTS g) else bitmap_new),
                slot_generations = [], timer_slots = [], timer_bitmap = bitmap_new, timers_per_slot = 0,
                tw_len = 0, max_expirations = budget\<rparr> }"

definition wheel_is_empty :: "'a timer_wheel \<Rightarrow> bool" where
  "wheel_is_empty w \<longleftrightarrow> tw_len w = 0"

text \<open>The free list is a stack whose top is the last element.\<close>

definition allocate_timer :: "'a \<Rightarrow> nat \<Rightarrow> 'a timer_wheel \<Rightarrow> (nat \<times> 'a timer_wheel) option" where
  "allocate_timer payload tick w =
     (if free_slots w \<noteq> [] then
        do { let slot = last (free_slots w);
             w \<leftarrow> set_entry slot (\<lambda>_. entry_timer payload tick) (w\<lparr>free_slots := butlast (free_slots w)\<rparr>);
             Some (slot, w\<lparr>tw_len := tw_len w + 1\<rparr>) }
      else if length (entries w) < 2 ^ 32 then
        Some (length (entries w), w\<lparr>entries := entries w @ [entry_timer payload tick], tw_len := tw_len w + 1\<rparr>)
      else None)"

definition free_timer :: "nat \<Rightarrow> 'a timer_wheel \<Rightarrow> 'a timer_wheel option" where
  "free_timer slot w =
     do { w \<leftarrow> set_entry slot (\<lambda>e. e\<lparr>te_live := False, te_next := INVALID_INDEX, te_prev := INVALID_INDEX,
                                       te_payload := None\<rparr>) w;
          if tw_len w = 0 then None
          else Some (w\<lparr>tw_len := tw_len w - 1, free_slots := free_slots w @ [slot]\<rparr>) }"

definition expire_timer :: "nat \<Rightarrow> 'a timer_wheel \<times> 'a list \<Rightarrow> ('a timer_wheel \<times> 'a list) option" where
  "expire_timer slot s =
     do { e \<leftarrow> get_entry (fst s) slot;
          payload \<leftarrow> te_payload e;
          w \<leftarrow> free_timer slot (fst s);
          Some (w, snd s @ [payload]) }"

definition live_slot :: "'a timer_wheel \<Rightarrow> nat \<Rightarrow> nat option" where
  "live_slot w handle =
     (if handle \<ge> length (entries w) then None
      else if te_live (entries w ! handle) then Some handle else None)"

definition handle_is_live :: "'a timer_wheel \<Rightarrow> nat \<Rightarrow> bool" where
  "handle_is_live w handle \<longleftrightarrow> live_slot w handle \<noteq> None"

definition validate_interval :: "geometry \<Rightarrow> 'a timer_wheel \<Rightarrow> nat \<Rightarrow> (timer_start_error + unit) option" where
  "validate_interval g w interval =
     (if interval = 0 then Some (Inl ZeroInterval)
      else if current_tick w + interval > u64_max then Some (Inl IntervalOutOfRange)
      else if \<not> (OVERFLOW g \<and> WHEELS g = 3)
      then do { m \<leftarrow> max_direct_interval g;
                Some (if interval > m then Inl IntervalOutOfRange else Inr ()) }
      else Some (Inr ()))"

text \<open>\<open>start\<close> checks the sum of the tick and the interval a second time; \<open>validate_interval\<close> has
  already refused it.\<close>

definition wheel_start ::
  "geometry \<Rightarrow> 'a \<Rightarrow> nat \<Rightarrow> 'a timer_wheel \<Rightarrow> (timer_start_error + nat \<times> 'a timer_wheel) option" where
  "wheel_start g payload interval w =
     do { r \<leftarrow> validate_interval g w interval;
          case r of
            Inl e \<Rightarrow> Some (Inl e)
          | Inr _ \<Rightarrow>
              if current_tick w + interval > u64_max then Some (Inl IntervalOutOfRange)
              else do { (slot, w) \<leftarrow> allocate_timer payload (current_tick w + interval) w;
                        w \<leftarrow> place_timer g slot interval w;
                        Some (Inr (slot, w)) } }"

definition wheel_stop :: "nat \<Rightarrow> 'a timer_wheel \<Rightarrow> (bool \<times> 'a timer_wheel) option" where
  "wheel_stop handle w =
     (case live_slot w handle of
        None \<Rightarrow> Some (False, w)
      | Some slot \<Rightarrow> do { w \<leftarrow> unlink slot w; w \<leftarrow> free_timer slot w; Some (True, w) })"

definition wheel_update ::
  "geometry \<Rightarrow> nat \<Rightarrow> nat \<Rightarrow> 'a timer_wheel \<Rightarrow> (timer_start_error + bool \<times> 'a timer_wheel) option" where
  "wheel_update g handle interval w =
     do { r \<leftarrow> validate_interval g w interval;
          case r of
            Inl e \<Rightarrow> Some (Inl e)
          | Inr _ \<Rightarrow>
              if current_tick w + interval > u64_max then Some (Inl IntervalOutOfRange)
              else (case live_slot w handle of
                      None \<Rightarrow> Some (Inr (False, w))
                    | Some slot \<Rightarrow>
                        do { let tick = current_tick w + interval;
                             w \<leftarrow> unlink slot w;
                             w \<leftarrow> set_entry slot (expiration_tick_update (\<lambda>_. tick)) w;
                             w \<leftarrow> place_timer g slot interval w;
                             Some (Inr (True, w)) }) }"


subsection \<open>Advancing\<close>

text \<open>The four drains have the same loop: take the next entry, detach it, run the body. A corrupt
  list could make it run forever; not returning is \<open>None\<close>.\<close>

partial_function (option) drain_loop ::
  "(nat \<Rightarrow> 'a timer_wheel \<times> 'a list \<Rightarrow> ('a timer_wheel \<times> 'a list) option) \<Rightarrow> nat \<Rightarrow> nat \<Rightarrow>
     'a timer_wheel \<times> 'a list \<Rightarrow> ('a timer_wheel \<times> 'a list) option" where
  "drain_loop body head next s =
     (if next = head then Some s
      else do { e \<leftarrow> get_entry (fst s) next;
                w \<leftarrow> detach_entry next (fst s);
                s \<leftarrow> body next (w, snd s);
                drain_loop body head (te_next e) s })"

definition process_overflow_body ::
  "geometry \<Rightarrow> nat \<Rightarrow> 'a timer_wheel \<times> 'a list \<Rightarrow> ('a timer_wheel \<times> 'a list) option" where
  "process_overflow_body g slot s =
     (let w = fst s in
      do { e \<leftarrow> get_entry w slot;
           if expiration_tick e \<le> current_tick w then expire_timer slot s
           else do { let interval = expiration_tick e - current_tick w;
                     ov \<leftarrow> should_overflow g w interval;
                     w \<leftarrow> (if ov then add_to_list (overflow_head w) slot w else place_timer_direct g slot interval w);
                     Some (w, snd s) } })"

definition process_overflow ::
  "geometry \<Rightarrow> 'a timer_wheel \<times> 'a list \<Rightarrow> ('a timer_wheel \<times> 'a list) option" where
  "process_overflow g s =
     (let head = overflow_head (fst s) in
      do { (next, w) \<leftarrow> take_list head (fst s); drain_loop (process_overflow_body g) head next (w, snd s) })"

definition cascade_glacier_body ::
  "geometry \<Rightarrow> nat \<Rightarrow> 'a timer_wheel \<times> 'a list \<Rightarrow> ('a timer_wheel \<times> 'a list) option" where
  "cascade_glacier_body g slot s =
     (let w = fst s in
      do { e \<leftarrow> get_entry w slot;
           if slow_ring_offset e = current_index w ! 1 \<and> fast_ring_offset e = current_index w ! 0
           then expire_timer slot s
           else if slow_ring_offset e = current_index w ! 1
           then do { w \<leftarrow> add_to_fast_slot g (fast_ring_offset e) slot w; Some (w, snd s) }
           else do { head \<leftarrow> slot_head g w 1 (slow_ring_offset e);
                     w \<leftarrow> add_to_list head slot w;
                     Some (w, snd s) } })"

definition cascade_glacier ::
  "geometry \<Rightarrow> 'a timer_wheel \<times> 'a list \<Rightarrow> ('a timer_wheel \<times> 'a list) option" where
  "cascade_glacier g s =
     do { head \<leftarrow> slot_head g (fst s) 2 (current_index (fst s) ! 2);
          (next, w) \<leftarrow> take_list head (fst s);
          drain_loop (cascade_glacier_body g) head next (w, snd s) }"

definition cascade_slow_body ::
  "geometry \<Rightarrow> nat \<Rightarrow> 'a timer_wheel \<times> 'a list \<Rightarrow> ('a timer_wheel \<times> 'a list) option" where
  "cascade_slow_body g slot s =
     (let w = fst s in
      do { e \<leftarrow> get_entry w slot;
           if fast_ring_offset e = current_index w ! 0 then expire_timer slot s
           else do { w \<leftarrow> add_to_fast_slot g (fast_ring_offset e) slot w; Some (w, snd s) } })"

definition cascade_slow ::
  "geometry \<Rightarrow> 'a timer_wheel \<times> 'a list \<Rightarrow> ('a timer_wheel \<times> 'a list) option" where
  "cascade_slow g s =
     do { head \<leftarrow> slot_head g (fst s) 1 (current_index (fst s) ! 1);
          (next, w) \<leftarrow> take_list head (fst s);
          drain_loop (cascade_slow_body g) head next (w, snd s) }"

definition expire_fast_slot ::
  "geometry \<Rightarrow> 'a timer_wheel \<times> 'a list \<Rightarrow> ('a timer_wheel \<times> 'a list) option" where
  "expire_fast_slot g s =
     (let fast_slot = current_index (fst s) ! 0 in
      do { head \<leftarrow> slot_head g (fst s) 0 fast_slot;
           (next, w) \<leftarrow> take_list head (fst s);
           s \<leftarrow> drain_loop expire_timer head next (w, snd s);
           Some (if FAST_BITMAP g
                 then ((fst s)\<lparr>fast_slot_bitmap := snd (bitmap_clear (fast_slot_bitmap (fst s)) fast_slot)\<rparr>, snd s)
                 else s) })"

definition advance_ring :: "geometry \<Rightarrow> nat \<Rightarrow> 'a timer_wheel \<Rightarrow> bool \<times> 'a timer_wheel" where
  "advance_ring g ring w =
     (let next = current_index w ! ring + 1 in
      if next = SLOTS g then (True, w\<lparr>current_index := (current_index w)[ring := 0]\<rparr>)
      else (False, w\<lparr>current_index := (current_index w)[ring := next]\<rparr>))"

definition advance_one_tick ::
  "geometry \<Rightarrow> 'a timer_wheel \<times> 'a list \<Rightarrow> ('a timer_wheel \<times> 'a list) option" where
  "advance_one_tick g s =
     (if current_tick (fst s) + 1 > u64_max then None
      else let w = (fst s)\<lparr>current_tick := current_tick (fst s) + 1\<rparr>;
               (fast_wrapped, w) = advance_ring g 0 w;
               (slow_wrapped, w) = (if fast_wrapped \<and> WHEELS g > 1 then advance_ring g 1 w else (False, w));
               (glacier_wrapped, w) = (if slow_wrapped \<and> WHEELS g > 2 then advance_ring g 2 w else (False, w));
               s = (w, snd s)
           in do { s \<leftarrow> (if glacier_wrapped \<and> OVERFLOW g then process_overflow g s else Some s);
                   s \<leftarrow> (if slow_wrapped \<and> WHEELS g > 2 then cascade_glacier g s else Some s);
                   s \<leftarrow> (if fast_wrapped \<and> WHEELS g > 1 then cascade_slow g s else Some s);
                   expire_fast_slot g s })"

definition expiration_budget :: "'a timer_wheel \<Rightarrow> usize" where
  "expiration_budget w = (if max_expirations w = 0 then usize_max else max_expirations w)"

fun expire_loop ::
  "geometry \<Rightarrow> usize \<Rightarrow> usize \<Rightarrow> nat \<Rightarrow> 'a timer_wheel \<times> 'a list \<Rightarrow> ('a timer_wheel \<times> 'a list) option" where
  "expire_loop g initial_len budget 0 s = Some s"
| "expire_loop g initial_len budget (Suc n) s =
     (if length (snd s) - initial_len \<ge> budget then Some s
      else do { s \<leftarrow> advance_one_tick g s; expire_loop g initial_len budget n s })"

definition wheel_expire ::
  "geometry \<Rightarrow> nat \<Rightarrow> 'a timer_wheel \<times> 'a list \<Rightarrow> (usize \<times> 'a timer_wheel \<times> 'a list) option" where
  "wheel_expire g ticks s =
     (let initial_len = length (snd s) in
      do { s \<leftarrow> expire_loop g initial_len (expiration_budget (fst s)) ticks s;
           Some (length (snd s) - initial_len, s) })"

fun first_set_offset :: "geometry \<Rightarrow> 'a timer_wheel \<Rightarrow> nat list \<Rightarrow> nat" where
  "first_set_offset g w [] = SLOTS g"
| "first_set_offset g w (offset # offsets) =
     (if bitmap_is_set (fast_slot_bitmap w) ((current_index w ! 0 + offset) mod SLOTS g) then offset
      else first_set_offset g w offsets)"

definition first_expires_in_ticks :: "geometry \<Rightarrow> 'a timer_wheel \<Rightarrow> nat option" where
  "first_expires_in_ticks g w =
     (if \<not> FAST_BITMAP g then None else Some (first_set_offset g w [0..<SLOTS g]))"


subsection \<open>Timers named by slot, generation and id\<close>

definition with_timer_ids :: "geometry \<Rightarrow> usize \<Rightarrow> usize \<Rightarrow> nat timer_wheel option" where
  "with_timer_ids g budget per_slot =
     do { w \<leftarrow> wheel_new g budget; if per_slot > 0 then Some (w\<lparr>timers_per_slot := per_slot\<rparr>) else None }"

definition timer_flat_index :: "nat timer_wheel \<Rightarrow> nat \<Rightarrow> nat \<Rightarrow> usize option" where
  "timer_flat_index w slot timer_id =
     (if timers_per_slot w > 0 \<and> timer_id < timers_per_slot w
      then Some (slot * timers_per_slot w + timer_id) else None)"

definition clear_timer_slot :: "usize \<Rightarrow> nat timer_wheel \<Rightarrow> nat timer_wheel option" where
  "clear_timer_slot flat w =
     (if flat < length (timer_slots w)
      then Some (w\<lparr>timer_bitmap := snd (bitmap_clear (timer_bitmap w) flat),
                   timer_slots := (timer_slots w)[flat := INVALID_INDEX]\<rparr>) else None)"

definition timer_handle_at :: "nat timer_wheel \<Rightarrow> usize \<Rightarrow> nat option" where
  "timer_handle_at w flat = (if flat < length (timer_slots w) then Some (timer_slots w ! flat) else None)"

fun reset_slot_loop :: "usize list \<Rightarrow> nat timer_wheel \<Rightarrow> nat timer_wheel option" where
  "reset_slot_loop [] w = Some w"
| "reset_slot_loop (flat # flats) w =
     (if \<not> bitmap_is_set (timer_bitmap w) flat then reset_slot_loop flats w
      else do { handle \<leftarrow> timer_handle_at w flat;
                w \<leftarrow> clear_timer_slot flat w;
                (_, w) \<leftarrow> wheel_stop handle w;
                reset_slot_loop flats w })"

definition reset_slot :: "usize \<Rightarrow> nat timer_wheel \<Rightarrow> nat timer_wheel option" where
  "reset_slot slot w =
     (if timers_per_slot w = 0 then Some w
      else let start = slot * timers_per_slot w; stop = start + timers_per_slot w in
           if stop > length (timer_slots w) then Some w else reset_slot_loop [start..<stop] w)"

text \<open>The two \<open>while ... push\<close> loops of \<open>prepare_slot\<close> pad a vector to a length.\<close>

definition pad_to :: "nat \<Rightarrow> 'b \<Rightarrow> 'b list \<Rightarrow> 'b list" where
  "pad_to n v xs = xs @ replicate (n - length xs) v"

definition prepare_slot :: "nat \<Rightarrow> nat \<Rightarrow> nat timer_wheel \<Rightarrow> nat timer_wheel option" where
  "prepare_slot slot generation w =
     (if timers_per_slot w = 0 then None
      else let w = (if slot \<ge> length (slot_generations w)
                    then w\<lparr>slot_generations := pad_to (slot + 1) 0 (slot_generations w),
                           timer_slots := pad_to ((slot + 1) * timers_per_slot w) INVALID_INDEX (timer_slots w)\<rparr>
                    else w) in
           if slot_generations w ! slot = generation then Some w
           else do { w \<leftarrow> reset_slot slot w;
                     Some (w\<lparr>slot_generations := (slot_generations w)[slot := generation]\<rparr>) })"

definition cancel_timer :: "nat \<Rightarrow> nat \<Rightarrow> nat \<Rightarrow> nat timer_wheel \<Rightarrow> (bool \<times> nat timer_wheel) option" where
  "cancel_timer slot generation timer_id w =
     (if timers_per_slot w = 0 then Some (False, w)
      else if slot \<ge> length (slot_generations w) \<or> slot_generations w ! slot \<noteq> generation then Some (False, w)
      else do { flat \<leftarrow> timer_flat_index w slot timer_id;
                if \<not> bitmap_is_set (timer_bitmap w) flat then Some (False, w)
                else do { handle \<leftarrow> timer_handle_at w flat;
                          w \<leftarrow> clear_timer_slot flat w;
                          wheel_stop handle w } })"

definition arm_timer ::
  "geometry \<Rightarrow> nat \<Rightarrow> nat \<Rightarrow> nat \<Rightarrow> nat \<Rightarrow> nat timer_wheel \<Rightarrow> ((timer_start_error + unit) \<times> nat timer_wheel) option" where
  "arm_timer g slot generation timer_id interval w =
     do { w \<leftarrow> prepare_slot slot generation w;
          flat \<leftarrow> timer_flat_index w slot timer_id;
          (_, w) \<leftarrow> cancel_timer slot generation timer_id w;
          r \<leftarrow> wheel_start g (flat mod 2 ^ 32) interval w;
          case r of
            Inl e \<Rightarrow> Some (Inl e, w)
          | Inr (handle, w) \<Rightarrow>
              if flat < length (timer_slots w)
              then Some (Inr (), w\<lparr>timer_slots := (timer_slots w)[flat := handle],
                                   timer_bitmap := snd (bitmap_set (timer_bitmap w) flat)\<rparr>)
              else None }"

definition update_timer ::
  "geometry \<Rightarrow> nat \<Rightarrow> nat \<Rightarrow> nat \<Rightarrow> nat \<Rightarrow> nat timer_wheel \<Rightarrow> ((timer_start_error + unit) \<times> nat timer_wheel) option" where
  "update_timer g slot generation timer_id interval w =
     do { w \<leftarrow> prepare_slot slot generation w;
          flat \<leftarrow> timer_flat_index w slot timer_id;
          if bitmap_is_set (timer_bitmap w) flat
          then do { handle \<leftarrow> timer_handle_at w flat;
                    r \<leftarrow> wheel_update g handle interval w;
                    case r of
                      Inl e \<Rightarrow> Some (Inl e, w)
                    | Inr (True, w) \<Rightarrow> Some (Inr (), w)
                    | Inr (False, w) \<Rightarrow>
                        do { w \<leftarrow> clear_timer_slot flat w; arm_timer g slot generation timer_id interval w } }
          else arm_timer g slot generation timer_id interval w }"

definition take_expired_timer :: "nat \<Rightarrow> nat timer_wheel \<Rightarrow> ((nat \<times> nat \<times> nat) option \<times> nat timer_wheel) option" where
  "take_expired_timer payload w =
     (if timers_per_slot w = 0 then Some (None, w)
      else if payload \<ge> length (timer_slots w) \<or> \<not> bitmap_is_set (timer_bitmap w) payload then Some (None, w)
      else let slot = payload div timers_per_slot w; timer_id = payload mod timers_per_slot w in
           if slot \<ge> length (slot_generations w) then Some (None, w)
           else do { w \<leftarrow> clear_timer_slot payload w;
                     Some (Some (slot, slot_generations w ! slot, timer_id), w) })"

subsection \<open>Linked lists in the entry table\<close>

text \<open>From \<open>a\<close> the links lead through \<open>ns\<close> to \<open>b\<close>, in both directions.\<close>

fun seg :: "'a timer_entry list \<Rightarrow> nat \<Rightarrow> nat list \<Rightarrow> nat \<Rightarrow> bool" where
  "seg es a [] b \<longleftrightarrow> te_next (es ! a) = b \<and> te_prev (es ! b) = a"
| "seg es a (n # ns) b \<longleftrightarrow> te_next (es ! a) = n \<and> te_prev (es ! n) = a \<and> seg es n ns b"

lemma seg_append: "seg es a (xs @ n # ys) b \<longleftrightarrow> seg es a xs n \<and> seg es n ys b"
  by (induction xs arbitrary: a) auto

lemma seg_cong:
  assumes "\<And>x. x \<in> set (a # ns) \<Longrightarrow> te_next (es' ! x) = te_next (es ! x)"
    and "\<And>x. x \<in> set (ns @ [b]) \<Longrightarrow> te_prev (es' ! x) = te_prev (es ! x)"
  shows "seg es' a ns b \<longleftrightarrow> seg es a ns b"
  using assms by (induction ns arbitrary: a) auto

lemma seg_next: "seg es a ns b \<Longrightarrow> te_next (es ! a) = hd (ns @ [b])"
  by (cases ns) auto

lemma seg_prev: "seg es a ns b \<Longrightarrow> te_prev (es ! b) = last (a # ns)"
  by (induction ns arbitrary: a) auto

definition data :: "'a timer_entry \<Rightarrow> 'a option \<times> bool \<times> nat \<times> nat \<times> nat" where
  "data e = (te_payload e, te_live e, fast_ring_offset e, slow_ring_offset e, expiration_tick e)"

lemma data_links [simp]:
  "data (te_next_update f e) = data e" "data (te_prev_update f e) = data e"
  by (simp_all add: data_def)

lemma dataD:
  assumes "data e = data e'"
  shows "te_payload e = te_payload e'" "te_live e = te_live e'" "fast_ring_offset e = fast_ring_offset e'"
    "slow_ring_offset e = slow_ring_offset e'" "expiration_tick e = expiration_tick e'"
  using assms by (simp_all add: data_def)

text \<open>The table after \<open>add_to_list\<close> and after \<open>unlink\<close>.\<close>

definition linked_front :: "'a timer_entry list \<Rightarrow> nat \<Rightarrow> nat \<Rightarrow> 'a timer_entry list" where
  "linked_front es h n =
     (let first = te_next (es ! h);
          es = es[n := te_prev_update (\<lambda>_. h) (te_next_update (\<lambda>_. first) (es ! n))];
          es = es[first := te_prev_update (\<lambda>_. n) (es ! first)]
      in es[h := te_next_update (\<lambda>_. n) (es ! h)])"

definition unlinked :: "'a timer_entry list \<Rightarrow> nat \<Rightarrow> 'a timer_entry list" where
  "unlinked es n =
     (let p = te_prev (es ! n); q = te_next (es ! n);
          es = es[p := te_next_update (\<lambda>_. q) (es ! p)];
          es = es[q := te_prev_update (\<lambda>_. p) (es ! q)]
      in es[n := te_prev_update (\<lambda>_. INVALID_INDEX) (te_next_update (\<lambda>_. INVALID_INDEX) (es ! n))])"

lemma length_tables [simp]: "length (linked_front es h n) = length es" "length (unlinked es n) = length es"
  by (simp_all add: linked_front_def unlinked_def Let_def)

lemma nth_update_if: "es[i := e] ! k = (if k = i \<and> i < length es then e else es ! k)"
  by (cases "i < length es") (auto simp: list_update_beyond)

lemma data_tables [simp]:
  "data (linked_front es h n ! k) = data (es ! k)" "data (unlinked es n ! k) = data (es ! k)"
  by (auto simp: linked_front_def unlinked_def Let_def nth_update_if)

lemma next_linked_front:
  assumes "h < length es" "n < length es" "h \<noteq> n"
  shows "te_next (linked_front es h n ! k) =
    (if k = h then n else if k = n then te_next (es ! h) else te_next (es ! k))"
  using assms by (auto simp: linked_front_def Let_def nth_update_if)

lemma prev_linked_front:
  assumes "h < length es" "n < length es" "te_next (es ! h) < length es" "n \<noteq> te_next (es ! h)"
  shows "te_prev (linked_front es h n ! k) =
    (if k = te_next (es ! h) then n else if k = n then h else te_prev (es ! k))"
  using assms by (auto simp: linked_front_def Let_def nth_update_if)

lemma seg_linked_front:
  assumes "seg es h ns h" "distinct (h # ns)" "n \<notin> set (h # ns)" "\<forall>x \<in> set (n # h # ns). x < length es"
  shows "seg (linked_front es h n) h (n # ns) h"
proof -
  have nx: "te_next (es ! h) = hd (ns @ [h])" using assms(1) by (rule seg_next)
  then have "te_next (es ! h) \<in> set (h # ns)" by (cases ns) auto
  then have lt: "te_next (es ! h) < length es" "n \<noteq> te_next (es ! h)" using assms(3,4) by auto
  note nl = next_linked_front [of h es n] prev_linked_front [of h es n, OF _ _ lt]
  show ?thesis
  proof (cases ns)
    case Nil
    then show ?thesis using assms nx lt by (simp add: nl)
  next
    case (Cons m ms)
    have "seg (linked_front es h n) m ms h \<longleftrightarrow> seg es m ms h"
      using assms(2-4) nx by (intro seg_cong) (auto simp: nl Cons)
    then show ?thesis using assms nx lt Cons by (simp add: nl)
  qed
qed

lemma seg_linked_front_other:
  assumes "seg es a ms a" "a \<noteq> h" "n \<notin> set (a # ms)" "h \<notin> set ms" "te_next (es ! h) \<notin> set (a # ms)"
    "h < length es" "n < length es" "h \<noteq> n" "te_next (es ! h) < length es" "n \<noteq> te_next (es ! h)"
  shows "seg (linked_front es h n) a ms a"
proof -
  have "seg (linked_front es h n) a ms a \<longleftrightarrow> seg es a ms a"
    using assms(2-) by (intro seg_cong) (auto simp: next_linked_front prev_linked_front)
  then show ?thesis using assms(1) by simp
qed

lemma next_unlinked:
  assumes "n < length es" "te_prev (es ! n) < length es" "n \<noteq> te_prev (es ! n)"
  shows "te_next (unlinked es n ! k) =
    (if k = n then INVALID_INDEX else if k = te_prev (es ! n) then te_next (es ! n) else te_next (es ! k))"
  using assms by (auto simp: unlinked_def Let_def nth_update_if)

lemma prev_unlinked:
  assumes "n < length es" "te_next (es ! n) < length es" "n \<noteq> te_next (es ! n)"
  shows "te_prev (unlinked es n ! k) =
    (if k = n then INVALID_INDEX else if k = te_next (es ! n) then te_prev (es ! n) else te_prev (es ! k))"
  using assms by (auto simp: unlinked_def Let_def nth_update_if)

lemma seg_unlinked:
  assumes "seg es a (xs @ n # ys) b" "distinct (a # xs @ n # ys)" "b \<notin> set (xs @ n # ys)"
    and "n < length es" "te_prev (es ! n) < length es" "te_next (es ! n) < length es"
  shows "seg (unlinked es n) a (xs @ ys) b"
  using assms(1-3)
proof (induction xs arbitrary: a)
  case Nil
  have p: "te_prev (es ! n) = a" and q: "te_next (es ! n) = hd (ys @ [b])"
    using Nil.prems(1) seg_next by auto
  have ne: "n \<noteq> te_prev (es ! n)" "n \<noteq> te_next (es ! n)" using Nil.prems p q by (cases ys; auto)+
  note u = next_unlinked [OF assms(4,5) ne(1)] prev_unlinked [OF assms(4,6) ne(2)]
  show ?case
  proof (cases ys)
    case Nil
    then show ?thesis using p q ne \<open>seg es a ([] @ n # ys) b\<close> by (auto simp: u)
  next
    case (Cons m ms)
    have "seg (unlinked es n) m ms b \<longleftrightarrow> seg es m ms b"
      using Nil.prems p q Cons by (intro seg_cong) (auto simp: u)
    then show ?thesis using Nil.prems p q ne Cons by (auto simp: u)
  qed
next
  case (Cons x xs)
  have s: "te_next (es ! a) = x" "te_prev (es ! x) = a" "seg es x xs n" "seg es n ys b"
    using Cons.prems(1) by (auto simp: seg_append)
  have p: "te_prev (es ! n) = last (x # xs)" and q: "te_next (es ! n) = hd (ys @ [b])"
    using s seg_next seg_prev by blast+
  have pm: "te_prev (es ! n) \<in> set (x # xs)" unfolding p by (rule last_in_set) simp
  have qm: "te_next (es ! n) \<in> set (ys @ [b])" unfolding q by (cases ys) auto
  have ne: "n \<noteq> te_prev (es ! n)" "n \<noteq> te_next (es ! n)" "a \<noteq> te_prev (es ! n)" "x \<noteq> te_next (es ! n)"
    using pm qm Cons.prems by auto
  note u = next_unlinked [OF assms(4,5) ne(1)] prev_unlinked [OF assms(4,6) ne(2)]
  have "seg (unlinked es n) x (xs @ ys) b" using Cons by auto
  then show ?case using s ne Cons.prems by (auto simp: u)
qed

lemma seg_unlinked_other:
  assumes "seg es a ms a" "n \<notin> set (a # ms)" "te_prev (es ! n) \<notin> set (a # ms)" "te_next (es ! n) \<notin> set (a # ms)"
    "n < length es" "te_prev (es ! n) < length es" "te_next (es ! n) < length es"
    "n \<noteq> te_prev (es ! n)" "n \<noteq> te_next (es ! n)"
  shows "seg (unlinked es n) a ms a"
proof -
  have "seg (unlinked es n) a ms a \<longleftrightarrow> seg es a ms a"
    using assms(2-) by (intro seg_cong) (auto simp: next_unlinked prev_unlinked)
  then show ?thesis using assms(1) by simp
qed

lemma fields_tables [simp]:
  "te_live (linked_front es h n ! k) = te_live (es ! k)" "te_payload (linked_front es h n ! k) = te_payload (es ! k)"
  "te_live (unlinked es n ! k) = te_live (es ! k)" "te_payload (unlinked es n ! k) = te_payload (es ! k)"
  using dataD(1,2) [OF data_tables(1)] dataD(1,2) [OF data_tables(2)] by blast+


subsection \<open>The structural invariant\<close>

definition nheads :: "geometry \<Rightarrow> nat" where
  "nheads g = WHEELS g * SLOTS g + (if OVERFLOW g then 1 else 0)"

text \<open>\<open>L h\<close> is the list of head \<open>h\<close>, \<open>own\<close> tells in which list a timer is, and \<open>R\<close> holds the live timers
  that are in no list at the moment.\<close>

definition core ::
  "geometry \<Rightarrow> 'a timer_wheel \<Rightarrow> (nat \<Rightarrow> nat list) \<Rightarrow> (nat \<Rightarrow> nat option) \<Rightarrow> nat list \<Rightarrow> bool" where
  "core g w L own R \<longleftrightarrow>
     (let es = entries w; live = (\<lambda>n. n < length es \<and> te_live (es ! n)) in
      slot_heads w = [0..<WHEELS g * SLOTS g] \<and>
      overflow_head w = (if OVERFLOW g then WHEELS g * SLOTS g else INVALID_INDEX) \<and>
      nheads g \<le> length es \<and> length es \<le> 2 ^ 32 \<and>
      (\<forall>h < nheads g. seg es h (L h) h \<and> distinct (L h) \<and> set (L h) = {n. live n \<and> own n = Some h}) \<and>
      distinct R \<and> set R = {n. live n \<and> own n = None} \<and>
      (\<forall>n. live n \<longrightarrow> nheads g \<le> n \<and> te_payload (es ! n) \<noteq> None \<and> (\<forall>h. own n = Some h \<longrightarrow> h < nheads g)) \<and>
      distinct (free_slots w) \<and> set (free_slots w) = {n. nheads g \<le> n \<and> n < length es \<and> \<not> te_live (es ! n)} \<and>
      tw_len w = card {n. live n})"

lemma coreD:
  assumes "core g w L own R"
  shows "slot_heads w = [0..<WHEELS g * SLOTS g]"
    "overflow_head w = (if OVERFLOW g then WHEELS g * SLOTS g else INVALID_INDEX)"
    "nheads g \<le> length (entries w)" "length (entries w) \<le> 2 ^ 32"
    "\<And>h. h < nheads g \<Longrightarrow> seg (entries w) h (L h) h" "\<And>h. h < nheads g \<Longrightarrow> distinct (L h)"
    "\<And>h. h < nheads g \<Longrightarrow> set (L h) = {n. n < length (entries w) \<and> te_live (entries w ! n) \<and> own n = Some h}"
    "distinct R" "set R = {n. n < length (entries w) \<and> te_live (entries w ! n) \<and> own n = None}"
    "\<And>n. n < length (entries w) \<Longrightarrow> te_live (entries w ! n) \<Longrightarrow> nheads g \<le> n"
    "\<And>n. n < length (entries w) \<Longrightarrow> te_live (entries w ! n) \<Longrightarrow> te_payload (entries w ! n) \<noteq> None"
    "\<And>n h. n < length (entries w) \<Longrightarrow> te_live (entries w ! n) \<Longrightarrow> own n = Some h \<Longrightarrow> h < nheads g"
    "distinct (free_slots w)"
    "set (free_slots w) = {n. nheads g \<le> n \<and> n < length (entries w) \<and> \<not> te_live (entries w ! n)}"
    "tw_len w = card {n. n < length (entries w) \<and> te_live (entries w ! n)}"
  using assms unfolding core_def Let_def by simp_all

lemma coreI:
  assumes "slot_heads w = [0..<WHEELS g * SLOTS g]"
    "overflow_head w = (if OVERFLOW g then WHEELS g * SLOTS g else INVALID_INDEX)"
    "nheads g \<le> length (entries w)" "length (entries w) \<le> 2 ^ 32"
    "\<And>h. h < nheads g \<Longrightarrow> seg (entries w) h (L h) h" "\<And>h. h < nheads g \<Longrightarrow> distinct (L h)"
    "\<And>h. h < nheads g \<Longrightarrow> set (L h) = {n. n < length (entries w) \<and> te_live (entries w ! n) \<and> own n = Some h}"
    "distinct R" "set R = {n. n < length (entries w) \<and> te_live (entries w ! n) \<and> own n = None}"
    "\<And>n. n < length (entries w) \<Longrightarrow> te_live (entries w ! n) \<Longrightarrow>
       nheads g \<le> n \<and> te_payload (entries w ! n) \<noteq> None \<and> (\<forall>h. own n = Some h \<longrightarrow> h < nheads g)"
    "distinct (free_slots w)"
    "set (free_slots w) = {n. nheads g \<le> n \<and> n < length (entries w) \<and> \<not> te_live (entries w ! n)}"
    "tw_len w = card {n. n < length (entries w) \<and> te_live (entries w ! n)}"
  shows "core g w L own R"
  unfolding core_def Let_def
proof (intro conjI)
  show "\<forall>n. n < length (entries w) \<and> te_live (entries w ! n) \<longrightarrow>
      nheads g \<le> n \<and> te_payload (entries w ! n) \<noteq> None \<and> (\<forall>h. own n = Some h \<longrightarrow> h < nheads g)"
    using assms(10) by blast
qed (use assms in simp_all)

text \<open>Relinking keeps everything but the lists.\<close>

lemma core_relink:
  assumes c: "core g w L own R" and es: "length es = length (entries w)" "\<And>k. data (es ! k) = data (entries w ! k)"
    and "\<And>h. h < nheads g \<Longrightarrow> seg es h (L' h) h" "\<And>h. h < nheads g \<Longrightarrow> distinct (L' h)"
    and "\<And>h. h < nheads g \<Longrightarrow> set (L' h) = {n. n < length (entries w) \<and> te_live (entries w ! n) \<and> own' n = Some h}"
    and "distinct R'" "set R' = {n. n < length (entries w) \<and> te_live (entries w ! n) \<and> own' n = None}"
    and "\<And>n h. n < length (entries w) \<Longrightarrow> te_live (entries w ! n) \<Longrightarrow> own' n = Some h \<Longrightarrow> h < nheads g"
  shows "core g (w\<lparr>entries := es\<rparr>) L' own' R'"
proof -
  have d: "te_live (es ! k) = te_live (entries w ! k)" "te_payload (es ! k) = te_payload (entries w ! k)" for k
    using dataD(1,2) [OF es(2)] by blast+
  show ?thesis
  proof (rule coreI, goal_cases)
    case (10 n)
    then show ?case using coreD(10,11) [OF c] assms(9) by (simp add: d es(1))
  qed (use coreD [OF c] assms(4-8) in \<open>simp_all add: d es(1)\<close>)
qed

text \<open>Heads and the nodes of lists.\<close>

lemma core_node:
  assumes "core g w L own R" "h < nheads g" "n \<in> set (L h)"
  shows "n < length (entries w)" "te_live (entries w ! n)" "own n = Some h" "nheads g \<le> n"
  using assms coreD(7) [OF assms(1,2)] coreD(10) [OF assms(1)] by auto

lemma core_rest:
  assumes "core g w L own R" "n \<in> set R"
  shows "n < length (entries w)" "te_live (entries w ! n)" "own n = None" "nheads g \<le> n"
    "\<And>h. h < nheads g \<Longrightarrow> n \<notin> set (L h)"
  using assms coreD(9) [OF assms(1)] coreD(10) [OF assms(1)] coreD(7) [OF assms(1)] by auto

lemma core_next_head:
  assumes "core g w L own R" "h < nheads g"
  shows "te_next (entries w ! h) = hd (L h @ [h])" "te_next (entries w ! h) \<in> insert h (set (L h))"
    "te_next (entries w ! h) < length (entries w)"
proof -
  show n: "te_next (entries w ! h) = hd (L h @ [h])" using coreD(5) [OF assms] by (rule seg_next)
  show m: "te_next (entries w ! h) \<in> insert h (set (L h))" unfolding n by (cases "L h") auto
  show "te_next (entries w ! h) < length (entries w)"
    using m core_node(1) [OF assms] coreD(3) [OF assms(1)] assms(2) by fastforce
qed

lemma core_add:
  assumes c: "core g w L own (n # R)" and h: "h < nheads g"
  shows "add_to_list h n w = Some (w\<lparr>entries := linked_front (entries w) h n\<rparr>)"
    and "core g (w\<lparr>entries := linked_front (entries w) h n\<rparr>) (L(h := n # L h)) (own(n := Some h)) R"
proof -
  note n = core_rest [OF c, of n, simplified]
  have hl: "h < length (entries w)" using h coreD(3) [OF c] by simp
  note nh = core_next_head [OF c h]
  have hn: "h \<noteq> n" "n \<noteq> te_next (entries w ! h)" using n h nh(2) by auto
  show "add_to_list h n w = Some (w\<lparr>entries := linked_front (entries w) h n\<rparr>)"
    using hl n nh(3) hn
    by (simp add: add_to_list_def get_entry_def set_entry_def linked_front_def Let_def)
  have own_n: "own n = None" "n \<notin> set R" using n coreD(8) [OF c] by simp_all
  have "seg (linked_front (entries w) h n) k ((L(h := n # L h)) k) k" if k: "k < nheads g" for k
  proof (cases "k = h")
    case True
    have "\<forall>x \<in> set (n # h # L h). x < length (entries w)" using hl n core_node(1) [OF c h] by auto
    then show ?thesis using seg_linked_front [OF coreD(5) [OF c h]] coreD(6) [OF c h] n core_node [OF c h] h True
      by fastforce
  next
    case False
    have "h \<notin> set (L k)" "k \<notin> set (L h)" using core_node(4) [OF c] h k by fastforce+
    moreover have "te_next (entries w ! h) \<notin> set (k # L k)"
      using nh(2) False core_node(3) [OF c h] core_node(3) [OF c k] calculation by fastforce
    ultimately show ?thesis
      using seg_linked_front_other [OF coreD(5) [OF c k] False] n(5) [OF k] n(4) k hl nh(3) hn n(1) False by auto
  qed
  then show "core g (w\<lparr>entries := linked_front (entries w) h n\<rparr>) (L(h := n # L h)) (own(n := Some h)) R"
  proof (intro core_relink [OF c])
    show "distinct ((L(h := n # L h)) k)" if "k < nheads g" for k
      using coreD(6) [OF c that] n(5) [OF that] by (cases "k = h") simp_all
    show "set ((L(h := n # L h)) k) = {m. m < length (entries w) \<and> te_live (entries w ! m) \<and> (own(n := Some h)) m = Some k}"
      if "k < nheads g" for k
      using n(1,2,3) unfolding fun_upd_apply by (cases "k = h") (auto simp: coreD(7) [OF c that] coreD(7) [OF c h])
    show "set R = {m. m < length (entries w) \<and> te_live (entries w ! m) \<and> (own(n := Some h)) m = None}"
      using coreD(9) [OF c] own_n unfolding fun_upd_apply by (auto simp: set_eq_iff)
    show "k < nheads g" if "m < length (entries w)" "te_live (entries w ! m)" "(own(n := Some h)) m = Some k" for m k
      using that coreD(12) [OF c] h by (auto split: if_splits)
  qed (use coreD(8) [OF c] in simp_all)
qed

lemma core_unlink:
  assumes c: "core g w L own R" and n: "n < length (entries w)" "te_live (entries w ! n)" "own n = Some h"
  shows "unlink n w = Some (w\<lparr>entries := unlinked (entries w) n\<rparr>)"
    and "core g (w\<lparr>entries := unlinked (entries w) n\<rparr>) (L(h := remove1 n (L h))) (own(n := None)) (n # R)"
proof -
  have h: "h < nheads g" using coreD(12) [OF c n] .
  have "n \<in> set (L h)" using coreD(7) [OF c h] n by simp
  then obtain xs ys where L: "L h = xs @ n # ys" by (auto dest: split_list)
  have d: "distinct (xs @ n # ys)" using coreD(6) [OF c h] L by simp
  have hn: "h \<notin> set (L h)" using core_node(4) [OF c h] h by fastforce
  have s: "seg (entries w) h xs n" "seg (entries w) n ys h" using coreD(5) [OF c h] by (simp_all add: L seg_append)
  have p: "te_prev (entries w ! n) \<in> insert h (set xs)" using seg_prev [OF s(1)] by (auto split: if_splits)
  have q: "te_next (entries w ! n) \<in> insert h (set ys)" using seg_next [OF s(2)] by (cases ys) auto
  have lt: "x < length (entries w)" if "x \<in> insert h (set (L h))" for x
    using that core_node(1) [OF c h] coreD(3) [OF c] h by fastforce
  have pq: "te_prev (entries w ! n) < length (entries w)" "te_next (entries w ! n) < length (entries w)"
    using p q lt L by auto
  have ne: "n \<noteq> te_prev (entries w ! n)" "n \<noteq> te_next (entries w ! n)"
    using p q d hn L by auto
  show "unlink n w = Some (w\<lparr>entries := unlinked (entries w) n\<rparr>)"
    using n pq ne by (simp add: unlink_def get_entry_def set_entry_def unlinked_def detach_entry_def Let_def)
  have "seg (unlinked (entries w) n) k ((L(h := remove1 n (L h))) k) k" if k: "k < nheads g" for k
  proof (cases "k = h")
    case True
    have "seg (unlinked (entries w) n) h (xs @ ys) h"
      using seg_unlinked [of "entries w" h xs n ys h] coreD(5) [OF c h] d hn n(1) pq by (simp add: L)
    then show ?thesis using True d by (simp add: L remove1_append)
  next
    case False
    have "x \<notin> set (k # L k)" if "x \<in> insert h (set (L h))" for x
      using that False core_node(3,4) [OF c h] core_node(3,4) [OF c k] h k by fastforce
    then show ?thesis
      using seg_unlinked_other [OF coreD(5) [OF c k] _ _ _ n(1) pq ne] p q False L by auto
  qed
  moreover have r: "set (remove1 n (L h)) = set (L h) - {n}" using coreD(6) [OF c h] by (rule set_remove1_eq)
  moreover have nR: "n \<notin> set R" using core_rest(3) [OF c] n(3) by auto
  ultimately show "core g (w\<lparr>entries := unlinked (entries w) n\<rparr>) (L(h := remove1 n (L h))) (own(n := None)) (n # R)"
  proof (intro core_relink [OF c])
    show "distinct ((L(h := remove1 n (L h))) k)" if "k < nheads g" for k
      using coreD(6) [OF c that] by (cases "k = h") simp_all
    show "set ((L(h := remove1 n (L h))) k) = {m. m < length (entries w) \<and> te_live (entries w ! m) \<and> (own(n := None)) m = Some k}"
      if "k < nheads g" for k
      using n(3) unfolding fun_upd_apply by (cases "k = h") (auto simp: coreD(7) [OF c that] coreD(7) [OF c h] r)
    show "set (n # R) = {m. m < length (entries w) \<and> te_live (entries w ! m) \<and> (own(n := None)) m = None}"
      using coreD(9) [OF c] n by auto
    show "k < nheads g" if "m < length (entries w)" "te_live (entries w ! m)" "(own(n := None)) m = Some k" for m k
      using that coreD(12) [OF c] by (auto split: if_splits)
  qed (use coreD(8) [OF c] nR in simp_all)
qed

text \<open>The next pointers alone lead through \<open>ns\<close> to \<open>b\<close>.\<close>

fun nexts :: "'a timer_entry list \<Rightarrow> nat list \<Rightarrow> nat \<Rightarrow> bool" where
  "nexts es [] b \<longleftrightarrow> True"
| "nexts es (n # ns) b \<longleftrightarrow> te_next (es ! n) = hd (ns @ [b]) \<and> nexts es ns b"

lemma seg_nexts: "seg es a ns b \<Longrightarrow> nexts es ns b"
  by (induction ns arbitrary: a) (auto dest: seg_next)

lemma nexts_cong: "(\<And>x. x \<in> set ns \<Longrightarrow> te_next (es' ! x) = te_next (es ! x)) \<Longrightarrow> nexts es' ns b = nexts es ns b"
  by (induction ns) auto

definition emptied :: "'a timer_entry list \<Rightarrow> nat \<Rightarrow> 'a timer_entry list" where
  "emptied es h = es[h := te_prev_update (\<lambda>_. h) (te_next_update (\<lambda>_. h) (es ! h))]"

lemma core_take:
  assumes c: "core g w L own R" and h: "h < nheads g"
  shows "take_list h w = Some (hd (L h @ [h]), w\<lparr>entries := emptied (entries w) h\<rparr>)"
    and "core g (w\<lparr>entries := emptied (entries w) h\<rparr>) (L(h := [])) (\<lambda>n. if own n = Some h then None else own n) (L h @ R)"
    and "nexts (emptied (entries w) h) (L h) h"
    and "\<And>k. data (emptied (entries w) h ! k) = data (entries w ! k)"
proof -
  have hl: "h < length (entries w)" using h coreD(3) [OF c] by simp
  show "take_list h w = Some (hd (L h @ [h]), w\<lparr>entries := emptied (entries w) h\<rparr>)"
    using hl core_next_head(1) [OF c h] by (simp add: take_list_def get_entry_def set_entry_def emptied_def)
  show d: "data (emptied (entries w) h ! k) = data (entries w ! k)" for k by (simp add: emptied_def nth_update_if)
  have nx: "te_next (emptied (entries w) h ! k) = te_next (entries w ! k)"
    "te_prev (emptied (entries w) h ! k) = te_prev (entries w ! k)" if "k \<noteq> h" for k
    using that by (simp_all add: emptied_def)
  have notin: "h \<notin> set (L k)" if "k < nheads g" for k using core_node(4) [OF c that] h by fastforce
  show "nexts (emptied (entries w) h) (L h) h"
    using seg_nexts [OF coreD(5) [OF c h]] notin [OF h]
    by (subst nexts_cong [of _ _ "entries w"]) (auto intro!: nx)
  have disj: "set (L h) \<inter> set R = {}" using core_rest(5) [OF c _ h] by blast
  show "core g (w\<lparr>entries := emptied (entries w) h\<rparr>) (L(h := [])) (\<lambda>n. if own n = Some h then None else own n) (L h @ R)"
  proof (intro core_relink [OF c] d)
    show "seg (emptied (entries w) h) k ((L(h := [])) k) k" if k: "k < nheads g" for k
    proof (cases "k = h")
      case True
      then show ?thesis using hl by (simp add: emptied_def)
    next
      case False
      then show ?thesis
        using coreD(5) [OF c k] notin [OF k]
        by (subst seg_cong [of _ _ _ "entries w"]) (auto intro!: nx)
    qed
    show "distinct ((L(h := [])) k)" if "k < nheads g" for k
      using coreD(6) [OF c that] by (cases "k = h") simp_all
    show "set ((L(h := [])) k) =
        {n. n < length (entries w) \<and> te_live (entries w ! n) \<and> (if own n = Some h then None else own n) = Some k}"
      if "k < nheads g" for k
      by (cases "k = h") (auto simp: coreD(7) [OF c that])
    show "distinct (L h @ R)" using coreD(6) [OF c h] coreD(8) [OF c] disj by simp
    show "set (L h @ R) = {n. n < length (entries w) \<and> te_live (entries w ! n) \<and> (if own n = Some h then None else own n) = None}"
      unfolding set_append coreD(7) [OF c h] coreD(9) [OF c] by auto
    show "k < nheads g" if "n < length (entries w)" "te_live (entries w ! n)"
      "(if own n = Some h then None else own n) = Some k" for n k
      using that(3) coreD(12) [OF c that(1,2)] by (simp split: if_splits)
  qed (simp add: emptied_def)
qed

text \<open>Changing the links or the data of a timer in no list keeps the structure.\<close>

lemma core_set_rest:
  assumes c: "core g w L own R" and n: "n \<in> set R"
    and f: "te_live (f (entries w ! n)) = te_live (entries w ! n)" "te_payload (f (entries w ! n)) = te_payload (entries w ! n)"
  shows "set_entry n f w = Some (w\<lparr>entries := (entries w)[n := f (entries w ! n)]\<rparr>)"
    and "core g (w\<lparr>entries := (entries w)[n := f (entries w ! n)]\<rparr>) L own R"
proof -
  note n' = core_rest [OF c n]
  show "set_entry n f w = Some (w\<lparr>entries := (entries w)[n := f (entries w ! n)]\<rparr>)"
    using n'(1) by (simp add: set_entry_def)
  have d: "te_live ((entries w)[n := f (entries w ! n)] ! k) = te_live (entries w ! k)"
    "te_payload ((entries w)[n := f (entries w ! n)] ! k) = te_payload (entries w ! k)" for k
    using f by (simp_all add: nth_update_if)
  have s: "seg ((entries w)[n := f (entries w ! n)]) h (L h) h" if h: "h < nheads g" for h
    using coreD(5) [OF c h] n'(4,5) h
    by (subst seg_cong [of _ _ _ "entries w"]) (auto simp: nth_update_if)
  show "core g (w\<lparr>entries := (entries w)[n := f (entries w ! n)]\<rparr>) L own R"
  proof (rule coreI, goal_cases)
    case (10 m)
    then show ?case using coreD(10-12) [OF c] by (simp add: d)
  qed (use coreD(1-9,13-15) [OF c] s in \<open>simp_all add: d\<close>)
qed

lemma core_detach:
  assumes c: "core g w L own R" and n: "n \<in> set R"
  defines "es \<equiv> (entries w)[n := te_prev_update (\<lambda>_. INVALID_INDEX) (te_next_update (\<lambda>_. INVALID_INDEX) (entries w ! n))]"
  shows "detach_entry n w = Some (w\<lparr>entries := es\<rparr>)" "core g (w\<lparr>entries := es\<rparr>) L own R"
    "\<And>k. data (es ! k) = data (entries w ! k)" "\<And>k. k \<noteq> n \<Longrightarrow> te_next (es ! k) = te_next (entries w ! k)"
proof -
  show "detach_entry n w = Some (w\<lparr>entries := es\<rparr>)"
    using core_rest(1) [OF c n] by (simp add: detach_entry_def set_entry_def es_def)
  show "core g (w\<lparr>entries := es\<rparr>) L own R"
    unfolding es_def
    using core_set_rest(2) [OF c n, of "\<lambda>e. te_prev_update (\<lambda>_. INVALID_INDEX) (te_next_update (\<lambda>_. INVALID_INDEX) e)"]
    by simp
qed (simp_all add: es_def nth_update_if)

definition freed :: "'a timer_entry \<Rightarrow> 'a timer_entry" where
  "freed e = e\<lparr>te_live := False, te_next := INVALID_INDEX, te_prev := INVALID_INDEX, te_payload := None\<rparr>"

lemma core_free:
  assumes c: "core g w L own (n # R)"
  defines "w' \<equiv> w\<lparr>entries := (entries w)[n := freed (entries w ! n)], tw_len := tw_len w - 1, free_slots := free_slots w @ [n]\<rparr>"
  shows "free_timer n w = Some w'" "core g w' L own R"
proof -
  note n = core_rest [OF c, of n, simplified]
  let ?live = "{k. k < length (entries w) \<and> te_live (entries w ! k)}"
  have nl: "n \<in> ?live" "finite ?live" using n(1,2) by simp_all
  then have "card ?live \<noteq> 0" using card_eq_0_iff [of ?live] by blast
  then show "free_timer n w = Some w'"
    using n coreD(15) [OF c] by (simp add: free_timer_def set_entry_def w'_def freed_def)
  have l: "te_live ((entries w)[n := freed (entries w ! n)] ! k) \<longleftrightarrow> te_live (entries w ! k) \<and> k \<noteq> n" for k
    using n(1) by (auto simp: nth_update_if freed_def)
  have p: "k \<noteq> n \<Longrightarrow> (entries w)[n := freed (entries w ! n)] ! k = entries w ! k" for k by simp
  have s: "seg ((entries w)[n := freed (entries w ! n)]) h (L h) h" if h: "h < nheads g" for h
    using coreD(5) [OF c h] n(4) n(5) h
    by (subst seg_cong [of _ _ _ "entries w"]) (auto simp: nth_update_if)
  have own: "own n = None" "n \<notin> set R" using n coreD(8) [OF c] by simp_all
  show "core g w' L own R"
  proof (rule coreI, goal_cases)
    case (7 h)
    then show ?case using own unfolding coreD(7) [OF c 7] by (auto simp: w'_def l)
  next
    case 9
    have "set R = set (n # R) - {n}" using own(2) by auto
    then show ?case unfolding coreD(9) [OF c] by (auto simp: w'_def l)
  next
    case (10 m)
    then show ?case using coreD(10-12) [OF c, of m] by (simp add: w'_def l p)
  next
    case 11
    have "n \<notin> set (free_slots w)" using n(2) unfolding coreD(14) [OF c] by simp
    then show ?case using coreD(13) [OF c] by (simp add: w'_def)
  next
    case 12
    have "set (free_slots w') = insert n (set (free_slots w))" by (simp add: w'_def)
    then show ?case using n(1,4) unfolding coreD(14) [OF c] by (auto simp: w'_def l)
  next
    case 13
    have "{k. k < length (entries w) \<and> te_live (entries w ! k) \<and> k \<noteq> n} = ?live - {n}" by auto
    then show ?case using coreD(15) [OF c] nl by (simp add: w'_def l)
  qed (use coreD(1-6,8) [OF c] s in \<open>simp_all add: w'_def\<close>)
qed

lemma core_alloc:
  assumes c: "core g w L own R" and room: "free_slots w \<noteq> [] \<or> length (entries w) < 2 ^ 32"
  shows "\<exists>n es fr. allocate_timer p t w = Some (n, w\<lparr>entries := es, free_slots := fr, tw_len := tw_len w + 1\<rparr>) \<and>
    core g (w\<lparr>entries := es, free_slots := fr, tw_len := tw_len w + 1\<rparr>) L (own(n := None)) (n # R) \<and>
    es ! n = entry_timer p t \<and> n < length es \<and> length (entries w) \<le> length es \<and>
    \<not> (n < length (entries w) \<and> te_live (entries w ! n)) \<and>
    (\<forall>k < length es. k \<noteq> n \<longrightarrow> k < length (entries w) \<and> es ! k = entries w ! k)"
proof -
  obtain n es fr where a: "allocate_timer p t w = Some (n, w\<lparr>entries := es, free_slots := fr, tw_len := tw_len w + 1\<rparr>)"
    and n: "es ! n = entry_timer p t" "n < length es" "nheads g \<le> n"
      "\<not> (n < length (entries w) \<and> te_live (entries w ! n))"
    and len: "length (entries w) \<le> length es" "length es \<le> 2 ^ 32"
    and old: "\<forall>k < length es. k \<noteq> n \<longrightarrow> k < length (entries w) \<and> es ! k = entries w ! k"
    and fr: "distinct fr" "set fr = set (free_slots w) - {n}"
  proof (cases "free_slots w = []")
    case True
    show ?thesis
      by (rule that [where n = "length (entries w)" and es = "entries w @ [entry_timer p t]" and fr = "[]"])
         (use True room coreD(3) [OF c] in \<open>auto simp: allocate_timer_def nth_append\<close>)
  next
    case False
    obtain xs y where xs: "free_slots w = xs @ [y]" using False by (cases "free_slots w" rule: rev_cases) auto
    have l: "y < length (entries w)" "nheads g \<le> y" "\<not> te_live (entries w ! y)"
      using coreD(14) [OF c] by (auto simp: xs)
    have d: "distinct xs" "y \<notin> set xs" using coreD(13) [OF c] by (simp_all add: xs)
    show ?thesis
      by (rule that [where n = y and es = "(entries w)[y := entry_timer p t]" and fr = xs])
         (use l d coreD(4) [OF c] in \<open>simp_all add: allocate_timer_def set_entry_def Let_def xs\<close>)
  qed
  let ?w = "w\<lparr>entries := es, free_slots := fr, tw_len := tw_len w + 1\<rparr>"
  have live: "k < length es \<and> te_live (es ! k) \<longleftrightarrow> k = n \<or> k < length (entries w) \<and> te_live (entries w ! k)" for k
    using n(1,2) old len by (cases "k = n") (auto simp: entry_timer_def)
  have live': "{k. k < length es \<and> te_live (es ! k) \<and> Pr k} =
      {k. (k = n \<or> k < length (entries w) \<and> te_live (entries w ! k)) \<and> Pr k}" for Pr
    using live by blast
  have sg: "seg es h (L h) h" if h: "h < nheads g" for h
  proof -
    have x: "x < length es \<and> x \<noteq> n" if "x \<in> set (h # L h)" for x
      using that h core_node(1,2,4) [OF c h] n(3,4) len(1) coreD(3) [OF c] by fastforce
    have "es ! x = entries w ! x" if "x \<in> set (h # L h)" for x using x [OF that] old by blast
    then show ?thesis using coreD(5) [OF c h] by (subst seg_cong [of _ _ _ "entries w"]) auto
  qed
  have "core g ?w L (own(n := None)) (n # R)"
  proof (rule coreI, goal_cases)
    case (7 h)
    show ?case using n(4) unfolding coreD(7) [OF c 7] by (simp add: live') auto
  next
    case 8
    have "n \<notin> set R" using n(4) unfolding coreD(9) [OF c] by blast
    then show ?case using coreD(8) [OF c] by simp
  next
    case 9
    show ?case unfolding list.set coreD(9) [OF c] by (simp add: live') auto
  next
    case (10 m)
    then show ?case using coreD(10-12) [OF c, of m] n(1,3) old live [of m]
      by (cases "m = n") (simp_all add: entry_timer_def)
  next
    case 12
    have "set (free_slots ?w) = set (free_slots w) - {n}" using fr by simp
    moreover have "{k. nheads g \<le> k \<and> k < length es \<and> \<not> te_live (es ! k)} =
        {k. nheads g \<le> k \<and> k < length (entries w) \<and> \<not> te_live (entries w ! k)} - {n}"
    proof (intro set_eqI)
      fix k show "k \<in> {k. nheads g \<le> k \<and> k < length es \<and> \<not> te_live (es ! k)} \<longleftrightarrow>
          k \<in> {k. nheads g \<le> k \<and> k < length (entries w) \<and> \<not> te_live (entries w ! k)} - {n}"
        using n(1,2) old len(1) by (cases "k = n") (auto simp: entry_timer_def)
    qed
    ultimately show ?case unfolding coreD(14) [OF c] by simp
  next
    case 13
    have "{k. k < length es \<and> te_live (es ! k)} = insert n {k. k < length (entries w) \<and> te_live (entries w ! k)}"
      using live by auto
    then show ?case using coreD(15) [OF c] n(4) by simp
  qed (use coreD(1-3) [OF c] len fr sg coreD(6) [OF c] in simp_all)
  then show ?thesis using a n len old by blast
qed


subsection \<open>Draining a list\<close>

definition env :: "'a timer_wheel \<Rightarrow> nat \<times> nat list \<times> nat list \<times> nat list \<times> bitmap \<times> nat \<times> nat" where
  "env w = (current_tick w, current_index w, slot_generations w, timer_slots w, timer_bitmap w, timers_per_slot w,
     max_expirations w)"

lemma env_simps [simp]:
  "env (w\<lparr>entries := es\<rparr>) = env w" "env (w\<lparr>free_slots := fr\<rparr>) = env w" "env (w\<lparr>tw_len := n\<rparr>) = env w"
  "env (w\<lparr>fast_slot_bitmap := b\<rparr>) = env w"
  by (simp_all add: env_def)

definition hint :: "geometry \<Rightarrow> nat \<Rightarrow> bitmap \<Rightarrow> bitmap" where
  "hint g h b = (if FAST_BITMAP g \<and> h < SLOTS g then snd (bitmap_set b h) else b)"

definition relisted :: "geometry \<Rightarrow> ('a timer_entry \<Rightarrow> 'a timer_entry) \<Rightarrow> nat \<Rightarrow> nat \<Rightarrow> 'a timer_wheel \<Rightarrow> 'a timer_wheel" where
  "relisted g adj h n w =
     w\<lparr>entries := linked_front ((entries w)[n := adj (entries w ! n)]) h n,
       fast_slot_bitmap := hint g h (fast_slot_bitmap w)\<rparr>"

text \<open>What a drain body does with a timer, as a function of its data: expire it (\<open>None\<close>) or put it, its ring
  offsets adjusted, in front of a list.\<close>

definition drains ::
  "geometry \<Rightarrow> (nat \<Rightarrow> 'a timer_wheel \<times> 'a list \<Rightarrow> ('a timer_wheel \<times> 'a list) option) \<Rightarrow>
   ('a timer_wheel \<Rightarrow> bool) \<Rightarrow> ('a timer_entry \<Rightarrow> bool) \<Rightarrow> ('a timer_entry \<Rightarrow> nat option) \<Rightarrow>
   ('a timer_entry \<Rightarrow> 'a timer_entry) \<Rightarrow> bool" where
  "drains g body P Q dest adj \<longleftrightarrow>
     (\<forall>w w'. env w = env w' \<longrightarrow> P w = P w') \<and>
     (\<forall>e e'. data e = data e' \<longrightarrow> Q e = Q e' \<and> dest e = dest e' \<and> data (adj e) = data (adj e')) \<and>
     (\<forall>e. te_live (adj e) = te_live e \<and> te_payload (adj e) = te_payload e \<and> te_next (adj e) = te_next e) \<and>
     (\<forall>w ex L own R n. core g w L own (n # R) \<and> P w \<and> Q (entries w ! n) \<longrightarrow>
        (case dest (entries w ! n) of
           None \<Rightarrow> body n (w, ex) = expire_timer n (w, ex)
         | Some h \<Rightarrow> h < nheads g \<and> body n (w, ex) = Some (relisted g adj h n w, ex)))"

lemma drainsD:
  assumes "drains g body P Q dest adj"
  shows "env w = env w' \<Longrightarrow> P w = P w'" "data e = data e' \<Longrightarrow> Q e = Q e'" "data e = data e' \<Longrightarrow> dest e = dest e'"
    "data e = data e' \<Longrightarrow> data (adj e) = data (adj e')" "te_live (adj e) = te_live e" "te_payload (adj e) = te_payload e"
    "te_next (adj e) = te_next e"
    "core g w L own (n # R) \<Longrightarrow> P w \<Longrightarrow> Q (entries w ! n) \<Longrightarrow> dest (entries w ! n) = None \<Longrightarrow>
       body n (w, ex) = expire_timer n (w, ex)"
    "core g w L own (n # R) \<Longrightarrow> P w \<Longrightarrow> Q (entries w ! n) \<Longrightarrow> dest (entries w ! n) = Some h \<Longrightarrow>
       h < nheads g \<and> body n (w, ex) = Some (relisted g adj h n w, ex)"
proof -
  note d = assms [unfolded drains_def]
  show "env w = env w' \<Longrightarrow> P w = P w'" using conjunct1 [OF d] by blast
  note d = conjunct2 [OF d]
  show "data e = data e' \<Longrightarrow> Q e = Q e'" "data e = data e' \<Longrightarrow> dest e = dest e'"
    "data e = data e' \<Longrightarrow> data (adj e) = data (adj e')"
    using conjunct1 [OF d] by blast+
  note d = conjunct2 [OF d]
  show "te_live (adj e) = te_live e" "te_payload (adj e) = te_payload e" "te_next (adj e) = te_next e"
    using conjunct1 [OF d] by blast+
  note d = conjunct2 [OF d, rule_format, OF conjI [OF _ conjI]]
  show "core g w L own (n # R) \<Longrightarrow> P w \<Longrightarrow> Q (entries w ! n) \<Longrightarrow> dest (entries w ! n) = None \<Longrightarrow>
       body n (w, ex) = expire_timer n (w, ex)"
    using d [of w L own n R ex] by simp
  show "core g w L own (n # R) \<Longrightarrow> P w \<Longrightarrow> Q (entries w ! n) \<Longrightarrow> dest (entries w ! n) = Some h \<Longrightarrow>
       h < nheads g \<and> body n (w, ex) = Some (relisted g adj h n w, ex)"
    using d [of w L own n R ex] by simp
qed

lemma core_expire:
  assumes c: "core g w L own (n # R)"
  shows "\<exists>w'. expire_timer n (w, ex) = Some (w', ex @ [the (te_payload (entries w ! n))]) \<and> core g w' L own R \<and>
    env w' = env w \<and> fast_slot_bitmap w' = fast_slot_bitmap w \<and>
    length (entries w') = length (entries w) \<and> \<not> te_live (entries w' ! n) \<and> (\<forall>k. k \<noteq> n \<longrightarrow> entries w' ! k = entries w ! k)"
proof -
  note n = core_rest [OF c, of n, simplified]
  obtain p where p: "te_payload (entries w ! n) = Some p" using coreD(11) [OF c n(1,2)] by blast
  let ?w = "w\<lparr>entries := (entries w)[n := freed (entries w ! n)], tw_len := tw_len w - 1, free_slots := free_slots w @ [n]\<rparr>"
  have "expire_timer n (w, ex) = Some (?w, ex @ [the (te_payload (entries w ! n))])"
    using core_free(1) [OF c] n(1) p by (simp add: expire_timer_def get_entry_def)
  then show ?thesis
    using core_free(2) [OF c] n(1) by (intro exI [of _ ?w] conjI) (simp_all add: freed_def)
qed

lemma core_relisted:
  assumes c: "core g w L own (n # R)" and h: "h < nheads g"
    and adj: "te_live (adj (entries w ! n)) = te_live (entries w ! n)" "te_payload (adj (entries w ! n)) = te_payload (entries w ! n)"
      "te_next (adj (entries w ! n)) = te_next (entries w ! n)"
  shows "core g (relisted g adj h n w) (L(h := n # L h)) (own(n := Some h)) R"
    "length (entries (relisted g adj h n w)) = length (entries w)" "env (relisted g adj h n w) = env w"
    "k \<noteq> n \<Longrightarrow> data (entries (relisted g adj h n w) ! k) = data (entries w ! k)"
    "data (entries (relisted g adj h n w) ! n) = data (adj (entries w ! n))"
    "k \<noteq> n \<Longrightarrow> k \<noteq> h \<Longrightarrow> te_next (entries (relisted g adj h n w) ! k) = te_next (entries w ! k)"
    "fast_slot_bitmap (relisted g adj h n w) = hint g h (fast_slot_bitmap w)"
proof -
  note n = core_rest [OF c, of n, simplified]
  have c': "core g (w\<lparr>entries := (entries w)[n := adj (entries w ! n)]\<rparr>) L own (n # R)"
    using core_set_rest(2) [OF c, of n adj] adj by simp
  from core_add(2) [OF c' h]
  have "core g (w\<lparr>entries := linked_front ((entries w)[n := adj (entries w ! n)]) h n\<rparr>) (L(h := n # L h)) (own(n := Some h)) R"
    by simp
  then show "core g (relisted g adj h n w) (L(h := n # L h)) (own(n := Some h)) R"
    by (simp add: relisted_def core_def Let_def)
  show "length (entries (relisted g adj h n w)) = length (entries w)" "env (relisted g adj h n w) = env w"
    "k \<noteq> n \<Longrightarrow> data (entries (relisted g adj h n w) ! k) = data (entries w ! k)"
    "data (entries (relisted g adj h n w) ! n) = data (adj (entries w ! n))"
    "fast_slot_bitmap (relisted g adj h n w) = hint g h (fast_slot_bitmap w)"
    using n(1) by (simp_all add: relisted_def)
  show "te_next (entries (relisted g adj h n w) ! k) = te_next (entries w ! k)" if "k \<noteq> n" "k \<noteq> h"
    using that n(1,4) h next_linked_front [of h "(entries w)[n := adj (entries w ! n)]" n k] coreD(3) [OF c]
    by (simp add: relisted_def)
qed

definition drained ::
  "geometry \<Rightarrow> ('a timer_entry \<Rightarrow> nat option) \<Rightarrow> ('a timer_entry \<Rightarrow> 'a timer_entry) \<Rightarrow> nat list \<Rightarrow>
   'a timer_wheel \<Rightarrow> (nat \<Rightarrow> nat option) \<Rightarrow> 'a timer_wheel \<Rightarrow> (nat \<Rightarrow> nat option) \<Rightarrow> bool" where
  "drained g dest adj ns w own w' own' \<longleftrightarrow>
     env w' = env w \<and> length (entries w') = length (entries w) \<and>
     (\<forall>k. k \<notin> set ns \<longrightarrow> data (entries w' ! k) = data (entries w ! k) \<and>
        (k < length (entries w) \<and> te_live (entries w ! k) \<longrightarrow> own' k = own k)) \<and>
     (\<forall>k \<in> set ns. case dest (entries w ! k) of
        None \<Rightarrow> \<not> te_live (entries w' ! k)
      | Some h \<Rightarrow> own' k = Some h \<and> data (entries w' ! k) = data (adj (entries w ! k))) \<and>
     bits (fast_slot_bitmap w') = bits (fast_slot_bitmap w) \<union>
       {h. FAST_BITMAP g \<and> h < SLOTS g \<and> (\<exists>k \<in> set ns. dest (entries w ! k) = Some h)}"

lemma bits_hint: "bits (hint g h b) = bits b \<union> {k. FAST_BITMAP g \<and> k < SLOTS g \<and> k = h}"
  by (auto simp: hint_def)

definition due_payloads :: "('a timer_entry \<Rightarrow> nat option) \<Rightarrow> 'a timer_wheel \<Rightarrow> nat list \<Rightarrow> 'a list" where
  "due_payloads dest w ns = map (\<lambda>n. the (te_payload (entries w ! n))) (filter (\<lambda>n. dest (entries w ! n) = None) ns)"

text \<open>One round of the loop: the entry is detached and handled; the rest of the list is as before.\<close>

lemma drain_step:
  assumes dr: "drains g body P Q dest adj"
    and c: "core g w L own (n # R)" and P: "P w" and Q: "Q (entries w ! n)"
  shows "\<exists>w1 L1 own1. Option.bind (detach_entry n w) (\<lambda>w. body n (w, ex)) = Some (w1, ex @ due_payloads dest w [n]) \<and>
    core g w1 L1 own1 R \<and> drained g dest adj [n] w own w1 own1 \<and>
    (\<forall>k. k \<noteq> n \<and> nheads g \<le> k \<longrightarrow> te_next (entries w1 ! k) = te_next (entries w ! k))"
proof -
  define w0 where "w0 = w\<lparr>entries := (entries w)[n := te_prev_update (\<lambda>_. INVALID_INDEX)
    (te_next_update (\<lambda>_. INVALID_INDEX) (entries w ! n))]\<rparr>"
  have w0: "detach_entry n w = Some w0" "core g w0 L own (n # R)" "\<And>k. data (entries w0 ! k) = data (entries w ! k)"
    "\<And>k. k \<noteq> n \<Longrightarrow> te_next (entries w0 ! k) = te_next (entries w ! k)" "env w0 = env w"
    "length (entries w0) = length (entries w)" "fast_slot_bitmap w0 = fast_slot_bitmap w"
    using core_detach [OF c, of n] by (simp_all add: w0_def)
  have P0: "P w0" using drainsD(1) [OF dr w0(5)] P by simp
  have Q0: "Q (entries w0 ! n)" using drainsD(2) [OF dr w0(3)] Q by simp
  have d0: "dest (entries w0 ! k) = dest (entries w ! k)" for k using drainsD(3) [OF dr w0(3)] .
  show ?thesis
  proof (cases "dest (entries w ! n)")
    case None
    then have "body n (w0, ex) = expire_timer n (w0, ex)"
      using drainsD(8) [OF dr w0(2) P0 Q0] d0 by simp
    moreover obtain w1 where w1: "expire_timer n (w0, ex) = Some (w1, ex @ [the (te_payload (entries w0 ! n))])"
      "core g w1 L own R" "env w1 = env w0" "fast_slot_bitmap w1 = fast_slot_bitmap w0"
      "length (entries w1) = length (entries w0)" "\<not> te_live (entries w1 ! n)"
      "\<And>k. k \<noteq> n \<Longrightarrow> entries w1 ! k = entries w0 ! k"
      using core_expire [OF w0(2), of ex] by blast
    moreover have "drained g dest adj [n] w own w1 own"
      using w1(3-7) w0(3,5,6,7) None by (simp add: drained_def)
    ultimately show ?thesis
      using w0(1) None w0(4) dataD(1) [OF w0(3)] by (intro exI [of _ w1] exI [of _ L] exI [of _ own]) (simp add: due_payloads_def)
  next
    case (Some h)
    then have b: "h < nheads g" "body n (w0, ex) = Some (relisted g adj h n w0, ex)"
      using drainsD(9) [OF dr w0(2) P0 Q0] d0 by simp_all
    note r = core_relisted [OF w0(2) b(1), of adj, OF drainsD(5-7) [OF dr]]
    have "data (adj (entries w0 ! n)) = data (adj (entries w ! n))" using drainsD(4) [OF dr w0(3)] .
    then have "drained g dest adj [n] w own (relisted g adj h n w0) (own(n := Some h))"
      using r(2-5,7) w0(3,5,6,7) Some by (auto simp: drained_def bits_hint)
    moreover have "te_next (entries (relisted g adj h n w0) ! k) = te_next (entries w ! k)" if "k \<noteq> n" "nheads g \<le> k" for k
      using r(6) [of k] that w0(4) [of k] b(1) by fastforce
    ultimately show ?thesis
      using w0(1) b r(1) Some
      by (intro exI [of _ "relisted g adj h n w0"] exI [of _ "L(h := n # L h)"] exI [of _ "own(n := Some h)"])
         (simp add: due_payloads_def)
  qed
qed

lemma drained_trans:
  assumes dr: "drains g body P Q dest adj"
    and 1: "drained g dest adj [n] w own w1 own1" and 2: "drained g dest adj ns w1 own1 w2 own2" and n: "n \<notin> set ns"
    and nl: "n < length (entries w)" "te_live (entries w ! n)"
  shows "drained g dest adj (n # ns) w own w2 own2"
proof -
  have d: "data (entries w1 ! k) = data (entries w ! k)" if "k \<noteq> n" for k using 1 that by (simp add: drained_def)
  have dd: "dest (entries w1 ! k) = dest (entries w ! k)" "data (adj (entries w1 ! k)) = data (adj (entries w ! k))"
    if "k \<noteq> n" for k using drainsD(3,4) [OF dr d [OF that]] .
  have l: "te_live (entries w2 ! n) = te_live (entries w1 ! n)" "data (entries w2 ! n) = data (entries w1 ! n)"
    "n < length (entries w1) \<Longrightarrow> te_live (entries w1 ! n) \<Longrightarrow> own2 n = own1 n"
    using 2 n dataD(2) [of "entries w2 ! n" "entries w1 ! n"] by (simp_all add: drained_def)
  have live: "te_live (entries w1 ! k) = te_live (entries w ! k)" if "k \<noteq> n" for k using dataD(2) [OF d [OF that]] .
  have ex: "(\<exists>k \<in> set ns. dest (entries w1 ! k) = Some h) \<longleftrightarrow> (\<exists>k \<in> set ns. dest (entries w ! k) = Some h)" for h
    using dd(1) n by metis
  have ns: "case dest (entries w ! k) of
        None \<Rightarrow> \<not> te_live (entries w2 ! k)
      | Some h \<Rightarrow> own2 k = Some h \<and> data (entries w2 ! k) = data (adj (entries w ! k))" if "k \<in> set ns" for k
  proof -
    have "k \<noteq> n" using that n by blast
    note e = dd [OF this]
    from 2 that have "case dest (entries w1 ! k) of
        None \<Rightarrow> \<not> te_live (entries w2 ! k)
      | Some h \<Rightarrow> own2 k = Some h \<and> data (entries w2 ! k) = data (adj (entries w1 ! k))"
      unfolding drained_def by blast
    then show ?thesis unfolding e .
  qed
  have nn: "case dest (entries w ! n) of
        None \<Rightarrow> \<not> te_live (entries w2 ! n)
      | Some h \<Rightarrow> own2 n = Some h \<and> data (entries w2 ! n) = data (adj (entries w ! n))"
  proof (cases "dest (entries w ! n)")
    case (Some h)
    then have "own1 n = Some h" "data (entries w1 ! n) = data (adj (entries w ! n))" "length (entries w1) = length (entries w)"
      using 1 by (simp_all add: drained_def)
    then show ?thesis using Some l nl dataD(2) [of "entries w1 ! n" "adj (entries w ! n)"] drainsD(5) [OF dr] by simp
  qed (use 1 l in \<open>simp add: drained_def\<close>)
  show ?thesis
    unfolding drained_def
  proof (intro conjI allI impI ballI)
    fix k assume "k \<in> set (n # ns)"
    then show "case dest (entries w ! k) of
        None \<Rightarrow> \<not> te_live (entries w2 ! k)
      | Some h \<Rightarrow> own2 k = Some h \<and> data (entries w2 ! k) = data (adj (entries w ! k))"
      using ns nn by auto
  next
    show "bits (fast_slot_bitmap w2) = bits (fast_slot_bitmap w) \<union>
       {h. FAST_BITMAP g \<and> h < SLOTS g \<and> (\<exists>k \<in> set (n # ns). dest (entries w ! k) = Some h)}"
      using 1 2 ex by (auto simp: drained_def)
  qed (use 1 2 live in \<open>simp_all add: drained_def\<close>)
qed

lemma drain:
  assumes dr: "drains g body P Q dest adj"
    and "core g w L own (ns @ R)" "nexts (entries w) ns head" "head < nheads g" "P w" "\<forall>n \<in> set ns. Q (entries w ! n)"
  shows "\<exists>w' L' own'. drain_loop body head (hd (ns @ [head])) (w, ex) = Some (w', ex @ due_payloads dest w ns) \<and>
    core g w' L' own' R \<and> drained g dest adj ns w own w' own'"
  using assms(2-)
proof (induction ns arbitrary: w L own ex)
  case Nil
  have "drained g dest adj [] w own w own" by (simp add: drained_def)
  then show ?case using Nil.prems(1) by (subst drain_loop.simps) (auto simp: due_payloads_def)
next
  case (Cons n ns)
  have c: "core g w L own (n # ns @ R)" using Cons.prems(1) by simp
  have d: "n \<notin> set ns" "distinct ns" using coreD(8) [OF c] by simp_all
  obtain w1 L1 own1 where w1: "Option.bind (detach_entry n w) (\<lambda>w. body n (w, ex)) = Some (w1, ex @ due_payloads dest w [n])"
    "core g w1 L1 own1 (ns @ R)" "drained g dest adj [n] w own w1 own1"
    "\<And>k. k \<noteq> n \<Longrightarrow> nheads g \<le> k \<Longrightarrow> te_next (entries w1 ! k) = te_next (entries w ! k)"
    using drain_step [OF dr c Cons.prems(4), of ex] Cons.prems(5) by auto
  have e: "data (entries w1 ! k) = data (entries w ! k)" if "k \<in> set ns" for k
    using w1(3) that d(1) unfolding drained_def by auto
  have nx: "nexts (entries w1) ns head"
  proof (subst nexts_cong)
    fix k assume "k \<in> set ns"
    then show "te_next (entries w1 ! k) = te_next (entries w ! k)"
      using w1(4) [of k] core_rest(4) [OF c, of k] d(1) by fastforce
  qed (use Cons.prems(2) in simp)
  have P: "P w1" using drainsD(1) [OF dr, of w1 w] w1(3) Cons.prems(4) by (simp add: drained_def)
  have Q: "\<forall>n \<in> set ns. Q (entries w1 ! n)" using Cons.prems(5) drainsD(2) [OF dr e] by auto
  obtain w2 L2 own2 where w2: "drain_loop body head (hd (ns @ [head])) (w1, ex @ due_payloads dest w [n]) =
      Some (w2, (ex @ due_payloads dest w [n]) @ due_payloads dest w1 ns)"
    "core g w2 L2 own2 R" "drained g dest adj ns w1 own1 w2 own2"
    using Cons.IH [OF w1(2) nx Cons.prems(3) P Q] by blast
  have "due_payloads dest w1 ns = due_payloads dest w ns"
    unfolding due_payloads_def
    using drainsD(3) [OF dr e] dataD(1) [OF e]
    by (intro arg_cong2 [where f = map] map_cong filter_cong) auto
  then have dp: "due_payloads dest w [n] @ due_payloads dest w1 ns = due_payloads dest w (n # ns)"
    by (simp add: due_payloads_def)
  have n: "n < length (entries w)" "n \<noteq> head" using core_rest(1,4) [OF c, of n] Cons.prems(3) by auto
  have "drain_loop body head n (w, ex) = Some (w2, ex @ due_payloads dest w (n # ns))"
    using w1(1) w2(1) n Cons.prems(2) dp
    by (subst drain_loop.simps) (auto simp: get_entry_def bind_eq_Some_conv)
  then show ?case using w2(2) drained_trans [OF dr w1(3) w2(3) d(1)] core_rest(1,2) [OF c, of n] by auto
qed

text \<open>A drain starts by taking the list of the head.\<close>

lemma drain_head:
  assumes dr: "drains g body P Q dest adj"
    and c: "core g w L own []" and h: "head < nheads g" and P: "P w" and Q: "\<forall>n \<in> set (L head). Q (entries w ! n)"
  shows "\<exists>w' L' own'. Option.bind (take_list head w) (\<lambda>(next, w). drain_loop body head next (w, ex)) =
      Some (w', ex @ due_payloads dest w (L head)) \<and>
    core g w' L' own' [] \<and> drained g dest adj (L head) w own w' own'"
proof -
  note t = core_take [OF c h]
  let ?w = "w\<lparr>entries := emptied (entries w) head\<rparr>" and ?own = "\<lambda>n. if own n = Some head then None else own n"
  have e: "data (entries ?w ! k) = data (entries w ! k)" for k using t(4) by simp
  have P': "P ?w" using drainsD(1) [OF dr, of ?w w] P by simp
  have Q': "\<forall>n \<in> set (L head). Q (entries ?w ! n)" using Q drainsD(2) [OF dr e] by blast
  obtain w' L' own' where w': "drain_loop body head (hd (L head @ [head])) (?w, ex) = Some (w', ex @ due_payloads dest ?w (L head))"
    "core g w' L' own' []" "drained g dest adj (L head) ?w ?own w' own'"
    using drain [OF dr t(2), of head ex] t(3) h P' Q' by auto
  have "due_payloads dest ?w (L head) = due_payloads dest w (L head)"
    using drainsD(3) [OF dr e] dataD(1) [OF e] by (simp add: due_payloads_def)
  moreover have "drained g dest adj (L head) w own w' own'"
    unfolding drained_def
  proof (intro conjI allI impI ballI)
    fix k assume k: "k \<in> set (L head)"
    with w'(3) have "case dest (entries ?w ! k) of
        None \<Rightarrow> \<not> te_live (entries w' ! k)
      | Some h \<Rightarrow> own' k = Some h \<and> data (entries w' ! k) = data (adj (entries ?w ! k))"
      unfolding drained_def by blast
    then show "case dest (entries w ! k) of
        None \<Rightarrow> \<not> te_live (entries w' ! k)
      | Some h \<Rightarrow> own' k = Some h \<and> data (entries w' ! k) = data (adj (entries w ! k))"
      unfolding drainsD(3,4) [OF dr e] .
  next
    fix k assume k: "k \<notin> set (L head)" "k < length (entries w) \<and> te_live (entries w ! k)"
    then have "own k \<noteq> Some head" "te_live (entries ?w ! k)" "k < length (entries ?w)"
      using coreD(7) [OF c h] dataD(2) [OF e, of k] by (auto simp: emptied_def)
    then show "own' k = own k" using w'(3) k(1) unfolding drained_def by simp
  qed (use w'(3) e drainsD(3) [OF dr e] in \<open>simp_all add: drained_def emptied_def\<close>)
  ultimately show ?thesis using t(1) w' by auto
qed

subsection \<open>Geometry and arithmetic\<close>

lemma horizon_loop_Some: "horizon_loop slots n h = Some k \<Longrightarrow> k = h * slots ^ n \<and> (n > 0 \<longrightarrow> k \<le> u64_max)"
proof (induction n arbitrary: h)
  case (Suc n)
  then have "k = h * slots * slots ^ n" "n > 0 \<longrightarrow> k \<le> u64_max" "h * slots \<le> u64_max"
    by (auto split: if_splits)
  then show ?case by (cases n) (simp_all add: mult.assoc)
qed simp

definition geometry_ok :: "geometry \<Rightarrow> bool" where
  "geometry_ok g \<longleftrightarrow> validate_geometry g = Some ()"

lemma geometry_okD:
  assumes "geometry_ok g"
  shows "1 \<le> WHEELS g" "WHEELS g \<le> 3" "SLOTS g > 0" "SLOTS g = 2 ^ ring_shift g" "SLOTS g < 2 ^ 32"
    "horizon g = Some (SLOTS g ^ WHEELS g)" "SLOTS g ^ WHEELS g \<le> u64_max"
proof -
  have v: "1 \<le> WHEELS g \<and> WHEELS g \<le> 3 \<and> SLOTS g > 0 \<and> is_power_of_two (SLOTS g) \<and> SLOTS g < 2 ^ 32"
    and h: "\<exists>h. horizon g = Some h"
    using assms by (auto simp: geometry_ok_def validate_geometry_def split: if_splits)
  show "1 \<le> WHEELS g" "WHEELS g \<le> 3" "SLOTS g > 0" "SLOTS g = 2 ^ ring_shift g" "SLOTS g < 2 ^ 32"
    using v by (simp_all add: is_power_of_two_def ring_shift_def)
  show "horizon g = Some (SLOTS g ^ WHEELS g)" "SLOTS g ^ WHEELS g \<le> u64_max"
    using h v horizon_loop_Some [of "SLOTS g" "WHEELS g" 1] by (auto simp: horizon_def)
qed

lemma div_carry:
  fixes a b c s :: nat
  assumes "s > 0" "c \<le> 1"
  shows "(a + b + c) div s = a div s + b div s + (if a mod s + b mod s + c \<ge> s then 1 else 0)"
proof -
  have "a + b + c = s * (a div s + b div s) + (a mod s + b mod s + c)"
    using div_mult_mod_eq [of a s] div_mult_mod_eq [of b s] by (simp add: algebra_simps)
  then have d: "(a + b + c) div s = a div s + b div s + (a mod s + b mod s + c) div s"
    using assms(1) by (metis div_mult_self4 less_not_refl add.commute)
  have "a mod s < s" "b mod s < s" using assms(1) by simp_all
  then have lt: "a mod s + b mod s + c < 2 * s" using assms(2) by linarith
  have "x div s = (if x \<ge> s then 1 else 0)" if "x < 2 * s" for x
    using that assms(1) by (auto intro: div_nat_eqI)
  from this [OF lt] have "(a mod s + b mod s + c) div s = (if a mod s + b mod s + c \<ge> s then 1 else 0)" .
  then show ?thesis using d by simp
qed

lemma mod_window: "(x :: nat) \<le> y \<Longrightarrow> y < x + s \<Longrightarrow> y mod s = x mod s \<longleftrightarrow> y = x"
proof
  assume "x \<le> y" "y < x + s" "y mod s = x mod s"
  then have "(y - x) mod s = 0" by (simp add: mod_eq_dvd_iff_nat)
  then show "y = x" using \<open>y < x + s\<close> \<open>x \<le> y\<close> by (auto simp: mod_less)
qed simp

lemma div_window:
  assumes "s > 0" "(y :: nat) div s = x div s"
  shows "y < x + s"
proof -
  have "y = x div s * s + y mod s" "x = x div s * s + x mod s" using assms(2) by (metis div_mult_mod_eq)+
  moreover have "y mod s < s" using assms(1) by simp
  ultimately show ?thesis by linarith
qed

subsection \<open>Where a timer belongs\<close>

definition index_ok :: "geometry \<Rightarrow> 'a timer_wheel \<Rightarrow> bool" where
  "index_ok g w \<longleftrightarrow>
     current_index w =
       [current_tick w mod SLOTS g,
        if WHEELS g > 1 then current_tick w div SLOTS g mod SLOTS g else 0,
        if WHEELS g > 2 then current_tick w div SLOTS g ^ 2 mod SLOTS g else 0]"

text \<open>At tick \<open>t\<close> the head of the list that holds a timer due at \<open>e\<close>, in the order the code tries them:
  the overflow list, the third, the second and the first ring.\<close>

definition home :: "geometry \<Rightarrow> nat \<Rightarrow> nat \<Rightarrow> nat" where
  "home g t e =
     (let s = SLOTS g in
      if WHEELS g = 3 \<and> OVERFLOW g \<and> e div s ^ 3 \<noteq> t div s ^ 3 then WHEELS g * s
      else if WHEELS g > 2 \<and> e div s ^ 2 \<noteq> t div s ^ 2 then 2 * s + e div s ^ 2 mod s
      else if WHEELS g > 1 \<and> e div s \<noteq> t div s then s + e div s mod s
      else e mod s)"

definition in_range :: "geometry \<Rightarrow> nat \<Rightarrow> nat \<Rightarrow> bool" where
  "in_range g t e \<longleftrightarrow>
     (let s = SLOTS g in
      t < e \<and> (WHEELS g = 1 \<longrightarrow> e \<le> t + s) \<and> (WHEELS g = 2 \<longrightarrow> e div s < t div s + s) \<and>
      (WHEELS g = 3 \<and> \<not> OVERFLOW g \<longrightarrow> e div s ^ 2 < t div s ^ 2 + s))"

text \<open>The ring offsets a waiting timer carries for the cascades.\<close>

definition offsets_ok :: "geometry \<Rightarrow> nat \<Rightarrow> 'a timer_entry \<Rightarrow> bool" where
  "offsets_ok g t x \<longleftrightarrow>
     (let s = SLOTS g; e = expiration_tick x; h = home g t e in
      (WHEELS g > 1 \<and> s \<le> h \<and> h < WHEELS g * s \<longrightarrow> fast_ring_offset x = e mod s) \<and>
      (WHEELS g > 2 \<and> 2 * s \<le> h \<and> h < WHEELS g * s \<longrightarrow> slow_ring_offset x = e div s mod s))"

definition placed :: "geometry \<Rightarrow> nat \<Rightarrow> 'a timer_entry \<Rightarrow> 'a timer_entry" where
  "placed g t x =
     (let s = SLOTS g; e = expiration_tick x; h = home g t e in
      if WHEELS g > 2 \<and> 2 * s \<le> h \<and> h < WHEELS g * s
      then fast_ring_offset_update (\<lambda>_. e mod s) (slow_ring_offset_update (\<lambda>_. e div s mod s) x)
      else if WHEELS g > 1 \<and> s \<le> h \<and> h < WHEELS g * s then fast_ring_offset_update (\<lambda>_. e mod s) x
      else x)"

lemma placed_simps [simp]:
  "te_live (placed g t x) = te_live x" "te_payload (placed g t x) = te_payload x" "te_next (placed g t x) = te_next x"
  "expiration_tick (placed g t x) = expiration_tick x"
  by (simp_all add: placed_def Let_def)

lemma offsets_ok_placed: "offsets_ok g t (placed g t x)"
  by (auto simp: offsets_ok_def placed_def Let_def)

lemma mod_add3:
  "(a + b mod s + d) mod s = (a + b + d) mod (s :: nat)" "(a mod s + b mod s + d) mod s = (a + b + d) mod s"
proof -
  have "(b mod s + (a + d)) mod s = (b + (a + d)) mod s" for a b d :: nat by (rule mod_add_left_eq)
  note this [of b a d] this [of a "b mod s" d]
  then show "(a + b mod s + d) mod s = (a + b + d) mod s" "(a mod s + b mod s + d) mod s = (a + b + d) mod s"
    by (simp_all add: ac_simps)
qed

lemma timer_offsets_eq:
  assumes g: "geometry_ok g" and i: "index_ok g w"
  shows "timer_offsets g w n =
    (let s = SLOTS g; e = current_tick w + n in
     (e mod s, if WHEELS g > 1 then e div s mod s else 0, if WHEELS g > 2 then e div s ^ 2 mod s else 0))"
proof -
  let ?s = "SLOTS g" and ?t = "current_tick w"
  note G = geometry_okD [OF g]
  have sh: "2 ^ ring_shift g = ?s" "2 ^ (ring_shift g * 2) = ?s ^ 2" using G(4) by (simp_all add: power_mult [symmetric])
  have lt: "x mod ?s mod 2 ^ 32 = x mod ?s" for x
    using G(3,5) mod_less_divisor [OF G(3), of x] by (intro mod_less) linarith
  define c where "c = (if n mod ?s + ?t mod ?s \<ge> ?s then 1 else 0 :: nat)"
  have c1: "c \<le> 1" by (simp add: c_def)
  have e1: "(?t + n) div ?s = n div ?s + ?t div ?s + c"
    using div_carry [OF G(3), of 0 n ?t] by (simp add: c_def add.commute)
  have m1: "(n mod ?s + ?t mod ?s) mod ?s = (?t + n) mod ?s" by (simp add: mod_add_eq add.commute)
  have m2: "(n div ?s + ?t div ?s mod ?s + c) mod ?s = (?t + n) div ?s mod ?s"
    unfolding e1 by (rule mod_add3)
  have m2': "(n div ?s mod ?s + ?t div ?s mod ?s + c) mod ?s = (?t + n) div ?s mod ?s"
    unfolding e1 by (rule mod_add3)
  define c' where "c' = (if n div ?s mod ?s + ?t div ?s mod ?s + c \<ge> ?s then 1 else 0 :: nat)"
  have q: "x div ?s ^ 2 = x div ?s div ?s" for x by (simp add: power2_eq_square div_mult2_eq)
  have e2: "(?t + n) div ?s ^ 2 = n div ?s ^ 2 + ?t div ?s ^ 2 + c'"
    unfolding q e1 c'_def by (rule div_carry [OF G(3) c1])
  have m3: "(n div ?s ^ 2 + ?t div ?s ^ 2 mod ?s + c') mod ?s = (?t + n) div ?s ^ 2 mod ?s"
    unfolding e2 by (rule mod_add3)
  have r1: "n - n div ?s * ?s = n mod ?s" by (simp add: minus_div_mult_eq_mod)
  have r2: "n - n div ?s ^ 2 * ?s ^ 2 = n mod ?s ^ 2" by (simp add: minus_div_mult_eq_mod)
  have r3: "n mod ?s ^ 2 div ?s = n div ?s mod ?s" "n mod ?s ^ 2 - n div ?s mod ?s * ?s = n mod ?s"
    "n mod ?s ^ 2 mod ?s = n mod ?s"
  proof -
    show a: "n mod ?s ^ 2 div ?s = n div ?s mod ?s"
      using G(3) by (simp add: power2_eq_square mod_mult2_eq)
    show "n mod ?s ^ 2 mod ?s = n mod ?s" by (simp add: power2_eq_square mod_mod_cancel)
    then show "n mod ?s ^ 2 - n div ?s mod ?s * ?s = n mod ?s"
      using a by (metis minus_div_mult_eq_mod)
  qed
  have idx: "current_index w ! 0 = ?t mod ?s" "WHEELS g > 1 \<Longrightarrow> current_index w ! 1 = ?t div ?s mod ?s"
    "WHEELS g > 2 \<Longrightarrow> current_index w ! 2 = ?t div ?s ^ 2 mod ?s"
    using i by (simp_all add: index_ok_def)
  have n2: "n mod ?s mod ?s = n mod ?s" by simp
  consider "WHEELS g = 1" | "WHEELS g = 2" | "WHEELS g = 3" using G(1,2) by linarith
  then show ?thesis
  proof cases
    case 1
    then have W: "WHEELS g > 1 \<longleftrightarrow> False" "WHEELS g > 2 \<longleftrightarrow> False" by simp_all
    show ?thesis
      unfolding timer_offsets_def Let_def W if_True if_False idx(1) m1 lt by simp
  next
    case 2
    then have W: "WHEELS g > 1 \<longleftrightarrow> True" "WHEELS g > 2 \<longleftrightarrow> False" by simp_all
    show ?thesis
      unfolding timer_offsets_def Let_def W if_True if_False idx(1) idx(2) [unfolded W, OF TrueI] sh r1 n2
        c_def [symmetric] m1 m2 lt
      by simp
  next
    case 3
    then have W: "WHEELS g > 1 \<longleftrightarrow> True" "WHEELS g > 2 \<longleftrightarrow> True" by simp_all
    show ?thesis
      unfolding timer_offsets_def Let_def W if_True if_False idx(1) idx(2,3) [unfolded W, OF TrueI] sh r2 r3 n2
        c_def [symmetric] c'_def [symmetric] m1 m2' m3 lt
      by simp
  qed
qed

lemma pow_div_le: "s > 0 \<Longrightarrow> (t :: nat) \<le> e \<Longrightarrow> t div s ^ k \<le> e div s ^ k"
  by (rule div_le_mono)

text \<open>Quotients that agree one level up lie in one window, so their offsets decide.\<close>

lemma quotient_window:
  assumes "s > 0" "(t :: nat) \<le> e" "e div s ^ Suc k = t div s ^ Suc k"
  shows "e div s ^ k < t div s ^ k + s"
proof (rule div_window [OF assms(1)])
  show "e div s ^ k div s = t div s ^ k div s"
    using assms(3) by (simp add: div_mult2_eq [symmetric] mult.commute)
qed

lemma home_cases:
  assumes "geometry_ok g"
  obtains (overflow) "WHEELS g = 3" "OVERFLOW g" "e div SLOTS g ^ 3 \<noteq> t div SLOTS g ^ 3" "home g t e = 3 * SLOTS g"
  | (glacier) "WHEELS g = 3" "OVERFLOW g \<Longrightarrow> e div SLOTS g ^ 3 = t div SLOTS g ^ 3"
      "e div SLOTS g ^ 2 \<noteq> t div SLOTS g ^ 2" "home g t e = 2 * SLOTS g + e div SLOTS g ^ 2 mod SLOTS g"
  | (slow) "WHEELS g = 2 \<or> WHEELS g = 3" "WHEELS g = 3 \<Longrightarrow> e div SLOTS g ^ 2 = t div SLOTS g ^ 2"
      "e div SLOTS g \<noteq> t div SLOTS g" "home g t e = SLOTS g + e div SLOTS g mod SLOTS g"
  | (fast) "WHEELS g > 1 \<Longrightarrow> e div SLOTS g = t div SLOTS g" "home g t e = e mod SLOTS g"
proof -
  have W: "WHEELS g = 1 \<or> WHEELS g = 2 \<or> WHEELS g = 3" using geometry_okD(1,2) [OF assms] by linarith
  show ?thesis
  proof (cases "WHEELS g = 3 \<and> OVERFLOW g \<and> e div SLOTS g ^ 3 \<noteq> t div SLOTS g ^ 3")
    case True
    then show ?thesis by (intro overflow) (simp_all add: home_def Let_def)
  next
    case ov: False
    show ?thesis
    proof (cases "WHEELS g = 3 \<and> e div SLOTS g ^ 2 \<noteq> t div SLOTS g ^ 2")
      case True
      then show ?thesis using ov by (intro glacier) (auto simp: home_def Let_def)
    next
      case gl: False
      show ?thesis
      proof (cases "WHEELS g > 1 \<and> e div SLOTS g \<noteq> t div SLOTS g")
        case True
        then show ?thesis using ov gl W by (intro slow) (auto simp: home_def Let_def)
      next
        case False
        then show ?thesis using ov gl W by (intro fast) (auto simp: home_def Let_def)
      qed
    qed
  qed
qed

lemma home_bound:
  assumes g: "geometry_ok g"
  shows "home g t e < nheads g"
proof -
  have m: "x mod SLOTS g < SLOTS g" for x using geometry_okD(3) [OF g] by simp
  have W: "WHEELS g * SLOTS g \<ge> SLOTS g" using geometry_okD(1) [OF g] by simp
  from g show ?thesis
  proof (cases rule: home_cases [where e = e and t = t])
    case glacier
    then show ?thesis using m [of "e div SLOTS g ^ 2"] by (simp add: nheads_def)
  next
    case slow
    then show ?thesis using m [of "e div SLOTS g"] by (auto simp: nheads_def)
  next
    case fast
    moreover have "e mod SLOTS g < WHEELS g * SLOTS g" using m [of e] W by linarith
    ultimately show ?thesis by (simp add: nheads_def)
  qed (simp add: nheads_def)
qed

lemma slot_head_eq:
  assumes c: "core g w L own R" and "ring < WHEELS g" "slot < SLOTS g"
  shows "slot_head g w ring slot = Some (ring * SLOTS g + slot)" "ring * SLOTS g + slot < nheads g"
    "ring * SLOTS g + slot < WHEELS g * SLOTS g"
proof -
  have "ring * SLOTS g + slot < (ring + 1) * SLOTS g" using assms(3) by simp
  also have "\<dots> \<le> WHEELS g * SLOTS g" using assms(2) by (intro mult_le_mono1) simp
  finally have lt: "ring * SLOTS g + slot < WHEELS g * SLOTS g" .
  then show "slot_head g w ring slot = Some (ring * SLOTS g + slot)" "ring * SLOTS g + slot < nheads g"
    "ring * SLOTS g + slot < WHEELS g * SLOTS g"
    using coreD(1) [OF c] by (simp_all add: slot_head_def Let_def nheads_def)
qed

lemma add_relisted:
  assumes c: "core g w L own (n # R)" and h: "h < nheads g"
    and adj: "te_live (adj (entries w ! n)) = te_live (entries w ! n)" "te_payload (adj (entries w ! n)) = te_payload (entries w ! n)"
  shows "add_to_list h n (w\<lparr>entries := (entries w)[n := adj (entries w ! n)]\<rparr>) =
    Some (w\<lparr>entries := linked_front ((entries w)[n := adj (entries w ! n)]) h n\<rparr>)"
  using core_add(1) [OF core_set_rest(2) [OF c, of n adj] h] adj by simp

lemma add_to_fast_slot_eq:
  assumes c: "core g w L own (n # R)" and g: "geometry_ok g" and f: "f < SLOTS g"
  shows "add_to_fast_slot g f n w = Some (relisted g (\<lambda>x. x) f n w)"
proof -
  have W: "0 < WHEELS g" using geometry_okD(1) [OF g] by simp
  note h = slot_head_eq [OF c W f, simplified]
  show ?thesis
    using add_relisted [OF c h(2), of "\<lambda>x. x"] h f
    by (simp add: add_to_fast_slot_def relisted_def hint_def)
qed

lemma add_to_list_eq:
  assumes c: "core g w L own (n # R)" and h: "h < nheads g" "SLOTS g \<le> h"
    and adj: "te_live (adj (entries w ! n)) = te_live (entries w ! n)" "te_payload (adj (entries w ! n)) = te_payload (entries w ! n)"
  shows "add_to_list h n (w\<lparr>entries := (entries w)[n := adj (entries w ! n)]\<rparr>) = Some (relisted g adj h n w)"
  using add_relisted [OF c h(1), of adj] adj h(2) by (simp add: relisted_def hint_def)

lemma should_overflow_eq:
  assumes g: "geometry_ok g"
  shows "should_overflow g w n =
    Some (WHEELS g = 3 \<and> OVERFLOW g \<and> (current_tick w + n) div SLOTS g ^ 3 \<noteq> current_tick w div SLOTS g ^ 3)"
proof (cases "OVERFLOW g \<and> WHEELS g = 3")
  case True
  let ?h = "SLOTS g ^ 3" and ?t = "current_tick w"
  note G = geometry_okD [OF g]
  have h: "horizon g = Some ?h" "?h \<le> u64_max" "?h > 0" using G(6,7) G(3) True by simp_all
  have "min (n + ?t mod ?h) u64_max \<ge> ?h \<longleftrightarrow> n + ?t mod ?h \<ge> ?h" using h(2) by simp
  also have "\<dots> \<longleftrightarrow> (?t + n) div ?h \<noteq> ?t div ?h"
  proof -
    have "?t + n = ?t div ?h * ?h + (n + ?t mod ?h)" using div_mult_mod_eq [of ?t ?h] by linarith
    then have "(?t + n) div ?h = ?t div ?h + (n + ?t mod ?h) div ?h"
      using h(3) by (metis div_mult_self3 less_not_refl)
    then show ?thesis using h(3) by (simp add: div_eq_0_iff not_less)
  qed
  finally show ?thesis using True h(1) by (simp add: should_overflow_def)
qed (auto simp: should_overflow_def)

lemma in_rangeD:
  assumes "in_range g t e"
  shows "t < e" "WHEELS g = 1 \<Longrightarrow> e \<le> t + SLOTS g" "WHEELS g = 2 \<Longrightarrow> e div SLOTS g < t div SLOTS g + SLOTS g"
    "WHEELS g = 3 \<Longrightarrow> \<not> OVERFLOW g \<Longrightarrow> e div SLOTS g ^ 2 < t div SLOTS g ^ 2 + SLOTS g"
  using assms by (simp_all add: in_range_def Let_def)

text \<open>Within range, comparing ring offsets compares quotients.\<close>

lemma glacier_offset_iff:
  assumes g: "geometry_ok g" and r: "in_range g t e" and W: "WHEELS g = 3"
    and ov: "OVERFLOW g \<Longrightarrow> e div SLOTS g ^ 3 = t div SLOTS g ^ 3"
  shows "e div SLOTS g ^ 2 mod SLOTS g = t div SLOTS g ^ 2 mod SLOTS g \<longleftrightarrow> e div SLOTS g ^ 2 = t div SLOTS g ^ 2"
proof (rule mod_window)
  note r' = in_rangeD [OF r]
  show "t div SLOTS g ^ 2 \<le> e div SLOTS g ^ 2" using r'(1) by (intro div_le_mono) simp
  show "e div SLOTS g ^ 2 < t div SLOTS g ^ 2 + SLOTS g"
    using r'(1,4) W ov quotient_window [OF geometry_okD(3) [OF g], of t e 2] by (cases "OVERFLOW g") (simp_all add: numeral_3_eq_3)
qed

lemma slow_offset_iff:
  assumes g: "geometry_ok g" and r: "in_range g t e" and W: "WHEELS g = 2 \<or> WHEELS g = 3"
    and gl: "WHEELS g = 3 \<Longrightarrow> e div SLOTS g ^ 2 = t div SLOTS g ^ 2"
  shows "e div SLOTS g mod SLOTS g = t div SLOTS g mod SLOTS g \<longleftrightarrow> e div SLOTS g = t div SLOTS g"
proof (rule mod_window)
  note r' = in_rangeD [OF r]
  show "t div SLOTS g \<le> e div SLOTS g" using r'(1) by (intro div_le_mono) simp
  show "e div SLOTS g < t div SLOTS g + SLOTS g"
    using r'(1,3) W gl quotient_window [OF geometry_okD(3) [OF g], of t e 1] by (auto simp: numeral_2_eq_2)
qed

lemma index_okD:
  assumes "index_ok g w"
  shows "current_index w ! 0 = current_tick w mod SLOTS g"
    "WHEELS g > 1 \<Longrightarrow> current_index w ! 1 = current_tick w div SLOTS g mod SLOTS g"
    "WHEELS g > 2 \<Longrightarrow> current_index w ! 2 = current_tick w div SLOTS g ^ 2 mod SLOTS g"
  using assms by (simp_all add: index_ok_def)

lemma place_timer_direct_eq:
  assumes g: "geometry_ok g" and c: "core g w L own (n # R)" and i: "index_ok g w" and t: "t = current_tick w"
    and e: "expiration_tick (entries w ! n) = t + k" and r: "in_range g t (t + k)"
    and ov: "WHEELS g = 3 \<Longrightarrow> OVERFLOW g \<Longrightarrow> (t + k) div SLOTS g ^ 3 = t div SLOTS g ^ 3"
  shows "place_timer_direct g n k w = Some (relisted g (placed g t) (home g t (t + k)) n w)"
proof -
  let ?s = "SLOTS g" and ?e = "t + k"
  note G = geometry_okD [OF g]
  have n: "n < length (entries w)" using core_rest(1) [OF c, of n] by simp
  have m: "x mod ?s < ?s" for x using G(3) by simp
  note I = index_okD [OF i, folded t]
  note off = timer_offsets_eq [OF g i, of k, folded t]
  from g show ?thesis
  proof (cases rule: home_cases [where e = ?e and t = t])
    case overflow
    then show ?thesis using ov by simp
  next
    case glacier
    let ?adj = "\<lambda>x. fast_ring_offset_update (\<lambda>_. ?e mod ?s) (slow_ring_offset_update (\<lambda>_. ?e div ?s mod ?s) x)"
    have p: "placed g t (entries w ! n) = ?adj (entries w ! n)"
      using glacier m [of "?e div ?s ^ 2"] by (simp add: placed_def e Let_def)
    have ne: "?e div ?s ^ 2 mod ?s \<noteq> current_index w ! 2"
      using glacier_offset_iff [OF g r glacier(1,2)] glacier(1,3) I(3) by simp
    note h = slot_head_eq [OF core_set_rest(2) [OF c, of n ?adj], of 2 "?e div ?s ^ 2 mod ?s"]
    note a = add_to_list_eq [OF c, of "2 * ?s + ?e div ?s ^ 2 mod ?s" ?adj]
    show ?thesis
      using glacier(1,4) ne h a n m p by (simp add: place_timer_direct_def off Let_def set_entry_def relisted_def)
  next
    case slow
    let ?adj = "\<lambda>x. fast_ring_offset_update (\<lambda>_. ?e mod ?s) x"
    have p: "placed g t (entries w ! n) = ?adj (entries w ! n)"
      using slow m [of "?e div ?s"] by (auto simp: placed_def e Let_def)
    have ne: "?e div ?s mod ?s \<noteq> current_index w ! 1"
      using slow_offset_iff [OF g r slow(1,2)] slow(1,3) I(2) by auto
    have eq: "\<not> (WHEELS g > 2 \<and> ?e div ?s ^ 2 mod ?s \<noteq> current_index w ! 2)" using slow(1,2) I(3) by auto
    have W: "1 < WHEELS g" using slow(1) by auto
    note h = slot_head_eq [OF core_set_rest(2) [OF c, of n ?adj] W m, simplified]
    note a = add_to_list_eq [OF c, of "?s + ?e div ?s mod ?s" ?adj, simplified]
    show ?thesis
      using slow(4) ne eq W h [of "?e div ?s"] a n p
      by (auto simp: place_timer_direct_def off Let_def set_entry_def relisted_def)
  next
    case fast
    have p: "placed g t (entries w ! n) = entries w ! n"
      using fast m [of ?e] by (simp add: placed_def e Let_def)
    have eq: "WHEELS g > 1 \<Longrightarrow> ?e div ?s mod ?s = current_index w ! 1"
      "WHEELS g > 2 \<Longrightarrow> ?e div ?s ^ 2 mod ?s = current_index w ! 2"
      using fast(1) I(2,3) by (simp_all add: power2_eq_square div_mult2_eq)
    show ?thesis
      using add_to_fast_slot_eq [OF c g m [of ?e]] fast(2) eq p
      by (auto simp: place_timer_direct_def off Let_def relisted_def)
  qed
qed

lemma place_timer_eq:
  assumes g: "geometry_ok g" and c: "core g w L own (n # R)" and i: "index_ok g w" and t: "t = current_tick w"
    and e: "expiration_tick (entries w ! n) = t + k" and r: "in_range g t (t + k)"
  shows "place_timer g n k w = Some (relisted g (placed g t) (home g t (t + k)) n w)"
proof (cases "WHEELS g = 3 \<and> OVERFLOW g \<and> (t + k) div SLOTS g ^ 3 \<noteq> t div SLOTS g ^ 3")
  case True
  then have h: "home g t (t + k) = 3 * SLOTS g" by (simp add: home_def Let_def)
  have p: "placed g t (entries w ! n) = entries w ! n" using True h by (simp add: placed_def e Let_def)
  have "overflow_head w = 3 * SLOTS g" "3 * SLOTS g < nheads g" using coreD(2) [OF c] True by (simp_all add: nheads_def)
  then show ?thesis
    using add_to_list_eq [OF c, of "3 * SLOTS g" "\<lambda>x. x"] True h p
    by (simp add: place_timer_def should_overflow_eq [OF g] t relisted_def)
next
  case False
  then show ?thesis
    using place_timer_direct_eq [OF g c i t e r] by (auto simp: place_timer_def should_overflow_eq [OF g] t)
qed


subsection \<open>The invariant of the wheel\<close>

definition timer_home :: "geometry \<Rightarrow> 'a timer_wheel \<Rightarrow> nat \<Rightarrow> nat option" where
  "timer_home g w n = Some (home g (current_tick w) (expiration_tick (entries w ! n)))"

definition live_at :: "'a timer_wheel \<Rightarrow> nat \<Rightarrow> bool" where
  "live_at w n \<longleftrightarrow> n < length (entries w) \<and> te_live (entries w ! n)"

definition timer_ok :: "geometry \<Rightarrow> nat \<Rightarrow> bitmap \<Rightarrow> 'a timer_entry \<Rightarrow> bool" where
  "timer_ok g t b x \<longleftrightarrow>
     in_range g t (expiration_tick x) \<and> offsets_ok g t x \<and>
     (FAST_BITMAP g \<and> home g t (expiration_tick x) < SLOTS g \<longrightarrow> home g t (expiration_tick x) \<in> bits b)"

definition wheel_inv :: "geometry \<Rightarrow> 'a timer_wheel \<Rightarrow> bool" where
  "wheel_inv g w \<longleftrightarrow>
     geometry_ok g \<and> index_ok g w \<and> (\<exists>L. core g w L (timer_home g w) []) \<and>
     (\<forall>n. live_at w n \<longrightarrow> timer_ok g (current_tick w) (fast_slot_bitmap w) (entries w ! n))"

text \<open>The timers a wheel holds: payload and expiration tick by handle.\<close>

definition timers :: "'a timer_wheel \<Rightarrow> nat \<rightharpoonup> 'a \<times> nat" where
  "timers w n = (if live_at w n then Some (the (te_payload (entries w ! n)), expiration_tick (entries w ! n)) else None)"

lemma timer_ok_data:
  assumes "data x = data y" "bits b \<subseteq> bits b'"
  shows "timer_ok g t b x \<Longrightarrow> timer_ok g t b' y"
  using dataD [OF assms(1)] assms(2) by (auto simp: timer_ok_def offsets_ok_def)

lemma core_own_cong:
  assumes c: "core g w L own R" and "\<And>n. live_at w n \<Longrightarrow> own' n = own n"
  shows "core g w L own' R"
proof -
  have s: "{n. n < length (entries w) \<and> te_live (entries w ! n) \<and> own' n = x} =
      {n. n < length (entries w) \<and> te_live (entries w ! n) \<and> own n = x}" for x
    using assms(2) by (auto simp: live_at_def)
  show ?thesis
  proof (rule coreI, goal_cases)
    case (10 n)
    then show ?case using coreD(10-12) [OF c, of n] assms(2) [of n] by (simp add: live_at_def)
  qed (use coreD(1-9,13-15) [OF c] in \<open>simp_all add: s\<close>)
qed

lemma core_env:
  "core g (w\<lparr>current_tick := a\<rparr>) L own R = core g w L own R"
  "core g (w\<lparr>current_index := b\<rparr>) L own R = core g w L own R"
  "core g (w\<lparr>fast_slot_bitmap := bm\<rparr>) L own R = core g w L own R"
  by (simp_all add: core_def Let_def)

lemma envD:
  assumes "env w' = env w"
  shows "current_tick w' = current_tick w" "current_index w' = current_index w" "slot_generations w' = slot_generations w"
    "timer_slots w' = timer_slots w" "timer_bitmap w' = timer_bitmap w" "timers_per_slot w' = timers_per_slot w"
    "max_expirations w' = max_expirations w" "index_ok g w' = index_ok g w"
  using assms by (simp_all add: env_def index_ok_def)

text \<open>Putting the one loose timer where it belongs completes the invariant.\<close>

lemma place_inv:
  assumes g: "geometry_ok g" and c: "core g w L own [n]" and i: "index_ok g w" and t: "t = current_tick w"
    and e: "expiration_tick (entries w ! n) = t + k" and r: "in_range g t (t + k)"
    and others: "\<And>m. live_at w m \<Longrightarrow> m \<noteq> n \<Longrightarrow>
      own m = timer_home g w m \<and> timer_ok g t (fast_slot_bitmap w) (entries w ! m)"
  shows "\<exists>w'. place_timer g n k w = Some w' \<and> wheel_inv g w' \<and> timers w' = timers w \<and> env w' = env w"
proof -
  let ?h = "home g t (t + k)" and ?adj = "placed g t :: 'a timer_entry \<Rightarrow> 'a timer_entry"
  let ?w = "relisted g ?adj ?h n w"
  have h: "?h < nheads g" using home_bound [OF g] .
  note R = core_relisted [OF c h, of ?adj, OF placed_simps(1-3)]
  have live: "live_at ?w m = live_at w m" for m
    using R(2) dataD(2) [OF R(4), of m] dataD(2) [OF R(5)] by (cases "m = n") (simp_all add: live_at_def)
  have exp: "expiration_tick (entries ?w ! m) = expiration_tick (entries w ! m)" for m
    using dataD(5) [OF R(4), of m] dataD(5) [OF R(5)] by (cases "m = n") simp_all
  have pay: "te_payload (entries ?w ! m) = te_payload (entries w ! m)" for m
    using dataD(1) [OF R(4), of m] dataD(1) [OF R(5)] by (cases "m = n") simp_all
  have th: "timer_home g ?w m = timer_home g w m" for m using envD(1) [OF R(3)] by (simp add: timer_home_def exp)
  have "core g ?w (L(?h := n # L ?h)) (timer_home g ?w) []"
  proof (rule core_own_cong [OF R(1)])
    fix m assume "live_at ?w m"
    then show "timer_home g ?w m = (own(n := Some ?h)) m"
      using others [of m] by (cases "m = n") (simp_all add: live th, simp add: timer_home_def e t)
  qed
  moreover have "timer_ok g (current_tick ?w) (fast_slot_bitmap ?w) (entries ?w ! m)" if "live_at ?w m" for m
  proof (cases "m = n")
    case True
    have "timer_ok g t (hint g ?h (fast_slot_bitmap w)) (placed g t (entries w ! n))"
      using r offsets_ok_placed [of g t "entries w ! n"] by (auto simp: timer_ok_def e bits_hint)
    then have "timer_ok g t (fast_slot_bitmap ?w) (entries ?w ! n)"
      using timer_ok_data [OF R(5) [symmetric] subset_refl] unfolding R(7) by blast
    then show ?thesis using True envD(1) [OF R(3)] t by metis
  next
    case False
    have "bits (fast_slot_bitmap w) \<subseteq> bits (fast_slot_bitmap ?w)" unfolding R(7) bits_hint by simp
    then show ?thesis
      using timer_ok_data [OF R(4) [OF False, symmetric], of "fast_slot_bitmap w"] others [of m] that live False
        envD(1) [OF R(3)] t by simp
  qed
  ultimately have "wheel_inv g ?w" using g i envD(8) [OF R(3)] by (auto simp: wheel_inv_def)
  moreover have "timers ?w = timers w" by (rule ext) (simp add: timers_def live exp pay)
  ultimately show ?thesis using place_timer_eq [OF g c i t e r] R(3) by blast
qed

subsection \<open>Starting, stopping and updating timers\<close>

lemma wheel_invD:
  assumes "wheel_inv g w"
  obtains L where "geometry_ok g" "index_ok g w" "core g w L (timer_home g w) []"
    "\<And>n. live_at w n \<Longrightarrow> timer_ok g (current_tick w) (fast_slot_bitmap w) (entries w ! n)"
  using assms unfolding wheel_inv_def by blast

lemma wheel_unlink:
  assumes inv: "wheel_inv g w" and n: "live_at w n"
  obtains L own where "unlink n w = Some (w\<lparr>entries := unlinked (entries w) n\<rparr>)"
    "core g (w\<lparr>entries := unlinked (entries w) n\<rparr>) L own [n]"
    "\<And>m. live_at w m \<Longrightarrow> m \<noteq> n \<Longrightarrow> own m = timer_home g w m"
proof -
  obtain L where c: "core g w L (timer_home g w) []" using inv by (rule wheel_invD)
  show thesis
    using core_unlink [OF c, of n] n that by (simp add: live_at_def timer_home_def)
qed

lemma wheel_stop_spec:
  assumes inv: "wheel_inv g w"
  shows "if live_at w n
    then \<exists>w'. wheel_stop n w = Some (True, w') \<and> wheel_inv g w' \<and> timers w' = (timers w)(n := None) \<and> env w' = env w
    else wheel_stop n w = Some (False, w)"
proof (cases "live_at w n")
  case True
  obtain L own where u: "unlink n w = Some (w\<lparr>entries := unlinked (entries w) n\<rparr>)"
    "core g (w\<lparr>entries := unlinked (entries w) n\<rparr>) L own [n]"
    "\<And>m. live_at w m \<Longrightarrow> m \<noteq> n \<Longrightarrow> own m = timer_home g w m"
    using wheel_unlink [OF inv True] by blast
  define w1 where "w1 = w\<lparr>entries := unlinked (entries w) n\<rparr>"
  define w2 where "w2 = w1\<lparr>entries := (entries w1)[n := freed (entries w1 ! n)], tw_len := tw_len w1 - 1,
    free_slots := free_slots w1 @ [n]\<rparr>"
  have f: "free_timer n w1 = Some w2" "core g w2 L own []"
    using core_free [OF u(2)] by (simp_all add: w1_def w2_def)
  have env: "env w2 = env w" "fast_slot_bitmap w2 = fast_slot_bitmap w" by (simp_all add: w1_def w2_def)
  have n: "n < length (entries w)" using True by (simp add: live_at_def)
  have e: "data (entries w2 ! m) = data (entries w ! m)" if "m \<noteq> n" for m using that by (simp add: w1_def w2_def)
  have live: "live_at w2 m \<longleftrightarrow> live_at w m \<and> m \<noteq> n" for m
    using dataD(2) [OF e, of m] n by (cases "m = n") (auto simp: live_at_def w1_def w2_def freed_def)
  have "core g w2 L (timer_home g w2) []"
    by (rule core_own_cong [OF f(2)]) (use u(3) live dataD(5) [OF e] envD(1) [OF env(1)] in \<open>simp add: timer_home_def\<close>)
  moreover have "timer_ok g (current_tick w2) (fast_slot_bitmap w2) (entries w2 ! m)" if "live_at w2 m" for m
    using that live [of m] timer_ok_data [OF e [symmetric], of m "fast_slot_bitmap w" "fast_slot_bitmap w"] inv
      envD(1) [OF env(1)] env(2) by (simp add: wheel_inv_def)
  ultimately have "wheel_inv g w2" using inv envD(8) [OF env(1)] by (auto simp: wheel_inv_def)
  moreover have "timers w2 = (timers w)(n := None)"
    using dataD(1,5) [OF e] live by (intro ext) (simp add: timers_def)
  moreover have "wheel_stop n w = Some (True, w2)"
    using u(1) f(1) True by (simp add: wheel_stop_def live_slot_def live_at_def w1_def)
  ultimately show ?thesis using True env(1) by auto
qed (auto simp: wheel_stop_def live_slot_def live_at_def)

definition interval_ok :: "geometry \<Rightarrow> nat \<Rightarrow> nat \<Rightarrow> bool" where
  "interval_ok g t k \<longleftrightarrow>
     t + k \<le> u64_max \<and> (\<not> (OVERFLOW g \<and> WHEELS g = 3) \<longrightarrow> k \<le> (if WHEELS g = 1 then SLOTS g else SLOTS g ^ WHEELS g - 1))"

lemma validate_interval_eq:
  assumes "geometry_ok g"
  shows "validate_interval g w k =
    Some (if k = 0 then Inl ZeroInterval else if interval_ok g (current_tick w) k then Inr () else Inl IntervalOutOfRange)"
  using geometry_okD(6) [OF assms]
  by (auto simp: validate_interval_def interval_ok_def max_direct_interval_def not_less not_le)

text \<open>With one ring, or with three and an overflow list, every accepted interval is placed within range.\<close>

lemma accepted_in_range:
  assumes "geometry_ok g" "interval_ok g t k" "k > 0" "WHEELS g = 1 \<or> WHEELS g = 3 \<and> OVERFLOW g"
  shows "in_range g t (t + k)"
  using assms by (auto simp: in_range_def interval_ok_def Let_def)

lemma wheel_start_spec:
  assumes inv: "wheel_inv g w" and k: "k > 0" "interval_ok g (current_tick w) k"
    and r: "in_range g (current_tick w) (current_tick w + k)"
    and room: "free_slots w \<noteq> [] \<or> length (entries w) < 2 ^ 32"
  shows "\<exists>n w'. wheel_start g p k w = Some (Inr (n, w')) \<and> wheel_inv g w' \<and> timers w n = None \<and>
    timers w' = (timers w)(n \<mapsto> (p, current_tick w + k)) \<and> env w' = env w"
proof -
  let ?t = "current_tick w"
  obtain L where c: "geometry_ok g" "index_ok g w" "core g w L (timer_home g w) []"
    "\<And>n. live_at w n \<Longrightarrow> timer_ok g ?t (fast_slot_bitmap w) (entries w ! n)"
    using inv unfolding wheel_inv_def by blast
  obtain n es fr where a: "allocate_timer p (?t + k) w = Some (n, w\<lparr>entries := es, free_slots := fr, tw_len := tw_len w + 1\<rparr>)"
    "core g (w\<lparr>entries := es, free_slots := fr, tw_len := tw_len w + 1\<rparr>) L ((timer_home g w)(n := None)) [n]"
    "es ! n = entry_timer p (?t + k)" "n < length es" "length (entries w) \<le> length es" "\<not> live_at w n"
    "\<And>m. m < length es \<Longrightarrow> m \<noteq> n \<Longrightarrow> m < length (entries w) \<and> es ! m = entries w ! m"
    using core_alloc [OF c(3) room, of p "?t + k"] by (auto simp: live_at_def)
  define w1 where "w1 = w\<lparr>entries := es, free_slots := fr, tw_len := tw_len w + 1\<rparr>"
  have env: "env w1 = env w" "fast_slot_bitmap w1 = fast_slot_bitmap w" "entries w1 = es" by (simp_all add: w1_def)
  have t: "?t = current_tick w1" "index_ok g w1" using envD(1,8) [OF env(1)] c(2) by simp_all
  have live: "live_at w1 m \<longleftrightarrow> m = n \<or> live_at w m" for m
    using a(3-7) by (cases "m = n") (auto simp: live_at_def env(3) entry_timer_def)
  have e: "es ! m = entries w ! m" if "live_at w1 m" "m \<noteq> n" for m using that a(7) by (simp add: live_at_def env(3))
  have o: "((timer_home g w)(n := None)) m = timer_home g w1 m \<and> timer_ok g ?t (fast_slot_bitmap w1) (entries w1 ! m)"
    if "live_at w1 m" "m \<noteq> n" for m
    using that e [OF that] c(4) [of m] live t(1) by (simp add: timer_home_def env)
  have x: "expiration_tick (entries w1 ! n) = ?t + k" using a(3) by (simp add: env(3) entry_timer_def)
  obtain w' where w': "place_timer g n k w1 = Some w'" "wheel_inv g w'" "timers w' = timers w1" "env w' = env w1"
    using place_inv [OF c(1) a(2) [folded w1_def] t(2) t(1) x r o] by blast
  have "timers w1 = (timers w)(n \<mapsto> (p, ?t + k))"
    using live e a(3,6) by (intro ext) (auto simp: timers_def env(3) entry_timer_def)
  moreover have "wheel_start g p k w = Some (Inr (n, w'))"
    using a(1) w'(1) k by (simp add: wheel_start_def validate_interval_eq [OF c(1)] w1_def interval_ok_def)
  moreover have "timers w n = None" using a(6) by (simp add: timers_def)
  ultimately show ?thesis using w' env(1) by auto
qed

lemma wheel_update_spec:
  assumes inv: "wheel_inv g w" and k: "k > 0" "interval_ok g (current_tick w) k"
    and r: "in_range g (current_tick w) (current_tick w + k)" and n: "timers w n = Some (p, e)"
  shows "\<exists>w'. wheel_update g n k w = Some (Inr (True, w')) \<and> wheel_inv g w' \<and>
    timers w' = (timers w)(n \<mapsto> (p, current_tick w + k)) \<and> env w' = env w"
proof -
  let ?t = "current_tick w"
  have l: "live_at w n" "the (te_payload (entries w ! n)) = p" using n by (auto simp: timers_def split: if_splits)
  obtain L0 where c: "geometry_ok g" "index_ok g w" "core g w L0 (timer_home g w) []"
    "\<And>n. live_at w n \<Longrightarrow> timer_ok g ?t (fast_slot_bitmap w) (entries w ! n)"
    using inv unfolding wheel_inv_def by blast
  obtain L own where u: "unlink n w = Some (w\<lparr>entries := unlinked (entries w) n\<rparr>)"
    "core g (w\<lparr>entries := unlinked (entries w) n\<rparr>) L own [n]"
    "\<And>m. live_at w m \<Longrightarrow> m \<noteq> n \<Longrightarrow> own m = timer_home g w m"
    using wheel_unlink [OF inv l(1)] by blast
  let ?f = "expiration_tick_update (\<lambda>_. ?t + k) :: 'a timer_entry \<Rightarrow> 'a timer_entry"
  define w1 where "w1 = w\<lparr>entries := (unlinked (entries w) n)[n := ?f (unlinked (entries w) n ! n)]\<rparr>"
  have s: "set_entry n ?f (w\<lparr>entries := unlinked (entries w) n\<rparr>) = Some w1" "core g w1 L own [n]"
    using core_set_rest [OF u(2), of n ?f] by (simp_all add: w1_def)
  have nl: "n < length (entries w)" using l(1) by (simp add: live_at_def)
  have env: "env w1 = env w" "fast_slot_bitmap w1 = fast_slot_bitmap w" by (simp_all add: w1_def)
  have t: "?t = current_tick w1" "index_ok g w1" using envD(1,8) [OF env(1)] c(2) by simp_all
  have e: "data (entries w1 ! m) = data (entries w ! m)" if "m \<noteq> n" for m using that by (simp add: w1_def)
  have en: "te_live (entries w1 ! n) = te_live (entries w ! n)" "te_payload (entries w1 ! n) = te_payload (entries w ! n)"
    "expiration_tick (entries w1 ! n) = ?t + k" using nl by (simp_all add: w1_def)
  have live: "live_at w1 m \<longleftrightarrow> live_at w m" for m
    using dataD(2) [OF e, of m] en(1) by (cases "m = n") (simp_all add: live_at_def w1_def)
  have o: "own m = timer_home g w1 m \<and> timer_ok g ?t (fast_slot_bitmap w1) (entries w1 ! m)"
    if "live_at w1 m" "m \<noteq> n" for m
    using that live u(3) [of m] dataD(5) [OF e [OF that(2)]] t(1) c(4) [of m]
      timer_ok_data [OF e [OF that(2), symmetric], of "fast_slot_bitmap w" "fast_slot_bitmap w1"] env(2)
    by (simp add: timer_home_def)
  obtain w' where w': "place_timer g n k w1 = Some w'" "wheel_inv g w'" "timers w' = timers w1" "env w' = env w1"
    using place_inv [OF c(1) s(2) t(2) t(1) en(3) r o] by blast
  have "timers w1 = (timers w)(n \<mapsto> (p, ?t + k))"
  proof
    fix m show "timers w1 m = ((timers w)(n \<mapsto> (p, ?t + k))) m"
      using live dataD(1,5) [OF e, of m] en l by (cases "m = n") (simp_all add: timers_def)
  qed
  moreover have "wheel_update g n k w = Some (Inr (True, w'))"
    using u(1) s(1) w'(1) k l(1)
    by (simp add: wheel_update_def validate_interval_eq [OF c(1)] interval_ok_def live_slot_def live_at_def Let_def)
  ultimately show ?thesis using w' env(1) by auto
qed

end
