(* ===== verification/TimerExpiry.thy ===== *)
theory TimerExpiry
  imports TimerWheel
begin

text \<open>
  What advancing the timer wheel does (\<open>src/crates/hammer-infra/src/timer_wheel.rs\<close>: \<open>advance_one_tick\<close>,
  \<open>expire\<close>, \<open>first_expires_in_ticks\<close>).  One tick is followed through its four drains (overflow list, glacier
  slot, slow slot, fast slot): every drain hands out the timers that are due and puts the others where they
  belong at the new tick, so a tick hands out exactly the timers that expire at it and keeps the invariant of
  the wheel.  Runs of ticks, the hint for the next expiration and the fate of a started timer follow.
\<close>

subsection \<open>One tick: arithmetic\<close>

lemma in_range_Suc:
  assumes "in_range g t e" "Suc t < e"
  shows "in_range g (Suc t) e"
proof -
  have m: "x < Suc t div d + k" if "x < t div d + k" for x d k :: nat
    using that div_le_mono [of t "Suc t" d] by linarith
  show ?thesis using assms by (auto simp: in_range_def Let_def intro: m)
qed

lemma div_between: "(t :: nat) \<le> u \<Longrightarrow> u \<le> e \<Longrightarrow> e div d = t div d \<Longrightarrow> u div d = t div d"
  by (metis div_le_mono le_antisym)

lemma Suc_div_pow:
  assumes "s > 0"
  shows "Suc t div s ^ Suc k = (if Suc t div s ^ k mod s = 0 \<and> Suc t mod s ^ k = 0 then Suc (t div s ^ Suc k) else t div s ^ Suc k)"
proof -
  have "Suc t mod s ^ Suc k = 0 \<longleftrightarrow> Suc t div s ^ k mod s = 0 \<and> Suc t mod s ^ k = 0"
    using mod_mult2_eq [of "Suc t" "s ^ k" s] assms by (simp add: mult.commute)
  then show ?thesis using div_Suc [of t "s ^ Suc k"] by simp
qed

text \<open>A timer in the slot the tick reaches is in the block of that tick.\<close>

lemma glacier_reached:
  assumes g: "geometry_ok g" and r: "in_range g t e" and W: "WHEELS g = 3"
    and h: "home g t e = 2 * SLOTS g + Suc t div SLOTS g ^ 2 mod SLOTS g"
    and w: "Suc t div SLOTS g mod SLOTS g = 0" "Suc t mod SLOTS g = 0"
  shows "e div SLOTS g ^ 2 = Suc t div SLOTS g ^ 2" "OVERFLOW g \<Longrightarrow> e div SLOTS g ^ 3 = Suc t div SLOTS g ^ 3"
proof -
  let ?s = "SLOTS g"
  have s: "?s > 0" using geometry_okD(3) [OF g] .
  have m: "x mod ?s < ?s" for x using s by simp
  have te: "Suc t \<le> e" using in_rangeD(1) [OF r] by simp
  have up: "Suc t div ?s ^ 2 = Suc (t div ?s ^ 2)"
    using Suc_div_pow [OF s, of t 1] w by (simp add: numeral_2_eq_2)
  have gl: "e div ?s ^ 2 \<noteq> t div ?s ^ 2" "OVERFLOW g \<Longrightarrow> e div ?s ^ 3 = t div ?s ^ 3"
    "e div ?s ^ 2 mod ?s = Suc t div ?s ^ 2 mod ?s"
    using g h m [of "Suc t div ?s ^ 2"] m [of "e div ?s"] m [of e]
    by (cases rule: home_cases [where e = e and t = t]; simp)+
  have lt: "e div ?s ^ 2 < t div ?s ^ 2 + ?s"
    using in_rangeD(4) [OF r W] gl(2) quotient_window [OF s, of t e 2] te by (cases "OVERFLOW g") (simp_all add: numeral_3_eq_3)
  show "e div ?s ^ 2 = Suc t div ?s ^ 2"
    using mod_window [of "Suc t div ?s ^ 2" "e div ?s ^ 2" ?s] gl(3) lt up div_le_mono [OF te, of "?s ^ 2"] by simp
  show "e div ?s ^ 3 = Suc t div ?s ^ 3" if "OVERFLOW g"
    using gl(2) [OF that] div_between [of t "Suc t" e "?s ^ 3"] te by simp
qed

lemma slow_reached:
  assumes g: "geometry_ok g" and r: "in_range g t e" and W: "WHEELS g > 1"
    and h: "home g t e = SLOTS g + Suc t div SLOTS g mod SLOTS g" and w: "Suc t mod SLOTS g = 0"
  shows "e div SLOTS g = Suc t div SLOTS g"
proof -
  let ?s = "SLOTS g"
  have s: "?s > 0" using geometry_okD(3) [OF g] .
  have m: "x mod ?s < ?s" for x using s by simp
  have te: "Suc t \<le> e" using in_rangeD(1) [OF r] by simp
  have up: "Suc t div ?s = Suc (t div ?s)" using div_Suc [of t ?s] w by simp
  have sl: "WHEELS g = 2 \<or> WHEELS g = 3" "WHEELS g = 3 \<Longrightarrow> e div ?s ^ 2 = t div ?s ^ 2"
    "e div ?s mod ?s = Suc t div ?s mod ?s"
    using g h m [of "Suc t div ?s"] m [of e]
    by (cases rule: home_cases [where e = e and t = t]; simp)+
  have lt: "e div ?s < t div ?s + ?s"
    using in_rangeD(3) [OF r] sl(1,2) quotient_window [OF s, of t e 1] te by (auto simp: numeral_2_eq_2)
  then show ?thesis
    using mod_window [of "Suc t div ?s" "e div ?s" ?s] sl(3) up div_le_mono [OF te, of ?s] by simp
qed

lemma fast_reached:
  assumes g: "geometry_ok g" and r: "in_range g t e" and h: "home g t e = Suc t mod SLOTS g"
  shows "e = Suc t"
proof -
  let ?s = "SLOTS g"
  have s: "?s > 0" using geometry_okD(3) [OF g] .
  have m: "Suc t mod ?s < ?s" using s by simp
  have te: "Suc t \<le> e" using in_rangeD(1) [OF r] by simp
  have f: "WHEELS g > 1 \<Longrightarrow> e div ?s = t div ?s" "e mod ?s = Suc t mod ?s"
    using g h m by (cases rule: home_cases [where e = e and t = t]; simp)+
  show ?thesis
  proof (cases "WHEELS g > 1")
    case True
    then have "e div ?s = Suc t div ?s" using f(1) div_between [of t "Suc t" e ?s] te by simp
    then show ?thesis using f(2) by (metis div_mult_mod_eq)
  next
    case False
    then have "e < Suc t + ?s" using in_rangeD(2) [OF r] geometry_okD(1) [OF g] by simp
    then show ?thesis using mod_window [OF te] f(2) by blast
  qed
qed

lemma pow_div: "(x :: nat) div s ^ 2 = x div s div s" "x div s ^ 3 = x div s div s div s"
  by (simp_all add: power2_eq_square power3_eq_cube div_mult2_eq)

lemma mod_pow2: "s > 0 \<Longrightarrow> (x :: nat) mod s ^ 2 = 0 \<longleftrightarrow> x div s mod s = 0 \<and> x mod s = 0"
  using mod_mult2_eq [of x s s] by (simp add: power2_eq_square)

lemma home_stays:
  assumes g: "geometry_ok g" and r: "in_range g t e"
    and ov: "WHEELS g = 3 \<Longrightarrow> OVERFLOW g \<Longrightarrow> Suc t mod SLOTS g = 0 \<Longrightarrow> Suc t div SLOTS g mod SLOTS g = 0 \<Longrightarrow>
      Suc t div SLOTS g ^ 2 mod SLOTS g = 0 \<Longrightarrow> home g t e \<noteq> 3 * SLOTS g"
    and gl: "WHEELS g = 3 \<Longrightarrow> Suc t mod SLOTS g = 0 \<Longrightarrow> Suc t div SLOTS g mod SLOTS g = 0 \<Longrightarrow>
      home g t e \<noteq> 2 * SLOTS g + Suc t div SLOTS g ^ 2 mod SLOTS g"
    and sl: "WHEELS g > 1 \<Longrightarrow> Suc t mod SLOTS g = 0 \<Longrightarrow> home g t e \<noteq> SLOTS g + Suc t div SLOTS g mod SLOTS g"
    and fa: "home g t e \<noteq> Suc t mod SLOTS g"
  shows "home g (Suc t) e = home g t e" "Suc t < e"
proof -
  let ?s = "SLOTS g"
  have s: "?s > 0" using geometry_okD(3) [OF g] .
  have te: "Suc t \<le> e" using in_rangeD(1) [OF r] by simp
  have bt: "e div d = t div d \<Longrightarrow> e div d = Suc t div d" for d using div_between [of t "Suc t" e d] te by simp
  have up2: "Suc t div ?s ^ 2 = t div ?s ^ 2" if "\<not> (Suc t mod ?s = 0 \<and> Suc t div ?s mod ?s = 0)"
    using Suc_div_pow [OF s, of t 1] that by (auto simp: numeral_2_eq_2)
  have up3: "Suc t div ?s ^ 3 = t div ?s ^ 3"
    if "\<not> (Suc t mod ?s = 0 \<and> Suc t div ?s mod ?s = 0 \<and> Suc t div ?s ^ 2 mod ?s = 0)"
    using Suc_div_pow [OF s, of t 2] that mod_pow2 [OF s, of "Suc t"] by (auto simp: numeral_3_eq_3)
  have up1: "Suc t div ?s = t div ?s" if "Suc t mod ?s \<noteq> 0" using div_Suc [of t ?s] that by simp
  from g have "home g (Suc t) e = home g t e \<and> Suc t \<noteq> e"
  proof (cases rule: home_cases [where e = e and t = t])
    case overflow
    have "\<not> (Suc t mod ?s = 0 \<and> Suc t div ?s mod ?s = 0 \<and> Suc t div ?s ^ 2 mod ?s = 0)"
    proof
      assume "Suc t mod ?s = 0 \<and> Suc t div ?s mod ?s = 0 \<and> Suc t div ?s ^ 2 mod ?s = 0"
      then show False using ov [OF overflow(1,2)] overflow(4) by simp
    qed
    then have "e div ?s ^ 3 \<noteq> Suc t div ?s ^ 3" using overflow(3) by (simp add: up3)
    then show ?thesis using overflow by (auto simp: home_def Let_def)
  next
    case glacier
    have "e div ?s ^ 2 \<noteq> Suc t div ?s ^ 2"
    proof (cases "Suc t mod ?s = 0 \<and> Suc t div ?s mod ?s = 0")
      case True
      then show ?thesis using gl glacier(1,4) by auto
    qed (use up2 glacier(3) in simp)
    moreover have "OVERFLOW g \<Longrightarrow> e div ?s ^ 3 = Suc t div ?s ^ 3" using glacier(2) bt by blast
    ultimately show ?thesis using glacier(1,4) by (auto simp: home_def Let_def)
  next
    case slow
    have "e div ?s \<noteq> Suc t div ?s"
    proof (cases "Suc t mod ?s = 0")
      case True
      then show ?thesis using sl slow(1,4) by auto
    qed (use up1 slow(3) in simp)
    moreover have "WHEELS g = 3 \<Longrightarrow> e div ?s ^ 2 = Suc t div ?s ^ 2" "WHEELS g = 3 \<Longrightarrow> e div ?s ^ 3 = Suc t div ?s ^ 3"
      using slow(2) bt [of "?s ^ 2"] bt [of "?s ^ 3"] by (simp_all add: pow_div)
    ultimately show ?thesis using slow(1,4) by (auto simp: home_def Let_def)
  next
    case fast
    have "WHEELS g > 1 \<Longrightarrow> e div ?s = Suc t div ?s" using fast(1) bt by blast
    then show ?thesis using fast(2) fa by (auto simp: home_def Let_def pow_div)
  qed
  then show "home g (Suc t) e = home g t e" "Suc t < e" using te by auto
qed

lemma home_not_current:
  assumes g: "geometry_ok g" and r: "in_range g u e"
  shows "WHEELS g = 3 \<Longrightarrow> home g u e \<noteq> 2 * SLOTS g + u div SLOTS g ^ 2 mod SLOTS g"
    "WHEELS g > 1 \<Longrightarrow> home g u e \<noteq> SLOTS g + u div SLOTS g mod SLOTS g"
    "WHEELS g > 1 \<Longrightarrow> home g u e \<noteq> u mod SLOTS g"
proof -
  let ?s = "SLOTS g"
  have s: "?s > 0" using geometry_okD(3) [OF g] .
  have m: "x mod ?s < ?s" for x using s by simp
  have ue: "u < e" using in_rangeD(1) [OF r] .
  show "home g u e \<noteq> 2 * ?s + u div ?s ^ 2 mod ?s" if W: "WHEELS g = 3"
    using g
  proof (cases rule: home_cases [where e = e and t = u])
    case glacier
    then show ?thesis using glacier_offset_iff [OF g r W] by auto
  qed (use m [of "u div ?s ^ 2"] m [of "e div ?s"] m [of e] in linarith)+
  show "home g u e \<noteq> ?s + u div ?s mod ?s" if W: "WHEELS g > 1"
    using g
  proof (cases rule: home_cases [where e = e and t = u])
    case slow
    then show ?thesis using slow_offset_iff [OF g r slow(1)] by auto
  qed (use m [of "u div ?s"] m [of e] in linarith)+
  show "home g u e \<noteq> u mod ?s" if W: "WHEELS g > 1"
    using g
  proof (cases rule: home_cases [where e = e and t = u])
    case fast
    then have "e div ?s = u div ?s" using W by blast
    then have "e mod ?s \<noteq> u mod ?s" using ue by (metis div_mult_mod_eq less_irrefl)
    then show ?thesis using fast(2) by simp
  qed (use m [of u] in linarith)+
qed

subsection \<open>One tick: the drains\<close>

definition at_tick :: "geometry \<Rightarrow> nat \<Rightarrow> 'a timer_wheel \<Rightarrow> bool" where
  "at_tick g u w \<longleftrightarrow> current_tick w = u \<and> index_ok g w"

text \<open>Every drain expires the timers due and puts the others where they belong.\<close>

definition tick_dest :: "geometry \<Rightarrow> nat \<Rightarrow> 'a timer_entry \<Rightarrow> nat option" where
  "tick_dest g u x = (if expiration_tick x = u then None else Some (home g u (expiration_tick x)))"

lemma at_tick_env: "env w = env w' \<Longrightarrow> at_tick g u w = at_tick g u w'"
  using envD(1,8) [of w w'] by (simp add: at_tick_def)

lemma tick_dest_data: "data x = data y \<Longrightarrow> tick_dest g u x = tick_dest g u y"
  by (simp add: tick_dest_def data_def)

lemma div_mod_unique: "(e :: nat) div s = u div s \<Longrightarrow> e mod s = u mod s \<longleftrightarrow> e = u"
  by (metis div_mult_mod_eq)

lemma drainsI:
  assumes "\<And>x y. data x = data y \<Longrightarrow> Q x = Q y" "\<And>x y. data x = data y \<Longrightarrow> data (adj x) = data (adj y)"
    "\<And>x. te_live (adj x) = te_live x \<and> te_payload (adj x) = te_payload x \<and> te_next (adj x) = te_next x"
    "\<And>w ex L own R n. core g w L own (n # R) \<Longrightarrow> at_tick g u w \<Longrightarrow> Q (entries w ! n) \<Longrightarrow>
        (case tick_dest g u (entries w ! n) of
           None \<Rightarrow> body n (w, ex) = expire_timer n (w, ex)
         | Some h \<Rightarrow> h < nheads g \<and> body n (w, ex) = Some (relisted g adj h n w, ex))"
  shows "drains g body (at_tick g u) Q (tick_dest g u) adj"
  unfolding drains_def
proof (intro conjI allI impI)
  fix w w' :: "'a timer_wheel" assume "env w = env w'"
  then show "at_tick g u w = at_tick g u w'" by (rule at_tick_env)
next
  fix x y :: "'a timer_entry" assume d: "data x = data y"
  then show "Q x = Q y" "tick_dest g u x = tick_dest g u y" "data (adj x) = data (adj y)"
    using assms(1,2) tick_dest_data by blast+
qed (use assms(3,4) in blast)+

lemma drains_fast: "drains g expire_timer (at_tick g u) (\<lambda>x. expiration_tick x = u) (tick_dest g u) (\<lambda>x. x)"
  by (rule drainsI) (simp_all add: data_def tick_dest_def)

definition slow_ready :: "geometry \<Rightarrow> nat \<Rightarrow> 'a timer_entry \<Rightarrow> bool" where
  "slow_ready g u x \<longleftrightarrow>
     fast_ring_offset x = expiration_tick x mod SLOTS g \<and> expiration_tick x div SLOTS g = u div SLOTS g"

definition glacier_ready :: "geometry \<Rightarrow> nat \<Rightarrow> 'a timer_entry \<Rightarrow> bool" where
  "glacier_ready g u x \<longleftrightarrow>
     fast_ring_offset x = expiration_tick x mod SLOTS g \<and>
     slow_ring_offset x = expiration_tick x div SLOTS g mod SLOTS g \<and>
     expiration_tick x div SLOTS g ^ 2 = u div SLOTS g ^ 2"

lemma drains_slow:
  assumes g: "geometry_ok g" and W: "WHEELS g > 1"
  shows "drains g (cascade_slow_body g) (at_tick g u) (slow_ready g u) (tick_dest g u) (\<lambda>x. x)"
proof (rule drainsI)
  fix w :: "'a timer_wheel" and ex L own R n
  assume c: "core g w L own (n # R)" and a: "at_tick g u w" "slow_ready g u (entries w ! n)"
  let ?x = "entries w ! n"
  have n: "n < length (entries w)" using core_rest(1) [OF c, of n] by simp
  have i: "current_index w ! 0 = u mod SLOTS g" using a(1) index_okD(1) [of g w] by (simp add: at_tick_def)
  have q: "fast_ring_offset ?x = expiration_tick ?x mod SLOTS g" "expiration_tick ?x div SLOTS g = u div SLOTS g"
    using a by (simp_all add: slow_ready_def)
  have h: "home g u (expiration_tick ?x) = expiration_tick ?x mod SLOTS g"
    using q(2) by (simp add: home_def Let_def pow_div)
  have f: "expiration_tick ?x mod SLOTS g < SLOTS g" using geometry_okD(3) [OF g] by simp
  show "case tick_dest g u ?x of
      None \<Rightarrow> cascade_slow_body g n (w, ex) = expire_timer n (w, ex)
    | Some h \<Rightarrow> h < nheads g \<and> cascade_slow_body g n (w, ex) = Some (relisted g (\<lambda>x. x) h n w, ex)"
    using div_mod_unique [OF q(2)] add_to_fast_slot_eq [OF c g f] home_bound [OF g, of u "expiration_tick ?x"] n i
    by (simp add: tick_dest_def cascade_slow_body_def get_entry_def q(1) h)
qed (simp_all add: slow_ready_def data_def)

lemma drains_glacier:
  assumes g: "geometry_ok g" and W: "WHEELS g > 2"
  shows "drains g (cascade_glacier_body g) (at_tick g u) (glacier_ready g u) (tick_dest g u) (\<lambda>x. x)"
proof (rule drainsI)
  fix w :: "'a timer_wheel" and ex L own R n
  assume c: "core g w L own (n # R)" and a: "at_tick g u w" "glacier_ready g u (entries w ! n)"
  let ?x = "entries w ! n" and ?s = "SLOTS g"
  let ?e = "expiration_tick ?x"
  have n: "n < length (entries w)" using core_rest(1) [OF c, of n] by simp
  have i: "current_index w ! 0 = u mod ?s" "current_index w ! 1 = u div ?s mod ?s"
    using a(1) index_okD(1,2) [of g w] W by (simp_all add: at_tick_def)
  have q: "fast_ring_offset ?x = ?e mod ?s" "slow_ring_offset ?x = ?e div ?s mod ?s" "?e div ?s ^ 2 = u div ?s ^ 2"
    using a by (simp_all add: glacier_ready_def)
  have sl: "?e div ?s mod ?s = u div ?s mod ?s \<longleftrightarrow> ?e div ?s = u div ?s"
    by (rule div_mod_unique) (use q(3) in \<open>simp add: pow_div\<close>)
  have m: "x mod ?s < ?s" for x using geometry_okD(3) [OF g] by simp
  have h: "home g u ?e = (if ?e div ?s = u div ?s then ?e mod ?s else ?s + ?e div ?s mod ?s)"
    using q(3) W by (simp add: home_def Let_def pow_div)
  have sh: "slot_head g w 1 (?e div ?s mod ?s) = Some (?s + ?e div ?s mod ?s)" "?s + ?e div ?s mod ?s < nheads g"
    using slot_head_eq [OF c _ m, of 1] W by simp_all
  have add: "add_to_list (?s + ?e div ?s mod ?s) n w = Some (relisted g (\<lambda>x. x) (?s + ?e div ?s mod ?s) n w)"
    using add_to_list_eq [OF c sh(2), of "\<lambda>x. x"] by simp
  show "case tick_dest g u ?x of
      None \<Rightarrow> cascade_glacier_body g n (w, ex) = expire_timer n (w, ex)
    | Some h \<Rightarrow> h < nheads g \<and> cascade_glacier_body g n (w, ex) = Some (relisted g (\<lambda>x. x) h n w, ex)"
  proof (cases "?e div ?s = u div ?s")
    case True
    then show ?thesis
      using div_mod_unique [OF True] add_to_fast_slot_eq [OF c g m [of ?e]] home_bound [OF g, of u ?e] n i
      by (simp add: tick_dest_def cascade_glacier_body_def get_entry_def q(1,2) h)
  next
    case False
    then have "?e \<noteq> u" "?e div ?s mod ?s \<noteq> u div ?s mod ?s" using sl by auto
    then show ?thesis
      using False sh add n i by (simp add: tick_dest_def cascade_glacier_body_def get_entry_def q(1,2) h)
  qed
qed (simp_all add: glacier_ready_def data_def)

lemma placed_data: "data x = data y \<Longrightarrow> data (placed g u x) = data (placed g u y)"
  by (frule dataD(5)) (simp add: placed_def data_def Let_def)

lemma drains_overflow:
  assumes g: "geometry_ok g" and W: "WHEELS g = 3" "OVERFLOW g"
  shows "drains g (process_overflow_body g) (at_tick g u) (\<lambda>x. u \<le> expiration_tick x) (tick_dest g u) (placed g u)"
proof (rule drainsI)
  fix w :: "'a timer_wheel" and ex L own R n
  assume c: "core g w L own (n # R)" and a: "at_tick g u w" "u \<le> expiration_tick (entries w ! n)"
  let ?e = "expiration_tick (entries w ! n)"
  have n: "n < length (entries w)" using core_rest(1) [OF c, of n] by simp
  have t: "current_tick w = u" "index_ok g w" "u \<le> ?e" using a by (simp_all add: at_tick_def)
  show "case tick_dest g u (entries w ! n) of
      None \<Rightarrow> process_overflow_body g n (w, ex) = expire_timer n (w, ex)
    | Some h \<Rightarrow> h < nheads g \<and> process_overflow_body g n (w, ex) = Some (relisted g (placed g u) h n w, ex)"
  proof (cases "?e = u")
    case True
    then show ?thesis using n t by (simp add: tick_dest_def process_overflow_body_def get_entry_def)
  next
    case False
    then have r: "in_range g u (u + (?e - u))" using t(3) W by (simp add: in_range_def Let_def)
    have "place_timer g n (?e - u) w = Some (relisted g (placed g u) (home g u ?e) n w)"
      using place_timer_eq [OF g c t(2) t(1) [symmetric] _ r] t(3) by simp
    then show ?thesis
      using False n t home_bound [OF g, of u ?e]
      by (simp add: tick_dest_def process_overflow_body_def get_entry_def place_timer_def should_overflow_eq [OF g])
  qed
qed (erule placed_data | simp add: data_def)+

text \<open>The state between two drains of the tick from \<open>t\<close>: each timer is either still where it was, in a list not yet
  drained, or (once \<open>moved\<close>) where it belongs now. \<open>w0\<close> is the wheel at the start, \<open>ps\<close> the payloads so far.\<close>

definition waits :: "geometry \<Rightarrow> nat \<Rightarrow> nat set \<Rightarrow> 'a timer_entry \<Rightarrow> nat option \<Rightarrow> bool" where
  "waits g t hs x ow \<longleftrightarrow>
     in_range g t (expiration_tick x) \<and> offsets_ok g t x \<and>
     ow = Some (home g t (expiration_tick x)) \<and> home g t (expiration_tick x) \<notin> hs"

definition staged ::
  "geometry \<Rightarrow> nat \<Rightarrow> bool \<Rightarrow> nat set \<Rightarrow> 'a timer_wheel \<Rightarrow> 'a timer_wheel \<Rightarrow> (nat \<Rightarrow> nat list) \<Rightarrow> (nat \<Rightarrow> nat option) \<Rightarrow>
   'a list \<Rightarrow> bool" where
  "staged g t moved hs w0 w L own ps \<longleftrightarrow>
     core g w L own [] \<and> at_tick g (Suc t) w \<and> env w = env w0 \<and> length (entries w) = length (entries w0) \<and>
     (\<forall>n. live_at w n \<longrightarrow> live_at w0 n \<and> te_payload (entries w ! n) = te_payload (entries w0 ! n) \<and>
        expiration_tick (entries w ! n) = expiration_tick (entries w0 ! n)) \<and>
     (\<forall>n. live_at w n \<longrightarrow> waits g t hs (entries w ! n) (own n) \<or> moved \<and> waits g (Suc t) {} (entries w ! n) (own n)) \<and>
     (\<forall>n. live_at w0 n \<and> \<not> live_at w n \<longrightarrow> expiration_tick (entries w0 ! n) = Suc t) \<and>
     (\<forall>n h. FAST_BITMAP g \<and> live_at w n \<and> own n = Some h \<and> h < SLOTS g \<longrightarrow> h \<in> bits (fast_slot_bitmap w)) \<and>
     mset ps = image_mset (\<lambda>n. the (te_payload (entries w0 ! n))) (mset_set {n. live_at w0 n \<and> \<not> live_at w n})"

lemma stagedD:
  assumes "staged g t moved hs w0 w L own ps"
  shows "core g w L own []" "at_tick g (Suc t) w" "env w = env w0" "length (entries w) = length (entries w0)"
    "\<And>n. live_at w n \<Longrightarrow> live_at w0 n" "\<And>n. live_at w n \<Longrightarrow> te_payload (entries w ! n) = te_payload (entries w0 ! n)"
    "\<And>n. live_at w n \<Longrightarrow> expiration_tick (entries w ! n) = expiration_tick (entries w0 ! n)"
    "\<And>n. live_at w n \<Longrightarrow> waits g t hs (entries w ! n) (own n) \<or> moved \<and> waits g (Suc t) {} (entries w ! n) (own n)"
    "\<And>n. live_at w0 n \<Longrightarrow> \<not> live_at w n \<Longrightarrow> expiration_tick (entries w0 ! n) = Suc t"
    "\<And>n h. FAST_BITMAP g \<Longrightarrow> live_at w n \<Longrightarrow> own n = Some h \<Longrightarrow> h < SLOTS g \<Longrightarrow> h \<in> bits (fast_slot_bitmap w)"
    "mset ps = image_mset (\<lambda>n. the (te_payload (entries w0 ! n))) (mset_set {n. live_at w0 n \<and> \<not> live_at w n})"
  using assms unfolding staged_def by blast+

lemma waits_data: "data x = data y \<Longrightarrow> waits g t hs x ow = waits g t hs y ow"
  by (frule dataD(5)) (simp add: waits_def offsets_ok_def data_def)

lemma finite_live [simp]: "finite {n. live_at w n \<and> P n}"
  by (rule finite_subset [of _ "{..<length (entries w)}"]) (auto simp: live_at_def)

lemma stage:
  assumes st: "staged g t moved hs w0 w L own ps" and head: "head < nheads g"
    and dr: "drains g body (at_tick g (Suc t)) Q (tick_dest g (Suc t)) adj"
    and reach: "\<And>x. in_range g t (expiration_tick x) \<Longrightarrow> offsets_ok g t x \<Longrightarrow> home g t (expiration_tick x) = head \<Longrightarrow> Q x"
    and fresh: "\<And>e. moved \<Longrightarrow> in_range g (Suc t) e \<Longrightarrow> home g (Suc t) e \<noteq> head"
    and mv: "\<And>x. Q x \<Longrightarrow> expiration_tick x \<noteq> Suc t \<Longrightarrow> mv"
    and adj: "\<And>x. expiration_tick (adj x) = expiration_tick x"
      "\<And>x. Q x \<Longrightarrow> in_range g t (expiration_tick x) \<Longrightarrow> offsets_ok g t x \<Longrightarrow> offsets_ok g (Suc t) (adj x)"
  shows "\<exists>w' L' own' qs. Option.bind (take_list head w) (\<lambda>(next, w). drain_loop body head next (w, ex)) = Some (w', ex @ qs) \<and>
    staged g t (moved \<or> mv) (insert head hs) w0 w' L' own' (ps @ qs)"
proof -
  let ?u = "Suc t"
  note S = stagedD [OF st]
  have L: "n \<in> set (L head) \<longleftrightarrow> live_at w n \<and> own n = Some head" for n
    using coreD(7) [OF S(1) head] by (auto simp: live_at_def)
  have wait: "waits g t hs (entries w ! n) (own n)" if "n \<in> set (L head)" for n
    using S(8) [of n] that fresh L by (auto simp: waits_def)
  have Q: "Q (entries w ! n)" if "n \<in> set (L head)" for n
    using wait [OF that] L [of n] that by (intro reach) (auto simp: waits_def)
  obtain w' L' own' where d: "Option.bind (take_list head w) (\<lambda>(next, w). drain_loop body head next (w, ex)) =
      Some (w', ex @ due_payloads (tick_dest g ?u) w (L head))"
    "core g w' L' own' []" and D: "drained g (tick_dest g ?u) adj (L head) w own w' own'"
    using drain_head [OF dr S(1) head S(2)] Q by blast
  have D1: "env w' = env w" "length (entries w') = length (entries w)" using D by (simp_all add: drained_def)
  have Do: "data (entries w' ! n) = data (entries w ! n)" "live_at w n \<Longrightarrow> own' n = own n" if "n \<notin> set (L head)" for n
    using D that by (simp_all add: drained_def live_at_def)
  have Dn: "\<not> te_live (entries w' ! n)" if "n \<in> set (L head)" "expiration_tick (entries w ! n) = ?u" for n
    using D that unfolding drained_def tick_dest_def by force
  have Ds: "own' n = Some (home g ?u (expiration_tick (entries w ! n)))" "data (entries w' ! n) = data (adj (entries w ! n))"
    if "n \<in> set (L head)" "expiration_tick (entries w ! n) \<noteq> ?u" for n
    using D that unfolding drained_def tick_dest_def by force+
  have live: "live_at w' n \<longleftrightarrow> live_at w n \<and> \<not> (n \<in> set (L head) \<and> expiration_tick (entries w ! n) = ?u)" for n
    using dataD(2) [OF Do(1), of n] Dn [of n] dataD(2) [OF Ds(2), of n] drainsD(5) [OF dr, of "entries w ! n"] D1(2)
    by (cases "n \<in> set (L head)"; cases "expiration_tick (entries w ! n) = ?u") (auto simp: live_at_def)
  have ex: "expiration_tick (entries w' ! n) = expiration_tick (entries w ! n)"
    "te_payload (entries w' ! n) = te_payload (entries w ! n)" if "live_at w' n" for n
    using that live [of n] dataD(1,5) [OF Do(1), of n] dataD(1,5) [OF Ds(2), of n] adj(1) drainsD(6) [OF dr, of "entries w ! n"]
    by (cases "n \<in> set (L head)"; simp)+
  have "waits g t (insert head hs) (entries w' ! n) (own' n) \<or> (moved \<or> mv) \<and> waits g ?u {} (entries w' ! n) (own' n)"
    if l: "live_at w' n" for n
  proof (cases "n \<in> set (L head)")
    case True
    then have e: "expiration_tick (entries w ! n) \<noteq> ?u" using l live by blast
    note wt = wait [OF True, unfolded waits_def]
    have "in_range g ?u (expiration_tick (entries w ! n))" using wt in_rangeD(1) in_range_Suc e by (metis Suc_lessI)
    then have "waits g ?u {} (adj (entries w ! n)) (own' n)"
      using Ds(1) [OF True e] wt adj(2) [OF Q [OF True]] by (simp add: waits_def adj(1))
    then show ?thesis using waits_data [OF Ds(2) [OF True e]] mv [OF Q [OF True] e] by blast
  next
    case False
    then have "live_at w n" "own n \<noteq> Some head" using l live L by blast+
    then show ?thesis using S(8) [of n] Do [OF False] waits_data [OF Do(1) [OF False]] by (auto simp: waits_def)
  qed
  moreover have w'0: "live_at w0 n \<and> te_payload (entries w' ! n) = te_payload (entries w0 ! n) \<and>
      expiration_tick (entries w' ! n) = expiration_tick (entries w0 ! n)" if "live_at w' n" for n
    using live [of n] ex [OF that] S(5-7) [of n] that by simp
  moreover have "expiration_tick (entries w0 ! n) = ?u" if "live_at w0 n" "\<not> live_at w' n" for n
    using that live [of n] S(7) [of n] S(9) [of n] by (cases "live_at w n") auto
  moreover have "h \<in> bits (fast_slot_bitmap w')"
    if "FAST_BITMAP g" "live_at w' n" "own' n = Some h" "h < SLOTS g" for n h
  proof (cases "n \<in> set (L head)")
    case True
    then have "tick_dest g ?u (entries w ! n) = Some h" using that live Ds(1) [of n] by (auto simp: tick_dest_def)
    then show ?thesis using D True that by (auto simp: drained_def)
  next
    case False
    then show ?thesis using S(10) [of n h] that live Do(2) [OF False] D by (auto simp: drained_def)
  qed
  moreover have "mset (ps @ due_payloads (tick_dest g ?u) w (L head)) =
      image_mset (\<lambda>n. the (te_payload (entries w0 ! n))) (mset_set {n. live_at w0 n \<and> \<not> live_at w' n})"
  proof -
    let ?E = "{n \<in> set (L head). expiration_tick (entries w ! n) = ?u}"
    have p: "the (te_payload (entries w ! n)) = the (te_payload (entries w0 ! n))" if "n \<in> set (L head)" for n
      using S(6) [of n] L that by simp
    have "distinct (filter (\<lambda>n. expiration_tick (entries w ! n) = ?u) (L head))" using coreD(6) [OF S(1) head] by simp
    then have m: "mset (filter (\<lambda>n. expiration_tick (entries w ! n) = ?u) (L head)) = mset_set ?E"
      using mset_set_set by fastforce
    have "due_payloads (tick_dest g ?u) w (L head) =
        map (\<lambda>n. the (te_payload (entries w0 ! n))) (filter (\<lambda>n. expiration_tick (entries w ! n) = ?u) (L head))"
      using p by (auto simp: due_payloads_def tick_dest_def intro!: map_cong filter_cong)
    then have "mset (due_payloads (tick_dest g ?u) w (L head)) = image_mset (\<lambda>n. the (te_payload (entries w0 ! n))) (mset_set ?E)"
      by (simp only: mset_map m)
    moreover have "{n. live_at w0 n \<and> \<not> live_at w' n} = {n. live_at w0 n \<and> \<not> live_at w n} \<union> ?E"
      using live S(5) L by blast
    moreover have "{n. live_at w0 n \<and> \<not> live_at w n} \<inter> ?E = {}" using L by blast
    ultimately show ?thesis using S(11) by (simp add: mset_set_Union)
  qed
  ultimately have "staged g t (moved \<or> mv) (insert head hs) w0 w' L' own' (ps @ due_payloads (tick_dest g ?u) w (L head))"
    unfolding staged_def using d(2) at_tick_env [OF D1(1), of g ?u] S(2-4) D1 w'0
    by (intro conjI) (blast | simp only:)+
  then show ?thesis using d(1) by blast
qed

lemma at_tickD:
  assumes "at_tick g u w"
  shows "current_index w ! 0 = u mod SLOTS g" "WHEELS g > 1 \<Longrightarrow> current_index w ! 1 = u div SLOTS g mod SLOTS g"
    "WHEELS g > 2 \<Longrightarrow> current_index w ! 2 = u div SLOTS g ^ 2 mod SLOTS g"
  using assms index_okD [of g w] by (simp_all add: at_tick_def)

lemma home_lt: "geometry_ok g \<Longrightarrow> x mod SLOTS g < SLOTS g"
  using geometry_okD(3) by simp

lemma stage_overflow:
  assumes g: "geometry_ok g" and W: "WHEELS g = 3" "OVERFLOW g" and st: "staged g t False hs w0 w L own ps"
  shows "\<exists>w' L' own' qs. process_overflow g (w, ex) = Some (w', ex @ qs) \<and>
    staged g t True (insert (3 * SLOTS g) hs) w0 w' L' own' (ps @ qs)"
proof -
  have h: "overflow_head w = 3 * SLOTS g" "3 * SLOTS g < nheads g"
    using coreD(2) [OF stagedD(1) [OF st]] W by (simp_all add: nheads_def)
  have "\<exists>w' L' own' qs. Option.bind (take_list (3 * SLOTS g) w)
      (\<lambda>(next, w). drain_loop (process_overflow_body g) (3 * SLOTS g) next (w, ex)) = Some (w', ex @ qs) \<and>
    staged g t True (insert (3 * SLOTS g) hs) w0 w' L' own' (ps @ qs)"
  proof (rule stage [OF st h(2) drains_overflow [OF g W], where mv = True, simplified simp_thms], goal_cases)
    case (1 x)
    show ?case using in_rangeD(1) [OF 1(1)] by simp
  next
    case (5 x)
    show ?case by (rule offsets_ok_placed)
  qed simp_all
  then show ?thesis by (simp add: process_overflow_def h(1) Let_def)
qed

lemma stage_glacier:
  assumes g: "geometry_ok g" and W: "WHEELS g = 3" and st: "staged g t moved hs w0 w L own ps"
    and w: "Suc t mod SLOTS g = 0" "Suc t div SLOTS g mod SLOTS g = 0"
  shows "\<exists>w' L' own' qs. cascade_glacier g (w, ex) = Some (w', ex @ qs) \<and>
    staged g t True (insert (2 * SLOTS g + Suc t div SLOTS g ^ 2 mod SLOTS g) hs) w0 w' L' own' (ps @ qs)"
proof -
  let ?s = "SLOTS g"
  let ?h = "2 * ?s + Suc t div ?s ^ 2 mod ?s"
  have i: "current_index w ! 2 = Suc t div ?s ^ 2 mod ?s" using at_tickD(3) [OF stagedD(2) [OF st]] W by simp
  have h: "slot_head g w 2 (Suc t div ?s ^ 2 mod ?s) = Some ?h" "?h < nheads g"
    using slot_head_eq [OF stagedD(1) [OF st] _ home_lt [OF g], of 2] W by simp_all
  have ready: "glacier_ready g (Suc t) x"
    if "in_range g t (expiration_tick x)" "offsets_ok g t x" "home g t (expiration_tick x) = ?h" for x :: "'a timer_entry"
    using glacier_reached(1) [OF g that(1) W that(3) w(2,1)] that(2,3) home_lt [OF g, of "Suc t div ?s ^ 2"] W
    by (simp add: glacier_ready_def offsets_ok_def Let_def)
  have "\<exists>w' L' own' qs. Option.bind (take_list ?h w) (\<lambda>(next, w). drain_loop (cascade_glacier_body g) ?h next (w, ex)) =
      Some (w', ex @ qs) \<and> staged g t True (insert ?h hs) w0 w' L' own' (ps @ qs)"
  proof (rule stage [OF st h(2) drains_glacier [OF g], where mv = True, simplified simp_thms], goal_cases)
    case (2 x)
    then show ?case by (rule ready)
  next
    case (3 e)
    show ?case using home_not_current(1) [OF g 3(2) W] .
  next
    case (6 x)
    show ?case using 6(1) by (simp add: glacier_ready_def offsets_ok_def Let_def)
  qed (simp_all add: W)
  then show ?thesis by (simp add: cascade_glacier_def i h(1))
qed

lemma stage_slow:
  assumes g: "geometry_ok g" and W: "WHEELS g > 1" and st: "staged g t moved hs w0 w L own ps"
    and w: "Suc t mod SLOTS g = 0"
  shows "\<exists>w' L' own' qs. cascade_slow g (w, ex) = Some (w', ex @ qs) \<and>
    staged g t True (insert (SLOTS g + Suc t div SLOTS g mod SLOTS g) hs) w0 w' L' own' (ps @ qs)"
proof -
  let ?s = "SLOTS g"
  let ?h = "?s + Suc t div ?s mod ?s"
  have i: "current_index w ! 1 = Suc t div ?s mod ?s" using at_tickD(2) [OF stagedD(2) [OF st]] W by simp
  have h: "slot_head g w 1 (Suc t div ?s mod ?s) = Some ?h" "?h < nheads g" "?h < WHEELS g * ?s"
    using slot_head_eq [OF stagedD(1) [OF st] _ home_lt [OF g], of 1] W by simp_all
  have ready: "slow_ready g (Suc t) x"
    if "in_range g t (expiration_tick x)" "offsets_ok g t x" "home g t (expiration_tick x) = ?h" for x :: "'a timer_entry"
    using slow_reached [OF g that(1) W that(3) w] that(2,3) h(3) W
    by (simp add: slow_ready_def offsets_ok_def Let_def)
  have off: "offsets_ok g (Suc t) x" if "slow_ready g (Suc t) x" for x :: "'a timer_entry"
  proof -
    have "home g (Suc t) (expiration_tick x) = expiration_tick x mod ?s"
      using that by (simp add: home_def slow_ready_def Let_def pow_div)
    then show ?thesis using home_lt [OF g, of "expiration_tick x"] by (simp add: offsets_ok_def Let_def)
  qed
  have "\<exists>w' L' own' qs. Option.bind (take_list ?h w) (\<lambda>(next, w). drain_loop (cascade_slow_body g) ?h next (w, ex)) =
      Some (w', ex @ qs) \<and> staged g t True (insert ?h hs) w0 w' L' own' (ps @ qs)"
  proof (rule stage [OF st h(2) drains_slow [OF g W], where mv = True, simplified simp_thms], goal_cases)
    case (1 x)
    then show ?case by (rule ready)
  next
    case (2 e)
    show ?case using home_not_current(2) [OF g 2(2) W] .
  next
    case (5 x)
    show ?case using 5(1) by (rule off)
  qed simp_all
  then show ?thesis using i h(1) by (simp add: cascade_slow_def)
qed

lemma stage_fast:
  assumes g: "geometry_ok g" and st: "staged g t moved hs w0 w L own ps" and mv: "moved \<Longrightarrow> WHEELS g > 1"
  shows "\<exists>w' L' own' qs. Option.bind (slot_head g w 0 (current_index w ! 0))
      (\<lambda>head. Option.bind (take_list head w) (\<lambda>(next, w). drain_loop expire_timer head next (w, ex))) = Some (w', ex @ qs) \<and>
    staged g t moved (insert (Suc t mod SLOTS g) hs) w0 w' L' own' (ps @ qs)"
proof -
  let ?h = "Suc t mod SLOTS g"
  have i: "current_index w ! 0 = ?h" using at_tickD(1) [OF stagedD(2) [OF st]] .
  have h: "slot_head g w 0 ?h = Some ?h" "?h < nheads g"
    using slot_head_eq [OF stagedD(1) [OF st] _ home_lt [OF g], of 0] geometry_okD(1) [OF g] by simp_all
  have off: "offsets_ok g (Suc t) x" if "expiration_tick x = Suc t" for x :: "'a timer_entry"
    using that home_lt [OF g, of "Suc t"] by (simp add: offsets_ok_def home_def Let_def)
  have "\<exists>w' L' own' qs. Option.bind (take_list ?h w) (\<lambda>(next, w). drain_loop expire_timer ?h next (w, ex)) =
      Some (w', ex @ qs) \<and> staged g t moved (insert ?h hs) w0 w' L' own' (ps @ qs)"
  proof (rule stage [OF st h(2) drains_fast, where mv = False, simplified simp_thms], goal_cases)
    case (1 x)
    show ?case using 1(1,3) by (rule fast_reached [OF g])
  next
    case (2 e)
    show ?case using home_not_current(3) [OF g 2(2) mv [OF 2(1)]] .
  next
    case (5 x)
    show ?case using 5(1) by (rule off)
  qed simp_all
  then show ?thesis unfolding i h(1) by simp
qed

subsection \<open>One tick: the whole step\<close>

definition ticked :: "geometry \<Rightarrow> 'a timer_wheel \<Rightarrow> 'a timer_wheel" where
  "ticked g w =
     (let s = SLOTS g; u = Suc (current_tick w) in
      w\<lparr>current_tick := u,
        current_index := [u mod s, if WHEELS g > 1 then u div s mod s else 0, if WHEELS g > 2 then u div s ^ 2 mod s else 0]\<rparr>)"

lemma at_tick_ticked: "at_tick g (Suc (current_tick w)) (ticked g w)"
  by (simp add: at_tick_def ticked_def index_ok_def Let_def)

lemma advance_rings:
  assumes g: "geometry_ok g" and i: "index_ok g w"
  defines "s \<equiv> SLOTS g" and "u \<equiv> Suc (current_tick w)"
  defines "fw \<equiv> u mod s = 0"
  defines "sw \<equiv> fw \<and> WHEELS g > 1 \<and> u div s mod s = 0"
  defines "gw \<equiv> sw \<and> WHEELS g > 2 \<and> u div s ^ 2 mod s = 0"
  shows "advance_one_tick g (w, ex) =
    (if u > u64_max then None
     else do { st \<leftarrow> (if gw \<and> OVERFLOW g then process_overflow g (ticked g w, ex) else Some (ticked g w, ex));
               st \<leftarrow> (if sw \<and> WHEELS g > 2 then cascade_glacier g st else Some st);
               st \<leftarrow> (if fw \<and> WHEELS g > 1 then cascade_slow g st else Some st);
               expire_fast_slot g st })"
proof -
  let ?t = "current_tick w"
  have s: "s > 0" using geometry_okD(3) [OF g] by (simp add: s_def)
  have sm: "Suc (x mod s) = s \<longleftrightarrow> Suc x mod s = 0" "Suc (x mod s) \<noteq> s \<Longrightarrow> Suc (x mod s) = Suc x mod s" for x
    using s by (simp_all add: mod_Suc)
  have d1: "u div s = (if fw then Suc (?t div s) else ?t div s)" by (simp add: u_def fw_def div_Suc)
  have d2: "u div s ^ 2 = (if fw \<and> u div s mod s = 0 then Suc (?t div s ^ 2) else ?t div s ^ 2)"
    using Suc_div_pow [OF s, of ?t 1] by (auto simp: u_def fw_def numeral_2_eq_2)
  have ci: "current_index w = [?t mod s, if WHEELS g > 1 then ?t div s mod s else 0, if WHEELS g > 2 then ?t div s ^ 2 mod s else 0]"
    using i by (simp add: index_ok_def s_def)
  define c1 where "c1 = (if WHEELS g > 1 then ?t div s mod s else 0)"
  define c2 where "c2 = (if WHEELS g > 2 then ?t div s ^ 2 mod s else 0)"
  have a0: "advance_ring g 0 (w\<lparr>current_tick := u\<rparr>) = (fw, w\<lparr>current_tick := u, current_index := [u mod s, c1, c2]\<rparr>)"
    using sm [of ?t] by (auto simp: advance_ring_def ci Let_def s_def [symmetric] fw_def u_def c1_def c2_def)
  have a1: "advance_ring g 1 (w\<lparr>current_tick := u, current_index := [u mod s, c1, c2]\<rparr>) =
      (sw, w\<lparr>current_tick := u, current_index := [u mod s, u div s mod s, c2]\<rparr>)" if "fw" "WHEELS g > 1"
    using that sm [of "?t div s"] d1 by (auto simp: advance_ring_def Let_def s_def [symmetric] sw_def c1_def)
  have a2: "advance_ring g 2 (w\<lparr>current_tick := u, current_index := [u mod s, u div s mod s, c2]\<rparr>) =
      (gw, w\<lparr>current_tick := u, current_index := [u mod s, u div s mod s, u div s ^ 2 mod s]\<rparr>)" if "sw" "WHEELS g > 2"
    using that sm [of "?t div s ^ 2"] d2 by (auto simp: advance_ring_def Let_def s_def [symmetric] sw_def gw_def c2_def)
  have t: "ticked g w = w\<lparr>current_tick := u, current_index := [u mod s,
      if fw \<and> WHEELS g > 1 then u div s mod s else c1,
      if sw \<and> WHEELS g > 2 then u div s ^ 2 mod s else c2]\<rparr>"
    using d1 d2 by (auto simp: ticked_def Let_def s_def [symmetric] u_def [symmetric] c1_def c2_def sw_def)
  consider "\<not> (fw \<and> WHEELS g > 1)" | "fw" "WHEELS g > 1" "\<not> (sw \<and> WHEELS g > 2)" | "sw" "WHEELS g > 2" "fw" "WHEELS g > 1"
    by (auto simp: sw_def)
  then show ?thesis
  proof cases
    case 1
    then have "sw = False" "gw = False" by (auto simp: sw_def gw_def)
    then show ?thesis using 1 a0 t by (auto simp: advance_one_tick_def u_def [symmetric] Let_def)
  next
    case 2
    then have "gw = False" by (auto simp: gw_def)
    then show ?thesis using 2 a0 a1 t by (auto simp: advance_one_tick_def u_def [symmetric] Let_def)
  next
    case 3
    then show ?thesis using a0 a1 a2 t by (auto simp: advance_one_tick_def u_def [symmetric] Let_def)
  qed
qed

lemma staged_init:
  assumes inv: "wheel_inv g w"
  shows "\<exists>L. staged g (current_tick w) False {} (ticked g w) (ticked g w) L (timer_home g w) []"
proof -
  obtain L where c: "core g w L (timer_home g w) []"
    "\<And>n. live_at w n \<Longrightarrow> timer_ok g (current_tick w) (fast_slot_bitmap w) (entries w ! n)"
    using inv unfolding wheel_inv_def by blast
  have "core g (ticked g w) L (timer_home g w) []"
    using c(1) unfolding ticked_def Let_def core_env .
  moreover have f: "entries (ticked g w) = entries w" "fast_slot_bitmap (ticked g w) = fast_slot_bitmap w"
    "live_at (ticked g w) = live_at w"
    by (simp_all add: ticked_def Let_def live_at_def fun_eq_iff)
  ultimately show ?thesis
    using c(2) at_tick_ticked [of g w]
    by (intro exI [of _ L]) (auto simp: staged_def waits_def timer_ok_def timer_home_def)
qed

text \<open>When all lists the tick reaches are drained, every remaining timer is where it belongs.\<close>

lemma staged_final:
  assumes g: "geometry_ok g" and st: "staged g t moved hs w0 w L own ps"
    and ov: "WHEELS g = 3 \<Longrightarrow> OVERFLOW g \<Longrightarrow> Suc t mod SLOTS g = 0 \<Longrightarrow> Suc t div SLOTS g mod SLOTS g = 0 \<Longrightarrow>
      Suc t div SLOTS g ^ 2 mod SLOTS g = 0 \<Longrightarrow> 3 * SLOTS g \<in> hs"
    and gl: "WHEELS g = 3 \<Longrightarrow> Suc t mod SLOTS g = 0 \<Longrightarrow> Suc t div SLOTS g mod SLOTS g = 0 \<Longrightarrow>
      2 * SLOTS g + Suc t div SLOTS g ^ 2 mod SLOTS g \<in> hs"
    and sl: "WHEELS g > 1 \<Longrightarrow> Suc t mod SLOTS g = 0 \<Longrightarrow> SLOTS g + Suc t div SLOTS g mod SLOTS g \<in> hs"
    and fa: "Suc t mod SLOTS g \<in> hs"
    and n: "live_at w n"
  shows "own n = timer_home g w n \<and> timer_ok g (Suc t) (fast_slot_bitmap w) (entries w ! n)"
proof -
  note S = stagedD [OF st]
  let ?e = "expiration_tick (entries w ! n)"
  have t: "current_tick w = Suc t" using S(2) by (simp add: at_tick_def)
  have wt: "waits g (Suc t) {} (entries w ! n) (own n)"
    using S(8) [OF n]
  proof
    assume a: "waits g t hs (entries w ! n) (own n)"
    then have r: "in_range g t ?e" and h: "home g t ?e \<notin> hs" by (simp_all add: waits_def)
    have stay: "home g (Suc t) ?e = home g t ?e" "Suc t < ?e"
      by (rule home_stays [OF g r]; use h ov gl sl fa in metis)+
    then show ?thesis using a in_range_Suc [OF r stay(2)] by (simp add: waits_def offsets_ok_def)
  qed simp
  then show ?thesis
    using S(10) [of n "home g (Suc t) ?e"] n t by (auto simp: waits_def timer_home_def timer_ok_def)
qed

lemma tick_stages:
  assumes inv: "wheel_inv g w" and t: "t = current_tick w" and u: "Suc t \<le> u64_max"
  shows "\<exists>w' L own qs m hs. advance_one_tick g (w, ex) =
      Some (if FAST_BITMAP g then w'\<lparr>fast_slot_bitmap := snd (bitmap_clear (fast_slot_bitmap w') (Suc t mod SLOTS g))\<rparr> else w', ex @ qs) \<and>
    staged g t m hs (ticked g w) w' L own qs \<and> (m \<longrightarrow> WHEELS g > 1) \<and>
    (WHEELS g = 3 \<and> OVERFLOW g \<and> Suc t mod SLOTS g = 0 \<and> Suc t div SLOTS g mod SLOTS g = 0 \<and>
      Suc t div SLOTS g ^ 2 mod SLOTS g = 0 \<longrightarrow> 3 * SLOTS g \<in> hs) \<and>
    (WHEELS g = 3 \<and> Suc t mod SLOTS g = 0 \<and> Suc t div SLOTS g mod SLOTS g = 0 \<longrightarrow>
      2 * SLOTS g + Suc t div SLOTS g ^ 2 mod SLOTS g \<in> hs) \<and>
    (WHEELS g > 1 \<and> Suc t mod SLOTS g = 0 \<longrightarrow> SLOTS g + Suc t div SLOTS g mod SLOTS g \<in> hs) \<and>
    Suc t mod SLOTS g \<in> hs"
proof -
  let ?s = "SLOTS g" and ?w = "ticked g w"
  define fw where "fw \<longleftrightarrow> Suc t mod ?s = 0"
  define sw where "sw \<longleftrightarrow> fw \<and> WHEELS g > 1 \<and> Suc t div ?s mod ?s = 0"
  define gw where "gw \<longleftrightarrow> sw \<and> WHEELS g > 2 \<and> Suc t div ?s ^ 2 mod ?s = 0"
  have g: "geometry_ok g" and i: "index_ok g w" using inv by (simp_all add: wheel_inv_def)
  have W: "WHEELS g > 2 \<longleftrightarrow> WHEELS g = 3" using geometry_okD(2) [OF g] by auto
  obtain L0 where s0: "staged g t False {} ?w ?w L0 (timer_home g w) []" using staged_init [OF inv] t by blast
  obtain w1 L1 o1 q1 m1 h1 where s1: "(if gw \<and> OVERFLOW g then process_overflow g (?w, ex) else Some (?w, ex)) = Some (w1, ex @ q1)"
    "staged g t m1 h1 ?w w1 L1 o1 q1" "m1 \<longrightarrow> WHEELS g > 1" "gw \<and> OVERFLOW g \<longrightarrow> 3 * ?s \<in> h1"
  proof (cases "gw \<and> OVERFLOW g")
    case True
    then have W3: "WHEELS g = 3" "OVERFLOW g" using W by (simp_all add: gw_def)
    obtain w1 L1 o1 q1 where *: "process_overflow g (?w, ex) = Some (w1, ex @ q1)"
      "staged g t True (insert (3 * ?s) {}) ?w w1 L1 o1 ([] @ q1)"
      using stage_overflow [OF g W3 s0, of ex] by blast
    show thesis by (rule that [of w1 q1 True "insert (3 * ?s) {}" L1 o1]) (use * True W3 in simp_all)
  next
    case False
    show thesis by (rule that [of ?w "[]" False "{}" L0 "timer_home g w"]) (use False s0 in auto)
  qed
  obtain w2 L2 o2 q2 m2 h2 where s2: "(if sw \<and> WHEELS g > 2 then cascade_glacier g (w1, ex @ q1) else Some (w1, ex @ q1)) =
      Some (w2, ex @ q2)" "staged g t m2 h2 ?w w2 L2 o2 q2" "m2 \<longrightarrow> WHEELS g > 1" "h1 \<subseteq> h2"
    "sw \<and> WHEELS g > 2 \<longrightarrow> 2 * ?s + Suc t div ?s ^ 2 mod ?s \<in> h2"
  proof (cases "sw \<and> WHEELS g > 2")
    case True
    then have *: "WHEELS g = 3" "Suc t mod ?s = 0" "Suc t div ?s mod ?s = 0" using W by (simp_all add: sw_def fw_def)
    obtain w2 L2 o2 q2 where **: "cascade_glacier g (w1, ex @ q1) = Some (w2, (ex @ q1) @ q2)"
      "staged g t True (insert (2 * ?s + Suc t div ?s ^ 2 mod ?s) h1) ?w w2 L2 o2 (q1 @ q2)"
      using stage_glacier [OF g *(1) s1(2) *(2,3), of "ex @ q1"] by blast
    show thesis
      by (rule that [of w2 "q1 @ q2" True "insert (2 * ?s + Suc t div ?s ^ 2 mod ?s) h1" L2 o2]) (use ** True in auto)
  next
    case False
    show thesis by (rule that [of w1 q1 m1 h1 L1 o1]) (use False s1(2,3) in auto)
  qed
  obtain w3 L3 o3 q3 m3 h3 where s3: "(if fw \<and> WHEELS g > 1 then cascade_slow g (w2, ex @ q2) else Some (w2, ex @ q2)) =
      Some (w3, ex @ q3)" "staged g t m3 h3 ?w w3 L3 o3 q3" "m3 \<longrightarrow> WHEELS g > 1" "h2 \<subseteq> h3"
    "fw \<and> WHEELS g > 1 \<longrightarrow> ?s + Suc t div ?s mod ?s \<in> h3"
  proof (cases "fw \<and> WHEELS g > 1")
    case True
    then have *: "WHEELS g > 1" "Suc t mod ?s = 0" by (simp_all add: fw_def)
    obtain w3 L3 o3 q3 where **: "cascade_slow g (w2, ex @ q2) = Some (w3, (ex @ q2) @ q3)"
      "staged g t True (insert (?s + Suc t div ?s mod ?s) h2) ?w w3 L3 o3 (q2 @ q3)"
      using stage_slow [OF g *(1) s2(2) *(2), of "ex @ q2"] by blast
    show thesis
      by (rule that [of w3 "q2 @ q3" True "insert (?s + Suc t div ?s mod ?s) h2" L3 o3]) (use ** True in auto)
  next
    case False
    show thesis by (rule that [of w2 q2 m2 h2 L2 o2]) (use False s2(2,3) in auto)
  qed
  obtain w4 L4 o4 q4 where s4: "Option.bind (slot_head g w3 0 (current_index w3 ! 0))
      (\<lambda>head. Option.bind (take_list head w3) (\<lambda>(next, w). drain_loop expire_timer head next (w, ex @ q3))) =
      Some (w4, (ex @ q3) @ q4)" "staged g t m3 (insert (Suc t mod ?s) h3) ?w w4 L4 o4 (q3 @ q4)"
    using stage_fast [OF g s3(2), of "ex @ q3"] s3(3) by blast
  have idx: "current_index w3 ! 0 = Suc t mod ?s" using at_tickD(1) [OF stagedD(2) [OF s3(2)]] .
  have e: "expire_fast_slot g (w3, ex @ q3) =
      Some (if FAST_BITMAP g then w4\<lparr>fast_slot_bitmap := snd (bitmap_clear (fast_slot_bitmap w4) (Suc t mod ?s))\<rparr> else w4, ex @ q3 @ q4)"
    using s4(1) unfolding expire_fast_slot_def Let_def idx [symmetric]
    by (auto simp: bind_eq_Some_conv split: prod.splits)
  have flags: "(gw \<longleftrightarrow> Suc t mod ?s = 0 \<and> Suc t div ?s mod ?s = 0 \<and> WHEELS g = 3 \<and> Suc t div ?s ^ 2 mod ?s = 0)"
    "(sw \<longleftrightarrow> Suc t mod ?s = 0 \<and> WHEELS g > 1 \<and> Suc t div ?s mod ?s = 0)"
    unfolding gw_def sw_def fw_def using W by auto
  have hs: "WHEELS g = 3 \<and> OVERFLOW g \<and> Suc t mod ?s = 0 \<and> Suc t div ?s mod ?s = 0 \<and> Suc t div ?s ^ 2 mod ?s = 0 \<longrightarrow>
      3 * ?s \<in> insert (Suc t mod ?s) h3"
    "WHEELS g = 3 \<and> Suc t mod ?s = 0 \<and> Suc t div ?s mod ?s = 0 \<longrightarrow>
      2 * ?s + Suc t div ?s ^ 2 mod ?s \<in> insert (Suc t mod ?s) h3"
    "WHEELS g > 1 \<and> Suc t mod ?s = 0 \<longrightarrow> ?s + Suc t div ?s mod ?s \<in> insert (Suc t mod ?s) h3"
    "Suc t mod ?s \<in> insert (Suc t mod ?s) h3"
  proof -
    have "WHEELS g = 3 \<longrightarrow> WHEELS g > 2 \<and> WHEELS g > 1" by simp
    then show "WHEELS g = 3 \<and> Suc t mod ?s = 0 \<and> Suc t div ?s mod ?s = 0 \<longrightarrow>
        2 * ?s + Suc t div ?s ^ 2 mod ?s \<in> insert (Suc t mod ?s) h3"
      using s2(5) s3(4) unfolding flags(2) by auto
    show "WHEELS g = 3 \<and> OVERFLOW g \<and> Suc t mod ?s = 0 \<and> Suc t div ?s mod ?s = 0 \<and> Suc t div ?s ^ 2 mod ?s = 0 \<longrightarrow>
        3 * ?s \<in> insert (Suc t mod ?s) h3"
      using s1(4) s2(4) s3(4) unfolding flags(1) by auto
    show "WHEELS g > 1 \<and> Suc t mod ?s = 0 \<longrightarrow> ?s + Suc t div ?s mod ?s \<in> insert (Suc t mod ?s) h3"
      using s3(5) unfolding fw_def by auto
  qed simp
  have "advance_one_tick g (w, ex) =
      Some (if FAST_BITMAP g then w4\<lparr>fast_slot_bitmap := snd (bitmap_clear (fast_slot_bitmap w4) (Suc t mod ?s))\<rparr> else w4, ex @ q3 @ q4)"
    using advance_rings [OF g i, of ex, folded t, folded fw_def, folded sw_def, folded gw_def] u s1(1) s2(1) s3(1) e by simp
  with s4(2) s3(3) hs show ?thesis by blast
qed

text \<open>The timers due at a tick, and those left after it.\<close>

definition due :: "'a timer_wheel \<Rightarrow> nat \<Rightarrow> 'a multiset" where
  "due w u = image_mset (\<lambda>n. fst (the (timers w n))) (mset_set {n. \<exists>p. timers w n = Some (p, u)})"

definition later_than :: "nat \<Rightarrow> (nat \<rightharpoonup> 'a \<times> nat) \<Rightarrow> nat \<rightharpoonup> 'a \<times> nat" where
  "later_than u ts n = (case ts n of None \<Rightarrow> None | Some (p, e) \<Rightarrow> if u < e then Some (p, e) else None)"

lemma mem_mset_set: "x \<in># mset_set A \<Longrightarrow> x \<in> A"
  by (cases "finite A") auto

lemma timers_range:
  "wheel_inv g w \<Longrightarrow> timers w n = Some (p, e) \<Longrightarrow> current_tick w < e"
  using in_rangeD(1) by (fastforce simp: wheel_inv_def timers_def timer_ok_def split: if_splits)

lemma advance_one_tick_spec:
  assumes inv: "wheel_inv g w" and u: "Suc (current_tick w) \<le> u64_max"
  shows "\<exists>w' qs. advance_one_tick g (w, ex) = Some (w', ex @ qs) \<and> wheel_inv g w' \<and> env w' = env (ticked g w) \<and>
    timers w' = later_than (Suc (current_tick w)) (timers w) \<and> mset qs = due w (Suc (current_tick w))"
proof -
  let ?t = "current_tick w" and ?s = "SLOTS g"
  have g: "geometry_ok g" using inv by (simp add: wheel_inv_def)
  obtain w' L own qs m hs where a: "advance_one_tick g (w, ex) =
      Some (if FAST_BITMAP g then w'\<lparr>fast_slot_bitmap := snd (bitmap_clear (fast_slot_bitmap w') (Suc ?t mod ?s))\<rparr> else w', ex @ qs)"
    and st: "staged g ?t m hs (ticked g w) w' L own qs" and m: "m \<longrightarrow> WHEELS g > 1"
    and hs: "WHEELS g = 3 \<and> OVERFLOW g \<and> Suc ?t mod ?s = 0 \<and> Suc ?t div ?s mod ?s = 0 \<and>
        Suc ?t div ?s ^ 2 mod ?s = 0 \<longrightarrow> 3 * ?s \<in> hs"
      "WHEELS g = 3 \<and> Suc ?t mod ?s = 0 \<and> Suc ?t div ?s mod ?s = 0 \<longrightarrow> 2 * ?s + Suc ?t div ?s ^ 2 mod ?s \<in> hs"
      "WHEELS g > 1 \<and> Suc ?t mod ?s = 0 \<longrightarrow> ?s + Suc ?t div ?s mod ?s \<in> hs" "Suc ?t mod ?s \<in> hs"
    using tick_stages [OF inv refl u, of ex] by blast
  note S = stagedD [OF st]
  define w2 where "w2 = (if FAST_BITMAP g
    then w'\<lparr>fast_slot_bitmap := snd (bitmap_clear (fast_slot_bitmap w') (Suc ?t mod ?s))\<rparr> else w')"
  have w2: "entries w2 = entries w'" "env w2 = env w'" "\<And>L own R. core g w2 L own R = core g w' L own R"
    "live_at w2 = live_at w'" "current_tick w2 = current_tick w'"
    by (simp_all add: w2_def core_env live_at_def fun_eq_iff)
  have t': "current_tick w' = Suc ?t" "index_ok g w'" using S(2) by (simp_all add: at_tick_def)
  have fin: "own n = timer_home g w' n \<and> timer_ok g (Suc ?t) (fast_slot_bitmap w') (entries w' ! n)" if "live_at w' n" for n
    by (rule staged_final [OF g st]) (use hs that in simp_all)
  have nc: "home g (Suc ?t) (expiration_tick (entries w' ! n)) \<noteq> Suc ?t mod ?s" if l: "live_at w' n" for n
    using S(8) [OF l]
  proof
    assume "waits g ?t hs (entries w' ! n) (own n)"
    then show ?thesis using fin [OF l] hs(4) t'(1) by (auto simp: waits_def timer_home_def)
  next
    assume "m \<and> waits g (Suc ?t) {} (entries w' ! n) (own n)"
    then show ?thesis using home_not_current(3) [OF g] m by (auto simp: waits_def)
  qed
  have ok: "timer_ok g (Suc ?t) (fast_slot_bitmap w2) (entries w2 ! n)" if "live_at w2 n" for n
    using fin [of n] nc [of n] that by (auto simp: timer_ok_def w2_def live_at_def)
  have "core g w2 L (timer_home g w2) []"
    unfolding w2(3)
    by (rule core_own_cong [OF S(1)]) (use fin in \<open>simp add: timer_home_def w2\<close>)
  then have i2: "wheel_inv g w2"
    using g ok t' w2 envD(8) [OF w2(2), of g] unfolding wheel_inv_def by (metis w2(5))
  have f: "entries (ticked g w) = entries w" "live_at (ticked g w) = live_at w"
    by (simp_all add: ticked_def Let_def live_at_def fun_eq_iff)
  have alive: "live_at w2 n \<longleftrightarrow> live_at w n \<and> Suc ?t < expiration_tick (entries w ! n)" for n
  proof
    assume "live_at w2 n"
    then show "live_at w n \<and> Suc ?t < expiration_tick (entries w ! n)"
      using S(5,7) [of n] fin [of n] in_rangeD(1) [of g "Suc ?t"] by (simp add: w2(4) f timer_ok_def)
  next
    assume "live_at w n \<and> Suc ?t < expiration_tick (entries w ! n)"
    then show "live_at w2 n" using S(9) [of n] by (auto simp: w2(4) f)
  qed
  have same: "te_payload (entries w2 ! n) = te_payload (entries w ! n)"
    "expiration_tick (entries w2 ! n) = expiration_tick (entries w ! n)" if "live_at w2 n" for n
    using S(6,7) [of n] that by (simp_all add: w2 f)
  have tm: "timers w2 = later_than (Suc ?t) (timers w)"
    by (rule ext) (use alive same in \<open>auto simp: timers_def later_than_def\<close>)
  have d: "{n. live_at (ticked g w) n \<and> \<not> live_at w' n} = {n. \<exists>p. timers w n = Some (p, Suc ?t)}"
  proof (intro Collect_cong)
    fix n
    have "live_at w n \<Longrightarrow> Suc ?t \<le> expiration_tick (entries w ! n)"
      using timers_range [OF inv, of n] by (simp add: timers_def Suc_le_eq)
    then show "(live_at (ticked g w) n \<and> \<not> live_at w' n) = (\<exists>p. timers w n = Some (p, Suc ?t))"
      using alive [of n] by (auto simp: f w2(4) timers_def)
  qed
  have "mset qs = due w (Suc ?t)"
    unfolding S(11) f d [unfolded f] due_def
    by (intro image_mset_cong) (auto dest!: mem_mset_set simp: timers_def split: if_splits)
  then show ?thesis using a i2 tm w2(2) S(3) unfolding w2_def [symmetric]
    by (intro exI [of _ w2] exI [of _ qs]) (simp only: simp_thms)
qed

subsection \<open>Runs of ticks\<close>

lemma later_than_0: "wheel_inv g w \<Longrightarrow> later_than (current_tick w) (timers w) = timers w"
  using timers_range [of g w] by (fastforce simp: later_than_def fun_eq_iff split: option.splits)

lemma later_than_later: "u \<le> v \<Longrightarrow> later_than v (later_than u ts) = later_than v ts"
  by (auto simp: later_than_def fun_eq_iff split: option.splits)

lemma due_later: "timers w' = later_than u (timers w) \<Longrightarrow> u < v \<Longrightarrow> due w' v = due w v"
proof -
  assume t: "timers w' = later_than u (timers w)" and v: "u < v"
  have [simp]: "(timers w' n = Some (p, v)) = (timers w n = Some (p, v))" for n p
    using v by (auto simp: t later_than_def split: option.splits if_splits)
  have "fst (the (timers w' n)) = fst (the (timers w n))" if "timers w n = Some (p, v)" for n p
  proof -
    have "timers w' n = Some (p, v)" using that by simp
    then show ?thesis using that by (simp only: option.sel)
  qed
  then show ?thesis unfolding due_def by (simp, intro image_mset_cong) (drule mem_mset_set, clarify, simp)
qed

lemma finite_timers: "finite (dom (timers w))"
  by (rule finite_subset [of _ "{n. n < length (entries w)}"]) (auto simp: timers_def live_at_def split: if_splits)

lemma card_timers: "wheel_inv g w \<Longrightarrow> card (dom (timers w)) \<le> 2 ^ 32"
proof -
  assume "wheel_inv g w"
  then obtain L where c: "core g w L (timer_home g w) []" unfolding wheel_inv_def by blast
  have "dom (timers w) \<subseteq> {..<length (entries w)}" by (auto simp: timers_def live_at_def split: if_splits)
  then show ?thesis using coreD(4) [OF c] card_mono [of "{..<length (entries w)}" "dom (timers w)"] by simp
qed

lemma due_card:
  assumes inv: "wheel_inv g w"
  shows "size (due w (Suc (current_tick w))) + card (dom (later_than (Suc (current_tick w)) (timers w))) = card (dom (timers w))"
proof -
  let ?u = "Suc (current_tick w)" and ?D = "{n. \<exists>p. timers w n = Some (p, Suc (current_tick w))}"
  let ?L = "dom (later_than (Suc (current_tick w)) (timers w))"
  have "dom (timers w) = ?D \<union> ?L"
    using timers_range [OF inv] by (fastforce simp: later_than_def dom_def Suc_lessI split: option.splits)
  moreover have "?D \<inter> ?L = {}" by (auto simp: later_than_def split: option.splits if_splits)
  moreover have "finite ?D" "finite ?L" using finite_timers [of w] calculation(1) by auto
  ultimately show ?thesis by (simp add: due_def card_Un_disjoint)
qed

lemma expire_loop_spec:
  assumes "wheel_inv g w" "current_tick w + n \<le> u64_max" "start \<le> length ex"
  shows "\<exists>k w' bs. k \<le> n \<and> expire_loop g start budget n (w, ex) = Some (w', ex @ concat bs) \<and> wheel_inv g w' \<and>
    current_tick w' = current_tick w + k \<and> max_expirations w' = max_expirations w \<and>
    timers w' = later_than (current_tick w + k) (timers w) \<and>
    length bs = k \<and> (\<forall>i < k. mset (bs ! i) = due w (current_tick w + Suc i)) \<and>
    length (concat bs) + card (dom (timers w')) = card (dom (timers w)) \<and>
    (k < n \<longrightarrow> budget \<le> length ex + length (concat bs) - start)"
  using assms
proof (induction n arbitrary: w ex)
  case 0
  then show ?case by (intro exI [of _ 0] exI [of _ w] exI [of _ "[]"]) (simp add: later_than_0)
next
  case (Suc n)
  let ?t = "current_tick w"
  show ?case
  proof (cases "length ex - start \<ge> budget")
    case True
    then show ?thesis using Suc.prems
      by (intro exI [of _ 0] exI [of _ w] exI [of _ "[]"]) (simp add: later_than_0)
  next
    case False
    obtain w1 qs where a: "advance_one_tick g (w, ex) = Some (w1, ex @ qs)" "wheel_inv g w1" "env w1 = env (ticked g w)"
      "timers w1 = later_than (Suc ?t) (timers w)" "mset qs = due w (Suc ?t)"
      using advance_one_tick_spec [of g w ex] Suc.prems by auto
    have t1: "current_tick w1 = Suc ?t" "max_expirations w1 = max_expirations w"
      using a(3) by (simp_all add: env_def ticked_def Let_def)
    obtain k w' bs where b: "k \<le> n" "expire_loop g start budget n (w1, ex @ qs) = Some (w', (ex @ qs) @ concat bs)" "wheel_inv g w'"
      "current_tick w' = Suc ?t + k" "max_expirations w' = max_expirations w"
      "timers w' = later_than (Suc ?t + k) (timers w1)" "length bs = k" "\<forall>i < k. mset (bs ! i) = due w1 (Suc ?t + Suc i)"
      "length (concat bs) + card (dom (timers w')) = card (dom (timers w1))"
      "k < n \<longrightarrow> budget \<le> length (ex @ qs) + length (concat bs) - start"
      using Suc.IH [of w1 "ex @ qs", unfolded t1] a(2) Suc.prems by auto
    have sz: "length qs + card (dom (timers w1)) = card (dom (timers w))"
      using due_card [OF Suc.prems(1)] a(4,5) by (metis size_mset)
    have ds: "\<forall>i < Suc k. mset ((qs # bs) ! i) = due w (?t + Suc i)"
      using a(5) b(8) due_later [OF a(4)] by (auto simp: nth_Cons split: nat.splits)
    show ?thesis
      using a b sz ds False later_than_later [of "Suc ?t" "Suc ?t + k" "timers w"]
      by (intro exI [of _ "Suc k"] exI [of _ w'] exI [of _ "qs # bs"]) (simp add: ac_simps)
  qed
qed

lemma wheel_expire_spec:
  assumes inv: "wheel_inv g w" and n: "current_tick w + n \<le> u64_max"
  shows "\<exists>k w' bs. k \<le> n \<and> wheel_expire g n (w, ex) = Some (length (concat bs), w', ex @ concat bs) \<and> wheel_inv g w' \<and>
    current_tick w' = current_tick w + k \<and> max_expirations w' = max_expirations w \<and>
    timers w' = later_than (current_tick w + k) (timers w) \<and>
    length bs = k \<and> (\<forall>i < k. mset (bs ! i) = due w (current_tick w + Suc i)) \<and>
    (k < n \<longrightarrow> max_expirations w \<noteq> 0 \<and> max_expirations w \<le> length (concat bs))"
proof -
  obtain k w' bs where a: "k \<le> n"
    "expire_loop g (length ex) (expiration_budget w) n (w, ex) = Some (w', ex @ concat bs)" "wheel_inv g w'"
    "current_tick w' = current_tick w + k" "max_expirations w' = max_expirations w"
    "timers w' = later_than (current_tick w + k) (timers w)"
    "length bs = k" "\<forall>i < k. mset (bs ! i) = due w (current_tick w + Suc i)"
    "length (concat bs) + card (dom (timers w')) = card (dom (timers w))"
    "k < n \<longrightarrow> expiration_budget w \<le> length ex + length (concat bs) - length ex"
    using expire_loop_spec [OF inv n order_refl, of ex] by blast
  have "length (concat bs) \<le> 2 ^ 32" using card_timers [OF inv] a(9) by linarith
  then have "length (concat bs) < usize_max" by (simp add: usize_max_def)
  then have "k < n \<longrightarrow> max_expirations w \<noteq> 0 \<and> max_expirations w \<le> length (concat bs)"
    using a(10) by (auto simp: expiration_budget_def split: if_splits)
  then show ?thesis using a
    by (intro exI [of _ k] exI [of _ w'] exI [of _ bs]) (simp add: wheel_expire_def)
qed


subsection \<open>The hint for the next expiration\<close>

lemma first_set_offset_le:
  "k \<in> set os \<Longrightarrow> sorted os \<Longrightarrow> bitmap_is_set (fast_slot_bitmap w) ((current_index w ! 0 + k) mod SLOTS g) \<Longrightarrow>
   first_set_offset g w os \<le> k"
  by (induction os) auto

lemma first_set_offset_bound: "\<forall>x \<in> set os. x \<le> SLOTS g \<Longrightarrow> first_set_offset g w os \<le> SLOTS g"
  by (induction os) auto

lemma hint_single_ring:
  assumes inv: "wheel_inv g w" and g: "WHEELS g = 1" "FAST_BITMAP g" "\<not> OVERFLOW g" and n: "timers w n = Some (p, e)"
  shows "\<exists>r. first_expires_in_ticks g w = Some r \<and> current_tick w + r \<le> e"
proof -
  let ?t = "current_tick w" and ?s = "SLOTS g"
  have "live_at w n" and e: "e = expiration_tick (entries w ! n)" using n by (auto simp: timers_def split: if_splits)
  then have k: "timer_ok g ?t (fast_slot_bitmap w) (entries w ! n)" and i: "index_ok g w" and gk: "geometry_ok g"
    using inv unfolding wheel_inv_def by auto
  have s: "?s > 0" by (rule geometry_okD(3) [OF gk])
  have h: "home g ?t e = e mod ?s" using g by (simp add: home_def)
  have r: "?t < e" "e \<le> ?t + ?s" using k g e by (simp_all add: timer_ok_def in_range_def Let_def)
  have b: "e mod ?s \<in> bits (fast_slot_bitmap w)" using k g h s e by (simp add: timer_ok_def)
  have idx: "(current_index w ! 0 + (e - ?t)) mod ?s = e mod ?s"
    using i r mod_add_left_eq [of ?t ?s "e - ?t"] by (simp add: index_ok_def)
  show ?thesis
  proof (cases "e = ?t + ?s")
    case True
    then show ?thesis using first_set_offset_bound [of "[0..<?s]" g w] g by (simp add: first_expires_in_ticks_def)
  next
    case False
    then have "e - ?t \<in> set [0..<?s]" using r by auto
    then have "first_set_offset g w [0..<?s] \<le> e - ?t"
      by (rule first_set_offset_le) (use b in \<open>simp_all only: sorted_upt idx bits_def mem_Collect_eq\<close>)
    then show ?thesis using g r by (simp add: first_expires_in_ticks_def)
  qed
qed


subsection \<open>A new wheel\<close>

lemma push_heads:
  assumes "length xs + length es \<le> 2 ^ 32"
  shows "fold (\<lambda>_ acc. do { (heads, es) \<leftarrow> acc; (h, es) \<leftarrow> push_list_head es; Some (heads @ [h], es) }) xs (Some (hds, es)) =
    Some (hds @ [length es..<length es + length xs], es @ map entry_list_head [length es..<length es + length xs])"
  using assms
proof (induction xs arbitrary: hds es)
  case (Cons x xs)
  have "[length es..<length es + length (x # xs)] = length es # [Suc (length es)..<Suc (length es) + length xs]"
    by (simp add: upt_rec)
  then show ?case using Cons by (simp add: push_list_head_def)
qed simp

lemma new_core:
  assumes "nheads g \<le> 2 ^ 32" "slot_heads w = [0..<WHEELS g * SLOTS g]"
    "overflow_head w = (if OVERFLOW g then WHEELS g * SLOTS g else INVALID_INDEX)"
    "entries w = map entry_list_head [0..<nheads g]" "free_slots w = []" "tw_len w = 0"
  shows "core g w (\<lambda>_. []) (timer_home g w) []"
  using assms by (intro coreI) (auto simp: entry_list_head_def)

lemma wheel_new_spec:
  assumes g: "geometry_ok g" and n: "nheads g \<le> 2 ^ 32"
  shows "\<exists>w. wheel_new g budget = Some w \<and> wheel_inv g w \<and> timers w = Map.empty \<and> current_tick w = 0 \<and>
    max_expirations w = budget \<and> length (entries w) = nheads g \<and>
    timers_per_slot w = 0 \<and> slot_generations w = [] \<and> timer_slots w = []"
proof -
  let ?k = "WHEELS g * SLOTS g"
  define w :: "'a timer_wheel" where "w = \<lparr>current_tick = 0, current_index = [0, 0, 0], slot_heads = [0..<?k],
    overflow_head = (if OVERFLOW g then ?k else INVALID_INDEX), entries = map entry_list_head [0..<nheads g], free_slots = [],
    fast_slot_bitmap = (if FAST_BITMAP g then bitmap_with_capacity (SLOTS g) else bitmap_new),
    slot_generations = [], timer_slots = [], timer_bitmap = bitmap_new, timers_per_slot = 0,
    tw_len = 0, max_expirations = budget\<rparr>"
  have e: "fold (\<lambda>_ acc. do { (heads, es) \<leftarrow> acc; (h, es) \<leftarrow> push_list_head es; Some (heads @ [h], es) })
      [0..<?k] (Some ([], [] :: 'a timer_entry list)) = Some ([0..<?k], map entry_list_head [0..<?k])"
    using push_heads [of "[0..<?k]" "[]" "[]"] n by (simp add: nheads_def split: if_splits)
  have "wheel_new g budget = Some w"
    using g n unfolding wheel_new_def geometry_ok_def e by (simp add: w_def nheads_def push_list_head_def split: if_splits)
  moreover have nl: "\<not> live_at w m" for m by (auto simp: live_at_def w_def entry_list_head_def)
  moreover have "core g w (\<lambda>_. []) (timer_home g w) []" by (rule new_core) (use n in \<open>simp_all add: w_def\<close>)
  moreover have "index_ok g w" "timers w = Map.empty" using nl by (simp_all add: index_ok_def w_def timers_def fun_eq_iff)
  ultimately have "wheel_new g budget = Some w \<and> wheel_inv g w \<and> timers w = Map.empty"
    using g nl unfolding wheel_inv_def by blast
  then show ?thesis by (intro exI [of _ w]) (simp add: w_def)
qed

subsection \<open>The geometries the crates use\<close>

lemma pow2_geometry:
  assumes "SLOTS g = 2 ^ k" "k < 32" "WHEELS g \<in> {1, 2, 3}" "SLOTS g ^ WHEELS g \<le> u64_max"
  shows "geometry_ok g"
proof -
  have "SLOTS g < 2 ^ 32" unfolding assms(1) using assms(2) by (intro power_strict_increasing) simp_all
  moreover have "SLOTS g > 0" using assms(1) by simp
  moreover have "is_power_of_two (SLOTS g)" using assms(1) by (simp add: is_power_of_two_def)
  moreover have "horizon g \<noteq> None"
  proof -
    have a: "SLOTS g \<le> u64_max" using \<open>SLOTS g < 2 ^ 32\<close> by (simp add: u64_max_def)
    have b: "SLOTS g * SLOTS g \<le> SLOTS g * (SLOTS g * SLOTS g)" using \<open>SLOTS g > 0\<close> by simp
    consider "WHEELS g = Suc 0" | "WHEELS g = Suc (Suc 0)" | "WHEELS g = Suc (Suc (Suc 0))" using assms(3) by auto
    then show ?thesis
    proof cases
      case 3
      then have c: "SLOTS g * (SLOTS g * SLOTS g) \<le> u64_max" using assms(4) by simp
      then have "SLOTS g * SLOTS g \<le> u64_max" using b by (rule order_trans [rotated])
      then show ?thesis using a c 3 by (simp add: horizon_def mult.assoc)
    qed (use a assms(4) in \<open>simp_all add: horizon_def\<close>)
  qed
  ultimately show ?thesis using assms(3) by (auto simp: geometry_ok_def validate_geometry_def)
qed

lemma used_geometries:
  "geometry_ok TimerWheel1t1w32sl" "geometry_ok TimerWheel1w32FastHint" "geometry_ok TimerWheel1t2w32sl"
  "geometry_ok TimerWheel2t1w2048sl" "geometry_ok TimerWheel1t2w2048sl" "geometry_ok TimerWheel1t3w1024slOv"
  by (rule pow2_geometry [of _ 5] pow2_geometry [of _ 11] pow2_geometry [of _ 10],
      simp_all add: TimerWheel1t1w32sl_def TimerWheel1w32FastHint_def TimerWheel1t2w32sl_def TimerWheel2t1w2048sl_def
        TimerWheel1t2w2048sl_def TimerWheel1t3w1024slOv_def u64_max_def; fail)+

subsection \<open>Two rings: the last intervals wrap onto the current slow slot\<close>












lemma nheads_bound: "WHEELS g * SLOTS g < 2 ^ 32 \<Longrightarrow> nheads g \<le> 2 ^ 32"
  by (simp add: nheads_def)

lemma due_mem: "timers w n = Some (p, u) \<Longrightarrow> p \<in># due w u"
proof -
  assume n: "timers w n = Some (p, u)"
  let ?D = "{n. \<exists>p. timers w n = Some (p, u)}"
  have "finite ?D" by (rule finite_subset [OF _ finite_timers [of w]]) auto
  then have "n \<in># mset_set ?D" using n by simp
  then have "fst (the (timers w n)) \<in># due w u" unfolding due_def by simp
  then show ?thesis by (simp add: n)
qed

text \<open>The wheel the witnesses below run on.\<close>

lemma hint_wheel [simp]:
  "WHEELS TimerWheel1w32FastHint = 1" "SLOTS TimerWheel1w32FastHint = 32" "FAST_BITMAP TimerWheel1w32FastHint"
  "\<not> OVERFLOW TimerWheel1w32FastHint" "nheads TimerWheel1w32FastHint = 32"
  by (simp_all add: TimerWheel1w32FastHint_def nheads_def)

lemma new_hint_wheel:
  "\<exists>w. wheel_new TimerWheel1w32FastHint 0 = Some w \<and> wheel_inv TimerWheel1w32FastHint w \<and> timers w = Map.empty \<and>
    current_tick w = 0 \<and> max_expirations w = 0 \<and> length (entries w) < 2 ^ 32"
  using wheel_new_spec [OF used_geometries(2), of 0] by auto

lemmas hint_wheel_eval = interval_ok_def u64_max_def

subsection \<open>Properties\<close>

text \<open>
  C2. A started timer fires at its tick and not before: on a wheel with one ring, or with three rings and
  an overflow list, every non-zero accepted interval \<open>k\<close> is started, and expiring any number of ticks with no
  expiration budget runs all of them, hands out per tick exactly the payloads due at it, keeps the timer as
  long as fewer than \<open>k\<close> ticks have passed, and hands its payload out in tick \<open>k\<close>, after which it is gone.
\<close>
theorem timer_fires_on_time:
  assumes inv: "wheel_inv g w" and rings: "WHEELS g = 1 \<or> WHEELS g = 3 \<and> OVERFLOW g"
    and k: "k > 0" "interval_ok g (current_tick w) k" and room: "free_slots w \<noteq> [] \<or> length (entries w) < 2 ^ 32"
    and unlimited: "max_expirations w = 0" and n: "current_tick w + n \<le> u64_max"
  shows "\<exists>h w1 w2 bs. wheel_start g p k w = Some (Inr (h, w1)) \<and>
    wheel_expire g n (w1, ex) = Some (length (concat bs), w2, ex @ concat bs) \<and> length bs = n \<and>
    (\<forall>i < n. mset (bs ! i) = due w1 (current_tick w + Suc i)) \<and>
    timers w2 h = (if n < k then Some (p, current_tick w + k) else None) \<and>
    (k \<le> n \<longrightarrow> p \<in> set (bs ! (k - 1)))"
proof -
  let ?t = "current_tick w"
  have r: "in_range g ?t (?t + k)"
    using accepted_in_range [OF _ k(2,1) rings] inv by (simp add: wheel_inv_def)
  obtain h w1 where s: "wheel_start g p k w = Some (Inr (h, w1))" "wheel_inv g w1"
    "timers w1 = (timers w)(h \<mapsto> (p, ?t + k))" "env w1 = env w"
    using wheel_start_spec [OF inv k r room] by blast
  note e = envD(1,7) [OF s(4)]
  obtain m w2 bs where x: "m \<le> n" "wheel_expire g n (w1, ex) = Some (length (concat bs), w2, ex @ concat bs)"
    "timers w2 = later_than (?t + m) (timers w1)" "length bs = m" "\<forall>i < m. mset (bs ! i) = due w1 (?t + Suc i)"
    "m < n \<longrightarrow> max_expirations w1 \<noteq> 0"
    using wheel_expire_spec [OF s(2), of n ex] n unfolding e by blast
  have m: "m = n" using x(1,6) unlimited e by simp
  have "p \<in># due w1 (?t + k)"
    by (rule due_mem [of _ h]) (simp add: s(3))
  then have "p \<in> set (bs ! (k - 1))" if "k \<le> n"
    using x(5) [rule_format, of "k - 1"] that k(1) m by (simp add: set_mset_mset [symmetric] del: set_mset_mset)
  then show ?thesis using s(1) x m
    by (intro exI [of _ h] exI [of _ w1] exI [of _ w2] exI [of _ bs]) (simp add: s(3) later_than_def)
qed

theorem timer_fires_on_time_witness:
  "\<exists>w. wheel_new TimerWheel1w32FastHint 0 = Some w \<and>
    (\<exists>h w1 w2 bs. wheel_start TimerWheel1w32FastHint ''p'' 3 w = Some (Inr (h, w1)) \<and>
      wheel_expire TimerWheel1w32FastHint 5 (w1, []) = Some (length (concat bs), w2, concat bs) \<and> length bs = 5 \<and>
      timers w2 h = None \<and> ''p'' \<in> set (bs ! 2))"
proof -
  obtain w :: "string timer_wheel" where w: "wheel_new TimerWheel1w32FastHint 0 = Some w" "wheel_inv TimerWheel1w32FastHint w"
    "current_tick w = 0" "max_expirations w = 0" "length (entries w) < 2 ^ 32"
    using new_hint_wheel by blast
  let ?g = TimerWheel1w32FastHint
  have "interval_ok ?g (current_tick w) 3" by (simp add: hint_wheel_eval w(3))
  then obtain h w1 w2 bs where x: "wheel_start ?g ''p'' 3 w = Some (Inr (h, w1))"
    "wheel_expire ?g 5 (w1, []) = Some (length (concat bs), w2, [] @ concat bs)" "length bs = 5"
    "timers w2 h = (if (5 :: nat) < 3 then Some (''p'', current_tick w + 3) else None)"
    "(3 :: nat) \<le> 5 \<longrightarrow> ''p'' \<in> set (bs ! (3 - 1))"
    using timer_fires_on_time [OF w(2), of 3 5 "''p''" "[]"] w(3,4,5) by (auto simp: u64_max_def)
  show ?thesis using w(1) x by (intro exI [of _ w] exI [of _ h] exI [of _ w1] exI [of _ w2] exI [of _ bs] conjI) simp_all
qed

text \<open>
  C7. \<open>expire\<close> keeps the invariant and hands out, tick after tick in order, exactly the timers that are due;
  it stops early only when a non-zero expiration budget is used up, and the timers left are those that expire
  after the last tick it ran.
\<close>
theorem expire_exact:
  assumes "wheel_inv g w" "current_tick w + n \<le> u64_max"
  shows "\<exists>k w' bs. k \<le> n \<and> wheel_expire g n (w, ex) = Some (length (concat bs), w', ex @ concat bs) \<and> wheel_inv g w' \<and>
    current_tick w' = current_tick w + k \<and> timers w' = later_than (current_tick w + k) (timers w) \<and>
    length bs = k \<and> (\<forall>i < k. mset (bs ! i) = due w (current_tick w + Suc i)) \<and>
    (k < n \<longrightarrow> max_expirations w \<noteq> 0 \<and> max_expirations w \<le> length (concat bs))"
  using wheel_expire_spec [OF assms] by blast

theorem expire_exact_witness:
  "\<exists>w. wheel_new TimerWheel1w32FastHint 0 = Some w \<and>
    (\<exists>w'. wheel_expire TimerWheel1w32FastHint 7 (w, [1 :: nat]) = Some (0, w', [1]) \<and> current_tick w' = 7)"
proof -
  obtain w :: "nat timer_wheel" where w: "wheel_new TimerWheel1w32FastHint 0 = Some w" "wheel_inv TimerWheel1w32FastHint w"
    "current_tick w = 0" "max_expirations w = 0" "timers w = Map.empty"
    using new_hint_wheel by blast
  obtain k w' bs where x: "k \<le> 7" "wheel_expire TimerWheel1w32FastHint 7 (w, [1]) = Some (length (concat bs), w', [1] @ concat bs)"
    "current_tick w' = k" "length bs = k" "\<forall>i < k. mset (bs ! i) = due w (Suc i)" "k < 7 \<longrightarrow> max_expirations w \<noteq> 0"
    using expire_exact [OF w(2), of 7 "[1]"] w(3) by (auto simp: u64_max_def)
  have "concat bs = []" using x(4,5) by (auto simp: due_def w(5) in_set_conv_nth)
  then show ?thesis using x w(1,4) by auto
qed



text \<open>
  C31. \<open>stop\<close> removes a live timer, and only it, and keeps the invariant; for a handle that is not live it
  answers false and changes nothing.
\<close>
theorem stop_outcomes:
  assumes inv: "wheel_inv g w"
  shows "if timers w h = None then wheel_stop h w = Some (False, w)
    else \<exists>w'. wheel_stop h w = Some (True, w') \<and> wheel_inv g w' \<and> timers w' = (timers w)(h := None) \<and>
      current_tick w' = current_tick w"
  using wheel_stop_spec [OF inv, of h] envD(1) by (fastforce simp: timers_def)

theorem stop_outcomes_witness:
  "\<exists>w. wheel_new TimerWheel1w32FastHint 0 = Some (w :: string timer_wheel) \<and> wheel_stop 40 w = Some (False, w)"
proof -
  obtain w :: "string timer_wheel" where w: "wheel_new TimerWheel1w32FastHint 0 = Some w" "wheel_inv TimerWheel1w32FastHint w"
    "timers w = Map.empty"
    using new_hint_wheel by blast
  then show ?thesis using stop_outcomes [OF w(2), of 40] by simp
qed

text \<open>
  C32. A new wheel of a geometry the constructor accepts, whose list heads fit 32-bit indices, satisfies the
  invariant and holds no timer.
\<close>
theorem new_wheel_wellformed:
  assumes "validate_geometry g = Some ()" "WHEELS g * SLOTS g < 2 ^ 32"
  shows "\<exists>w :: 'a timer_wheel. wheel_new g budget = Some w \<and> wheel_inv g w \<and> timers w = Map.empty \<and>
    current_tick w = 0 \<and> wheel_is_empty w"
proof -
  obtain w :: "'a timer_wheel" where w: "wheel_new g budget = Some w" "wheel_inv g w" "timers w = Map.empty" "current_tick w = 0"
    using wheel_new_spec [of g budget] assms nheads_bound [of g] by (auto simp: geometry_ok_def)
  then obtain L where "core g w L (timer_home g w) []" unfolding wheel_inv_def by blast
  then have "tw_len w = card {n. live_at w n}" using coreD(15) by (auto simp: live_at_def)
  moreover have "{n. live_at w n} = {}" using w(3) by (auto simp: timers_def fun_eq_iff split: if_splits)
  ultimately show ?thesis using w by (intro exI [of _ w]) (simp add: wheel_is_empty_def)
qed

theorem new_wheel_wellformed_witness:
  "\<exists>w. wheel_new TimerWheel1t3w1024slOv 0 = Some (w :: nat timer_wheel) \<and> wheel_inv TimerWheel1t3w1024slOv w \<and> wheel_is_empty w"
  using new_wheel_wellformed [of TimerWheel1t3w1024slOv 0] used_geometries(6)
  by (auto simp: geometry_ok_def TimerWheel1t3w1024slOv_def)

text \<open>
  C33. The hint for the next expiration of a single-ring wheel is never late: no timer expires before the tick
  it names.
\<close>
theorem hint_never_late:
  assumes "wheel_inv g w" "WHEELS g = 1" "FAST_BITMAP g" "\<not> OVERFLOW g" "timers w n = Some (p, e)"
  shows "\<exists>r. first_expires_in_ticks g w = Some r \<and> current_tick w + r \<le> e"
  by (rule hint_single_ring [OF assms])

theorem hint_never_late_witness:
  "\<exists>w n r. wheel_inv TimerWheel1w32FastHint w \<and> timers w n = Some (''p'', 9) \<and>
    first_expires_in_ticks TimerWheel1w32FastHint w = Some r \<and> r \<le> 9"
proof -
  let ?g = TimerWheel1w32FastHint
  obtain w :: "string timer_wheel" where w: "wheel_inv ?g w" "current_tick w = 0" "length (entries w) < 2 ^ 32"
    using new_hint_wheel by blast
  have "interval_ok ?g (current_tick w) 9" "in_range ?g (current_tick w) (current_tick w + 9)"
    by (simp_all add: hint_wheel_eval w(2) in_range_def)
  then obtain n w' where s': "wheel_inv ?g w'" "timers w' = (timers w)(n \<mapsto> (''p'', 9))" "env w' = env w"
    using wheel_start_spec [OF w(1), of 9 "''p''"] w(2,3) by auto
  then have s: "wheel_inv ?g w'" "timers w' n = Some (''p'', 9)" "env w' = env w" by simp_all
  then show ?thesis
    using hint_never_late [OF s(1) _ _ _ s(2)] envD(1) [OF s(3)] w(2) by auto
qed


subsection \<open>Timers named by slot, generation and id\<close>

lemma wheel_inv_ids [simp]:
  "wheel_inv g (w\<lparr>slot_generations := a\<rparr>) = wheel_inv g w" "wheel_inv g (w\<lparr>timer_slots := b\<rparr>) = wheel_inv g w"
  "wheel_inv g (w\<lparr>timer_bitmap := bm\<rparr>) = wheel_inv g w" "wheel_inv g (w\<lparr>timers_per_slot := n\<rparr>) = wheel_inv g w"
  by (simp_all add: wheel_inv_def index_ok_def core_def timer_home_def live_at_def Let_def cong: conj_cong)

lemma timers_ids [simp]:
  "timers (w\<lparr>slot_generations := a\<rparr>) = timers w" "timers (w\<lparr>timer_slots := b\<rparr>) = timers w"
  "timers (w\<lparr>timer_bitmap := bm\<rparr>) = timers w" "timers (w\<lparr>timers_per_slot := n\<rparr>) = timers w"
  by (simp_all add: timers_def live_at_def fun_eq_iff)
















end
