(* ===== verification/Spec2Isabelle.thy ===== *)
theory Spec2Isabelle
  imports Pool LockFreeQueue LinkedList SparseVec Mtrie Checksum TcpSegment IpInput TimerExpiry
begin

text \<open>
  \<^bold>\<open>A verification of the netsystem packet stack\<close>

  The repository is a rewrite of the VPP packet stack in Rust.  \<open>src/crates/hammer-infra\<close> has the data structures,
  \<open>hammer-core\<close> the buffers and graph frames, \<open>hammer-runtime\<close> the workers and the graph dispatch, \<open>hammer-service\<close>
  sessions, interfaces and forwarding objects, \<open>hammer-ipc\<close> and \<open>hammer-stats\<close> the interfaces to other processes, and
  \<open>hammer-plugins\<close> the protocols.  A received packet enters at \<open>ip4-input\<close>, which checks its header (with the
  Internet checksum) and leaves a cursor in its buffer, is looked up in the multi-way trie, and reaches TCP, which
  parses its options, compares sequence numbers and runs on the timer wheel; segments leave through the header
  writers.  Buffers, connections and timers live in pools and lists, workers exchange work through rings.  This
  library models those algorithms; each theory names its source files in its first block.

  \<^bold>\<open>Conventions.\<close>  A Rust integer type of w bits is a word of w bits wherever it may wrap; \<open>usize\<close> is a natural
  number with the checks against \<open>usize_max\<close> written out; a \<open>Vec\<close> or slice is a list; a struct is a record and an
  enum a datatype.  A \<open>Result\<close> is a sum with the error on the left.  A panic, an access out of bounds, a dangling
  pointer and an uninitialised read are the value \<open>None\<close> (the pool names them), so that a theorem of the form
  \<open>f x = Some y\<close> also says that none of them happens.  Loops are recursive functions with a termination proof, or
  \<open>partial_function (option)\<close>, whose value \<open>None\<close> covers a loop that does not end; where one is used, the property
  states that it returns.  No definition uses fuel, except schedules given as lists.

  \<^bold>\<open>The theories\<close>

  \<^item> \<open>Prelude\<close>: machine types, the integer operations of the standard library, draining an iterator, byte order.
  \<^item> \<open>Bitmap\<close> (\<open>bitmap.rs\<close>): word scans; the interface \<open>bitset\<close>, interpreted for the bitmap, says what its clients use.
  \<^item> \<open>Pool\<close> (\<open>pool.rs\<close>): the pool over a bitmap of free indices; the interface \<open>index_pool\<close>.  Insertions give an index
    that was free, a removed index is dead, the free list and the bitmap agree, iteration gives the live entries.
  \<^item> \<open>Queues\<close> (\<open>fifo_queue.rs\<close> and \<open>LocalRing\<close>, \<open>IndexedRing\<close> of \<open>ring.rs\<close>): the interface \<open>queue\<close> with the first-in-first-out
    theorem for any run, interpreted four times.
  \<^item> \<open>LockFreeRing\<close> and \<open>LockFreeQueue\<close> (\<open>LockFreeRing\<close> of \<open>ring.rs\<close>): the ring run by any number of threads, one step
    per atomic access, with an invariant by rule induction over the reachable states.  Steps interleave on one
    memory; the release store of a slot's sequence number after its value, and the acquire load before, are what
    makes this order the one every thread sees.  The bound \<open>2 ^ 32\<close> on enqueued values is the source's own.  Then the same
    ring run by one thread, without that bound, as a \<open>queue\<close>.
  \<^item> \<open>LinkedList\<close> (\<open>linked_list.rs\<close>, \<open>stack.rs\<close>): nodes on an explicit heap; the address an allocation returns is an
    argument, and the hypothesis is that it was free.
  \<^item> \<open>MapInterface\<close>, \<open>SparseVec\<close> (\<open>sparse_vec.rs\<close>): the interface \<open>keyed_map\<close> of containers that refine a finite map over
    any run of operations, interpreted for the sparse vector.
  \<^item> \<open>Mtrie\<close> (\<open>mtrie.rs\<close>): plies and leaves of the trie; a lookup gives the longest matching prefix of
    everything inserted so far.
  \<^item> \<open>Checksum\<close> (\<open>checksum.rs\<close>): every vector width of the accumulator computes the checksum of RFC 1071 (on a
    little-endian target; the theory also shows why not on a big-endian one), for any cut into parts.
  \<^item> \<open>TcpTypes\<close>, \<open>TcpWire\<close>, \<open>TcpSegment\<close> (\<open>protocol/mod.rs\<close>, \<open>protocol/options.rs\<close>, \<open>segment.rs\<close> of the TCP plugin and the packet
    cursor of \<open>hammer-core\<close>): sequence arithmetic, connection keys, cookies, the option parser against a
    reference grammar, the header writers and the round trip of a whole segment.
  \<^item> \<open>TimerWheel\<close>, \<open>TimerExpiry\<close> (\<open>timer_wheel.rs\<close>): the wheel with its rings, overflow list and linked slots; where a timer is
    kept, that ticks and cascades hand out exactly the timers that are due, and when one fires.
  \<^item> \<open>IpHeader\<close>, \<open>IpInput\<close> (\<open>protocol/ip.rs\<close>, \<open>protocol/icmp.rs\<close>, \<open>protocol/ip_ecn.rs\<close>, \<open>input.rs\<close> of the IP plugin and \<open>opaque.rs\<close> of
    \<open>hammer-service\<close>): header formats, the classification of packets, the input nodes on whole frames.

  \<^bold>\<open>How the parts compose.\<close>  The pool and the timer wheel use the bitmap; the IP header writer and the input node
  use the checksum, and the input node stores the cursor that the TCP receive path of \<open>TcpSegment\<close> reads.  The
  interfaces \<open>bitset\<close>, \<open>index_pool\<close>, \<open>queue\<close> and \<open>keyed_map\<close> are locales; the lemmas of the clients are proved in them
  once and reach the properties through their interpretations on the model.

  \<^bold>\<open>Parameters.\<close>  The processor features that select a vector width, the byte order of the target, the addresses
  an allocator returns, the configured feature arcs, FIB tables and error indices of the IP input nodes are
  arguments of the definitions.

  \<^bold>\<open>Not modelled\<close>, and why: memory managers, shared-memory segments, the bihash and buffer storage, which work on raw
  offsets in mapped memory; threads, barriers, event loops, plugins, files, devices, CLI and statistics, which are
  operating-system input and output; the TCP connection state machine, the session layer and the forwarding
  objects, which run on those; congestion control, which is floating-point; the procedural macros; and within
  modelled files the reassembly member of the opaque area, tracing, prefetching and \<open>Debug\<close> output.
\<close>

end
